(* ===== verification/Prelude.thy ===== *)
theory Prelude
  imports Main "HOL-Library.Word"
begin

section \<open>Prelude: machine types, faults, results, reachability\<close>

text \<open>
  What every component shares: the fixed-width integers of the C++ code, the ways in
  which a run can leave the defined behaviour of the language (\<open>fault\<close>), sequencing of
  fallible operations, and reachability of step relations.
\<close>

subsection \<open>Machine types\<close>

text \<open>
  \<open>std::byte\<close> and \<open>char\<close> data are 8-bit words; \<open>uint16_t\<close>, \<open>uint32_t\<close>, \<open>uint64_t\<close>
  are words of their width. A pointer is its 64-bit address and \<open>nullptr\<close> is 0.
\<close>

type_synonym byte = "8 word"
type_synonym u16 = "16 word"
type_synonym u32 = "32 word"
type_synonym u64 = "64 word"
type_synonym ptr = "64 word"

text \<open>A string literal of the source, as the bytes it denotes.\<close>

definition lit :: "string \<Rightarrow> byte list" where
  "lit s = map of_char s"

lemma length_lit [simp]: "length (lit s) = length s"
  by (simp add: lit_def)

lemma lit_eq_Nil [simp]: "lit s = [] \<longleftrightarrow> s = []"
  by (simp add: lit_def)

subsection \<open>Faults and fallible results\<close>

text \<open>
  The ways a run leaves the defined behaviour: the undefined behaviours of C++ that the
  code can reach, the abort of a failed \<open>kassert\<close>, and an exception that leaves \<open>main\<close>. \<open>Suspended\<close> is not an error: it is
  the outcome of a sequential run that asks for a lock which is not free.
\<close>

datatype fault =
    Null_dereference
  | Dangling_pointer
  | Out_of_bounds
  | Buffer_overflow
  | Division_by_zero
  | Kassert_failed
  | Undefined_conversion
  | Uncaught_exception
  | Suspended

named_theorems result_simps \<open>equations that take sequenced results apart\<close>

fun rbind :: "'e + 'a \<Rightarrow> ('a \<Rightarrow> 'e + 'b) \<Rightarrow> 'e + 'b" where
  "rbind (Inl e) f = Inl e"
| "rbind (Inr x) f = f x"

lemma rbind_eq_Inr [result_simps]:
  "rbind m f = Inr y \<longleftrightarrow> (\<exists>x. m = Inr x \<and> f x = Inr y)"
  by (cases m) auto

lemma rbind_eq_Inl [result_simps]:
  "rbind m f = Inl e \<longleftrightarrow> m = Inl e \<or> (\<exists>x. m = Inr x \<and> f x = Inl e)"
  by (cases m) auto

lemma rbind_assoc: "rbind (rbind m f) g = rbind m (\<lambda>x. rbind (f x) g)"
  by (cases m) auto

text \<open>A guard: go on only if the condition holds.\<close>

definition require :: "bool \<Rightarrow> 'e \<Rightarrow> 'e + unit" where
  "require b e = (if b then Inr () else Inl e)"

lemma require_simps [simp]:
  "require True e = Inr ()" "require False e = Inl e"
  by (simp_all add: require_def)

lemma require_eq_Inr [result_simps]: "require b e = Inr u \<longleftrightarrow> b"
  by (simp add: require_def)

lemma require_eq_Inl [result_simps]: "require b e = Inl e' \<longleftrightarrow> \<not> b \<and> e' = e"
  by (auto simp add: require_def)

subsection \<open>Reachable states\<close>

inductive reachable :: "('s \<Rightarrow> bool) \<Rightarrow> ('s \<Rightarrow> 's \<Rightarrow> bool) \<Rightarrow> 's \<Rightarrow> bool"
  for init :: "'s \<Rightarrow> bool" and step :: "'s \<Rightarrow> 's \<Rightarrow> bool" where
  start: "init s \<Longrightarrow> reachable init step s"
| next_state: "reachable init step s \<Longrightarrow> step s t \<Longrightarrow> reachable init step t"

lemma reachable_mono:
  assumes "reachable init step s" and "\<And>s t. step s t \<Longrightarrow> step' s t"
  shows "reachable init step' s"
  using assms(1) by (induction rule: reachable.induct) (auto intro: reachable.intros assms(2))

lemma reachable_steps: "step\<^sup>*\<^sup>* s t \<Longrightarrow> reachable init step s \<Longrightarrow> reachable init step t"
  by (induction rule: rtranclp_induct) (auto intro: reachable.next_state)

end
