(* ===== verification/Contracts.thy ===== *)
theory Contracts
  imports Prelude
begin

section \<open>Contracts: the interfaces between components\<close>

text \<open>
  One locale for each interface that several components share: transition systems with an
  inductive invariant, locks, first-in-first-out queues, and binary codecs. A client's
  lemmas are proved here once; the theory of the component that provides the operations
  interprets the locale on its definitions.
\<close>

subsection \<open>Transition systems and locks\<close>

text \<open>
  The contract of a transition system with an inductive invariant: what holds at the start
  and is kept by every step holds in every reachable state.
\<close>

locale invariant_system =
  fixes init :: "'s \<Rightarrow> bool"
    and step :: "'s \<Rightarrow> 's \<Rightarrow> bool"
    and inv :: "'s \<Rightarrow> bool"
  assumes inv_init: "init s \<Longrightarrow> inv s"
    and inv_step: "inv s \<Longrightarrow> step s t \<Longrightarrow> inv t"
begin

lemma reachable_inv: "reachable init step s \<Longrightarrow> inv s"
  by (induction rule: reachable.induct) (auto intro: inv_init inv_step)

end

text \<open>
  The contract of a lock: its holders, its waiters, and what the invariant promises of
  them. \<open>compatible\<close> says which sets of holders may coexist.
\<close>

locale lock_system = invariant_system init step inv
  for init :: "'s \<Rightarrow> bool" and step :: "'s \<Rightarrow> 's \<Rightarrow> bool" and inv :: "'s \<Rightarrow> bool" +
  fixes compatible :: "'s \<Rightarrow> bool"
    and waiting :: "'s \<Rightarrow> bool"
    and release_enabled :: "'s \<Rightarrow> bool"
  assumes inv_compatible: "inv s \<Longrightarrow> compatible s"
    and inv_progress: "inv s \<Longrightarrow> waiting s \<Longrightarrow> release_enabled s"
begin

lemma reachable_compatible: "reachable init step s \<Longrightarrow> compatible s"
  by (rule inv_compatible, rule reachable_inv)

lemma reachable_progress: "reachable init step s \<Longrightarrow> waiting s \<Longrightarrow> release_enabled s"
  by (rule inv_progress, rule reachable_inv)

end

text \<open>
  The contract between two transition systems of which the second has finer steps: what one
  step of the first does, some run of the second does, up to a relation of their states.
\<close>

locale forward_simulation =
  fixes init :: "'s \<Rightarrow> bool"
    and step :: "'s \<Rightarrow> 's \<Rightarrow> bool"
    and init' :: "'t \<Rightarrow> bool"
    and step' :: "'t \<Rightarrow> 't \<Rightarrow> bool"
    and rel :: "'s \<Rightarrow> 't \<Rightarrow> bool"
  assumes sim_init: "init s \<Longrightarrow> \<exists>t. init' t \<and> rel s t"
    and sim_step: "rel s t \<Longrightarrow> step s s' \<Longrightarrow> \<exists>t'. step'\<^sup>*\<^sup>* t t' \<and> rel s' t'"
begin

lemma reachable_simulated: "reachable init step s \<Longrightarrow> \<exists>t. reachable init' step' t \<and> rel s t"
proof (induction rule: reachable.induct)
  case (start s)
  then show ?case using sim_init reachable.start by metis
next
  case (next_state s s')
  then obtain t where t: "reachable init' step' t" "rel s t" by blast
  then obtain t' where "step'\<^sup>*\<^sup>* t t'" "rel s' t'" using sim_step next_state.hyps(2) by blast
  with t(1) show ?case using reachable_steps by metis
qed

end

subsection \<open>First-in-first-out queues\<close>

text \<open>
  The operations a partition needs of its queue. Enqueueing may fail (no memory), and then
  promises nothing; dequeueing from the empty queue is a no-op.
\<close>

datatype 'a queue_op = Enq 'a | Deq

fun run_queue :: "('a \<Rightarrow> 's \<Rightarrow> fault + 's) \<Rightarrow> ('s \<Rightarrow> fault + 's) \<Rightarrow> 'a queue_op list \<Rightarrow> 's \<Rightarrow> fault + 's" where
  "run_queue enq deq [] s = Inr s"
| "run_queue enq deq (Enq x # ops) s = rbind (enq x s) (run_queue enq deq ops)"
| "run_queue enq deq (Deq # ops) s = rbind (deq s) (run_queue enq deq ops)"

fun spec_queue :: "'a queue_op list \<Rightarrow> 'a list \<Rightarrow> 'a list" where
  "spec_queue [] xs = xs"
| "spec_queue (Enq x # ops) xs = spec_queue ops (xs @ [x])"
| "spec_queue (Deq # ops) xs = spec_queue ops (tl xs)"

fun valid_ops :: "('a \<Rightarrow> bool) \<Rightarrow> 'a queue_op list \<Rightarrow> bool" where
  "valid_ops P [] = True"
| "valid_ops P (Enq x # ops) = (P x \<and> valid_ops P ops)"
| "valid_ops P (Deq # ops) = valid_ops P ops"

text \<open>A consumer that reads the front and removes it, \<open>n\<close> times.\<close>

fun drain :: "('s \<Rightarrow> fault + 'a) \<Rightarrow> ('s \<Rightarrow> fault + 's) \<Rightarrow> nat \<Rightarrow> 's \<Rightarrow> fault + 'a list \<times> 's" where
  "drain first deq 0 s = Inr ([], s)"
| "drain first deq (Suc n) s =
     rbind (first s) (\<lambda>x. rbind (deq s) (\<lambda>s1.
     rbind (drain first deq n s1) (\<lambda>(xs, s2). Inr (x # xs, s2))))"

locale fifo_queue =
  fixes ok :: "'s \<Rightarrow> bool"
    and valid :: "'a \<Rightarrow> bool"
    and contents :: "'s \<Rightarrow> 'a list"
    and enq :: "'a \<Rightarrow> 's \<Rightarrow> fault + 's"
    and deq :: "'s \<Rightarrow> fault + 's"
    and first :: "'s \<Rightarrow> fault + 'a"
    and count :: "'s \<Rightarrow> nat"
  assumes enq_law: "ok s \<Longrightarrow> valid x \<Longrightarrow> enq x s = Inr s' \<Longrightarrow> ok s' \<and> contents s' = contents s @ [x]"
    and deq_law: "ok s \<Longrightarrow> \<exists>s'. deq s = Inr s' \<and> ok s' \<and> contents s' = tl (contents s)"
    and first_law: "ok s \<Longrightarrow> contents s \<noteq> [] \<Longrightarrow> first s = Inr (hd (contents s))"
    and count_law: "ok s \<Longrightarrow> count s = length (contents s)"
begin

lemma run_queue_refines:
  "ok s \<Longrightarrow> valid_ops valid ops \<Longrightarrow> run_queue enq deq ops s = Inr s'
   \<Longrightarrow> ok s' \<and> contents s' = spec_queue ops (contents s)"
proof (induction ops arbitrary: s)
  case Nil
  then show ?case by simp
next
  case (Cons opn ops)
  show ?case
  proof (cases opn)
    case (Enq x)
    with Cons.prems obtain s1 where s1: "enq x s = Inr s1" "run_queue enq deq ops s1 = Inr s'"
      and v: "valid x" "valid_ops valid ops"
      by (auto simp: result_simps)
    from enq_law [OF Cons.prems(1) v(1) s1(1)] Cons.IH [of s1] s1 v Enq show ?thesis by simp
  next
    case Deq
    with Cons.prems obtain s1 where "deq s = Inr s1" "run_queue enq deq ops s1 = Inr s'"
      by (auto simp: result_simps)
    with deq_law [OF Cons.prems(1)] Cons Deq show ?thesis by auto
  qed
qed

lemma drain_all:
  "ok s \<Longrightarrow> n = count s \<Longrightarrow>
   \<exists>s'. drain first deq n s = Inr (contents s, s') \<and> ok s' \<and> contents s' = []"
proof (induction n arbitrary: s)
  case 0
  then show ?case by (simp add: count_law)
next
  case (Suc n)
  then have ne: "contents s \<noteq> []" by (auto simp: count_law)
  obtain s1 where s1: "deq s = Inr s1" "ok s1" "contents s1 = tl (contents s)"
    using deq_law [OF Suc.prems(1)] by blast
  have "n = count s1"
    using Suc.prems s1 by (simp add: count_law)
  from Suc.IH [OF s1(2) this] obtain s' where
    "drain first deq n s1 = Inr (contents s1, s')" "ok s'" "contents s' = []" by blast
  with s1 ne show ?case by (simp add: first_law [OF Suc.prems(1) ne])
qed

end

subsection \<open>Binary codecs\<close>

text \<open>
  A frame codec: an encoder and a decoder that takes one frame off the front of a byte
  stream. \<open>valid\<close> are the values the encoder represents faithfully. The consequence a
  receiver rests on: a stream of encoded frames decodes to the frames that were sent.
\<close>

fun decode_all :: "('b list \<Rightarrow> ('a \<times> 'b list) option) \<Rightarrow> nat \<Rightarrow> 'b list \<Rightarrow> ('a list \<times> 'b list) option" where
  "decode_all dec 0 bs = Some ([], bs)"
| "decode_all dec (Suc n) bs =
     (case dec bs of None \<Rightarrow> None
      | Some (x, rest) \<Rightarrow> (case decode_all dec n rest of None \<Rightarrow> None
          | Some (xs, r) \<Rightarrow> Some (x # xs, r)))"

locale frame_codec =
  fixes valid :: "'a \<Rightarrow> bool"
    and enc :: "'a \<Rightarrow> 'b list"
    and dec :: "'b list \<Rightarrow> ('a \<times> 'b list) option"
  assumes dec_enc: "valid x \<Longrightarrow> dec (enc x @ rest) = Some (x, rest)"
begin

lemma decode_all_frames:
  "list_all valid xs \<Longrightarrow> decode_all dec (length xs) (concat (map enc xs) @ rest) = Some (xs, rest)"
  by (induction xs) (auto simp: dec_enc)

lemma enc_inj:
  assumes "valid x" and "valid y" and "enc x = enc y"
  shows "x = y"
  using dec_enc [OF assms(1), of "[]"] dec_enc [OF assms(2), of "[]"] assms(3)
  by (metis option.inject prod.inject)

lemma enc_prefix_free:
  assumes "valid x" and "valid y" and "enc x @ r = enc y @ r'"
  shows "x = y \<and> r = r'"
  using dec_enc [OF assms(1), of r] dec_enc [OF assms(2), of r'] assms(3)
  by (metis option.inject prod.inject)

lemma stream_inj:
  assumes "list_all valid xs" and "list_all valid ys" and "length xs = length ys"
    and "concat (map enc xs) = concat (map enc ys)"
  shows "xs = ys"
  using decode_all_frames [OF assms(1), of "[]"] decode_all_frames [OF assms(2), of "[]"] assms(3,4)
  by (metis option.inject prod.inject)

end

text \<open>
  A fixed-width codec: every value takes \<open>width\<close> bytes, and the decoder reads a block of
  that width. It is a frame codec whose decoder splits off the block.
\<close>

definition take_block :: "nat \<Rightarrow> ('b list \<Rightarrow> 'a) \<Rightarrow> 'b list \<Rightarrow> ('a \<times> 'b list) option" where
  "take_block width get bs =
     (if length bs < width then None else Some (get (take width bs), drop width bs))"

locale fixed_codec =
  fixes width :: nat
    and put :: "'a \<Rightarrow> 'b list"
    and get :: "'b list \<Rightarrow> 'a"
  assumes length_put: "length (put x) = width"
    and get_put: "get (put x) = x"
begin

lemma take_block_put: "take_block width get (put x @ rest) = Some (x, rest)"
  by (simp add: take_block_def length_put get_put)

lemma length_concat_put: "length (concat (map put xs)) = width * length xs"
  by (induction xs) (auto simp: length_put)

end

sublocale fixed_codec \<subseteq> frame: frame_codec "\<lambda>_. True" put "take_block width get"
  by unfold_locales (rule take_block_put)

end
