(* ===== verification/Wire.thy ===== *)
theory Wire
  imports Contracts
begin

section \<open>Memory images of integers\<close>

text \<open>
  The code copies structs to sockets and files byte by byte (\<open>memcpy\<close>, \<open>write\<close>), so the
  image of an integer is its little-endian byte sequence on the code's platform (x86-64).
\<close>

fun le_bytes :: "nat \<Rightarrow> nat \<Rightarrow> byte list" where
  "le_bytes 0 v = []"
| "le_bytes (Suc k) v = of_nat v # le_bytes k (v div 256)"

fun le_val :: "byte list \<Rightarrow> nat" where
  "le_val [] = 0"
| "le_val (b # bs) = unat b + 256 * le_val bs"

named_theorems wire_simps \<open>lengths and round trips of memory images\<close>

lemma length_le_bytes [simp, wire_simps]: "length (le_bytes k v) = k"
  by (induction k arbitrary: v) auto

lemma le_val_le_bytes: "le_val (le_bytes k v) = v mod 256 ^ k"
proof (induction k arbitrary: v)
  case 0
  then show ?case by simp
next
  case (Suc k)
  have "le_val (le_bytes (Suc k) v) = v mod 256 + 256 * (v div 256 mod 256 ^ k)"
    using Suc by (simp add: unat_of_nat)
  then show ?case by (simp add: mod_mult2_eq)
qed

lemma le_bytes_le_val: "length bs = k \<Longrightarrow> le_bytes k (le_val bs) = bs"
proof (induction bs arbitrary: k)
  case Nil
  then show ?case by simp
next
  case (Cons b bs)
  have "unat b < 256" using unsigned_less [of b] by simp
  then have "(unat b + 256 * le_val bs) div 256 = le_val bs" by simp
  moreover have "(of_nat (256 * le_val bs) :: byte) = 0"
    by (subst word_of_nat_eq_0_iff) simp
  then have "(of_nat (unat b + 256 * le_val bs) :: byte) = b"
    by (simp only: of_nat_add of_nat_unat add_0_right ucast_id)
  ultimately show ?case using Cons by auto
qed

definition put_u16 :: "u16 \<Rightarrow> byte list" where "put_u16 w = le_bytes 2 (unat w)"
definition put_u32 :: "u32 \<Rightarrow> byte list" where "put_u32 w = le_bytes 4 (unat w)"
definition put_u64 :: "u64 \<Rightarrow> byte list" where "put_u64 w = le_bytes 8 (unat w)"

definition get_u16 :: "byte list \<Rightarrow> u16" where "get_u16 bs = of_nat (le_val (take 2 bs))"
definition get_u32 :: "byte list \<Rightarrow> u32" where "get_u32 bs = of_nat (le_val (take 4 bs))"
definition get_u64 :: "byte list \<Rightarrow> u64" where "get_u64 bs = of_nat (le_val (take 8 bs))"

lemma unat_mod_16: "unat (w :: u16) mod 65536 = unat w"
  by (rule mod_less) (use unsigned_less [of w, where ?'a = nat] in simp)

lemma unat_mod_32: "unat (w :: u32) mod 4294967296 = unat w"
  by (rule mod_less) (use unsigned_less [of w, where ?'a = nat] in simp)

lemma unat_mod_64: "unat (w :: u64) mod 18446744073709551616 = unat w"
  by (rule mod_less) (use unsigned_less [of w, where ?'a = nat] in simp)

lemma length_put [simp, wire_simps]:
  "length (put_u16 a) = 2" "length (put_u32 b) = 4" "length (put_u64 c) = 8"
  by (simp_all add: put_u16_def put_u32_def put_u64_def)

lemma get_put_u16 [simp, wire_simps]: "get_u16 (put_u16 w @ r) = w"
  by (simp add: get_u16_def put_u16_def le_val_le_bytes unat_mod_16)

lemma get_put_u32 [simp, wire_simps]: "get_u32 (put_u32 w @ r) = w"
  by (simp add: get_u32_def put_u32_def le_val_le_bytes unat_mod_32)

lemma get_put_u64 [simp, wire_simps]: "get_u64 (put_u64 w @ r) = w"
  by (simp add: get_u64_def put_u64_def le_val_le_bytes unat_mod_64)

lemma get_put_exact [simp, wire_simps]:
  "get_u16 (put_u16 a) = a" "get_u32 (put_u32 b) = b" "get_u64 (put_u64 c) = c"
  using get_put_u16 [of a "[]"] get_put_u32 [of b "[]"] get_put_u64 [of c "[]"] by simp_all

text \<open>Skipping over an image at the front of a block.\<close>

lemma drop_image [wire_simps]: "length xs = k \<Longrightarrow> n \<ge> k \<Longrightarrow> drop n (xs @ ys) = drop (n - k) ys"
  by simp

text \<open>
  A \<open>std::string_view\<close> is a pointer and a length, in libstdc++ with the length first.
\<close>

record string_view =
  sv_data :: ptr
  sv_size :: u64

definition put_string_view :: "string_view \<Rightarrow> byte list" where
  "put_string_view sv = put_u64 (sv_size sv) @ put_u64 (sv_data sv)"

definition get_string_view :: "byte list \<Rightarrow> string_view" where
  "get_string_view bs = \<lparr>sv_data = get_u64 (drop 8 bs), sv_size = get_u64 bs\<rparr>"

lemma get_put_string_view [simp, wire_simps]: "get_string_view (put_string_view sv @ r) = sv"
  by (simp add: get_string_view_def put_string_view_def)

lemma get_put_string_view_exact [simp, wire_simps]: "get_string_view (put_string_view sv) = sv"
  using get_put_string_view [of sv "[]"] by simp

lemma length_put_string_view [simp, wire_simps]: "length (put_string_view sv) = 16"
  by (simp add: put_string_view_def)

end
