(* ===== verification/Request.thy ===== *)
theory Request
  imports Wire
begin

section \<open>Constants, assertions and requests (\<open>src/common\<close>)\<close>

text \<open>
  \<open>constants.h\<close>: the partition id that stands for "none". \<open>kassert.h\<close>: the assertion
  macros, which abort the process. \<open>request.h\<close>: a request is a view of a memory block
  that holds three 16-bit fields, the topic name and the message.
\<close>

definition INVALID_TOPIC_ID :: u16 where
  "INVALID_TOPIC_ID = 65535"

text \<open>A failed assertion aborts: no later statement runs.\<close>

definition kassert :: "bool \<Rightarrow> fault + unit" where
  "kassert e = require e Kassert_failed"

definition kassert_cmp :: "('a \<Rightarrow> 'a \<Rightarrow> bool) \<Rightarrow> 'a \<Rightarrow> 'a \<Rightarrow> fault + unit" where
  "kassert_cmp cmp left right = require (cmp left right) Kassert_failed"

definition kassert_eq :: "'a \<Rightarrow> 'a \<Rightarrow> fault + unit" where
  "kassert_eq = kassert_cmp (=)"

definition kassert_ge :: "nat \<Rightarrow> nat \<Rightarrow> fault + unit" where
  "kassert_ge = kassert_cmp (\<ge>)"

definition kassert_gt :: "nat \<Rightarrow> nat \<Rightarrow> fault + unit" where
  "kassert_gt = kassert_cmp (>)"

definition kassert_le :: "nat \<Rightarrow> nat \<Rightarrow> fault + unit" where
  "kassert_le = kassert_cmp (\<le>)"

definition kassert_ne :: "'a \<Rightarrow> 'a \<Rightarrow> fault + unit" where
  "kassert_ne = kassert_cmp (\<noteq>)"

definition kassert_lt :: "nat \<Rightarrow> nat \<Rightarrow> fault + unit" where
  "kassert_lt = kassert_cmp (<)"

lemmas kassert_defs = kassert_def kassert_cmp_def kassert_eq_def kassert_ge_def kassert_gt_def
  kassert_le_def kassert_ne_def kassert_lt_def

subsection \<open>Requests\<close>

text \<open>
  The block's address and bytes. The flexible array \<open>data_\<close> starts at offset 6 (three
  fields of two bytes under \<open>pack(4)\<close>).
\<close>

record request_t =
  rq_base :: ptr
  rq_bytes :: "byte list"

definition topic_name_len :: "request_t \<Rightarrow> u16" where
  "topic_name_len r = get_u16 (rq_bytes r)"

definition partition_id :: "request_t \<Rightarrow> u16" where
  "partition_id r = get_u16 (drop 2 (rq_bytes r))"

definition message_len :: "request_t \<Rightarrow> u16" where
  "message_len r = get_u16 (drop 4 (rq_bytes r))"

definition topic_name :: "request_t \<Rightarrow> string_view" where
  "topic_name r = \<lparr>sv_data = rq_base r + 6, sv_size = ucast (topic_name_len r)\<rparr>"

definition message_view :: "request_t \<Rightarrow> string_view" where
  "message_view r = \<lparr>sv_data = rq_base r + 6 + ucast (topic_name_len r), sv_size = ucast (message_len r)\<rparr>"

text \<open>Reading the characters of a view: they must lie inside the block.\<close>

definition view_read :: "request_t \<Rightarrow> string_view \<Rightarrow> fault + byte list" where
  "view_read r sv =
     (let off = unat (sv_data sv - rq_base r); n = unat (sv_size sv)
      in if off + n \<le> length (rq_bytes r) then Inr (take n (drop off (rq_bytes r)))
         else Inl Out_of_bounds)"

subsection \<open>Reading requests\<close>

lemma unat_ucast_u16 [simp]: "unat (ucast (w :: u16) :: u64) = unat w"
  by (simp add: unsigned_ucast_eq take_bit_nat_eq_self unsigned_less order.strict_trans2 [OF unsigned_less])

lemma topic_view_offset: "unat (sv_data (topic_name r) - rq_base r) = 6"
  by (simp add: topic_name_def)

lemma message_view_offset:
  "unat (sv_data (message_view r) - rq_base r) = 6 + unat (topic_name_len r)"
proof -
  have "unat (topic_name_len r) < 65536" using unsigned_less [of "topic_name_len r", where ?'a = nat] by simp
  then have "unat (6 + ucast (topic_name_len r) :: u64) = 6 + unat (topic_name_len r)"
    by (subst unat_add_lem [THEN iffD1]) auto
  then show ?thesis by (simp add: message_view_def add.assoc)
qed

lemma view_sizes [simp]:
  "sv_size (topic_name r) = ucast (topic_name_len r)"
  "sv_size (message_view r) = ucast (message_len r)"
  by (simp_all add: topic_name_def message_view_def)

lemma view_read_topic:
  "view_read r (topic_name r) =
     (if 6 + unat (topic_name_len r) \<le> length (rq_bytes r)
      then Inr (take (unat (topic_name_len r)) (drop 6 (rq_bytes r))) else Inl Out_of_bounds)"
  by (simp only: view_read_def topic_view_offset Let_def view_sizes unat_ucast_u16)

lemma view_read_message:
  "view_read r (message_view r) =
     (if 6 + unat (topic_name_len r) + unat (message_len r) \<le> length (rq_bytes r)
      then Inr (take (unat (message_len r)) (drop (6 + unat (topic_name_len r)) (rq_bytes r)))
      else Inl Out_of_bounds)"
  by (simp only: view_read_def message_view_offset Let_def view_sizes unat_ucast_u16)

text \<open>The block a request is made of: three length fields, the name, the message.\<close>

definition request_image :: "byte list \<Rightarrow> u16 \<Rightarrow> byte list \<Rightarrow> byte list" where
  "request_image topic pid msg =
     put_u16 (of_nat (length topic)) @ put_u16 pid @ put_u16 (of_nat (length msg)) @ topic @ msg"

lemma request_image_fields:
  assumes "rq_bytes r = request_image topic pid msg @ rest"
  shows "partition_id r = pid" and "topic_name_len r = of_nat (length topic)"
    and "message_len r = of_nat (length msg)"
  using assms by (simp_all add: request_image_def partition_id_def topic_name_len_def message_len_def)

lemma request_image_views:
  assumes "rq_bytes r = request_image topic pid msg @ rest"
    and "length topic < 65536" and "length msg < 65536"
  shows "view_read r (topic_name r) = Inr topic" and "view_read r (message_view r) = Inr msg"
  using assms(2,3)
  by (simp_all add: view_read_topic view_read_message request_image_fields [OF assms(1)] unat_of_nat
      assms(1) request_image_def)

end
