(* ===== verification/LockGuard.thy ===== *)
theory LockGuard
  imports Contracts
begin

section \<open>Lock guards (the guard classes of \<open>unique-mutex.h\<close> and \<open>shared-mutex.h\<close>)\<close>

text \<open>
  \<open>lock_guard_t\<close>, \<open>write_lock_guard_t\<close> and \<open>read_lock_guard_t\<close> have the same member
  functions: a guard holds a pointer to its mutex or \<open>nullptr\<close>, moving takes the pointer
  over, and \<open>unlock\<close> (also run by the destructor and the move assignment) releases the
  mutex if the pointer is set. The state is the list of guard objects, \<open>True\<close> where
  \<open>mutex_\<close> is set, and the number of calls of the mutex's release so far.
\<close>

record guard_state =
  guards :: "bool list"
  releases :: nat

definition guard_unlock :: "nat \<Rightarrow> guard_state \<Rightarrow> guard_state" where
  "guard_unlock i s =
     (if guards s ! i then s\<lparr>guards := (guards s)[i := False], releases := releases s + 1\<rparr> else s)"

definition guard_move_ctor :: "nat \<Rightarrow> guard_state \<Rightarrow> guard_state" where
  "guard_move_ctor i s = s\<lparr>guards := (guards s)[i := False] @ [guards s ! i]\<rparr>"

definition guard_move_assign :: "nat \<Rightarrow> nat \<Rightarrow> guard_state \<Rightarrow> guard_state" where
  "guard_move_assign i j s =
     (if i \<noteq> j then
        let s1 = guard_unlock i s
        in s1\<lparr>guards := (guards s1)[i := guards s1 ! j, j := False]\<rparr>
      else s)"

definition guard_dtor :: "nat \<Rightarrow> guard_state \<Rightarrow> guard_state" where
  "guard_dtor i s = guard_unlock i s"

datatype guard_op = Move_ctor nat | Move_assign nat nat | Unlock nat | Dtor nat

fun guard_exec :: "guard_op \<Rightarrow> guard_state \<Rightarrow> guard_state" where
  "guard_exec (Move_ctor i) s = guard_move_ctor i s"
| "guard_exec (Move_assign i j) s = guard_move_assign i j s"
| "guard_exec (Unlock i) s = guard_unlock i s"
| "guard_exec (Dtor i) s = guard_dtor i s"

text \<open>The objects an operation names exist.\<close>

fun guard_op_ok :: "nat \<Rightarrow> guard_op \<Rightarrow> bool" where
  "guard_op_ok n (Move_ctor i) = (i < n)"
| "guard_op_ok n (Move_assign i j) = (i < n \<and> j < n)"
| "guard_op_ok n (Unlock i) = (i < n)"
| "guard_op_ok n (Dtor i) = (i < n)"

fun guard_run :: "guard_op list \<Rightarrow> guard_state \<Rightarrow> guard_state option" where
  "guard_run [] s = Some s"
| "guard_run (x # xs) s =
     (if guard_op_ok (length (guards s)) x then guard_run xs (guard_exec x s) else None)"

text \<open>Leaving the scope destroys every guard object.\<close>

definition guard_scope_exit :: "guard_state \<Rightarrow> guard_state" where
  "guard_scope_exit s = fold guard_dtor [0..<length (guards s)] s"

subsection \<open>Every acquired lock is released exactly once\<close>

text \<open>Owning guards plus releases is constant: an acquired lock is never lost nor released twice.\<close>

definition guard_total :: "guard_state \<Rightarrow> nat" where
  "guard_total s = count_list (guards s) True + releases s"

lemma count_list_update:
  "i < length xs \<Longrightarrow> count_list (xs[i := y]) z + (if xs ! i = z then 1 else 0)
     = count_list xs z + (if y = z then 1 else 0)"
proof (induction xs arbitrary: i)
  case Nil
  then show ?case by simp
next
  case (Cons x xs)
  show ?case
  proof (cases i)
    case 0
    then show ?thesis by simp
  next
    case (Suc j)
    with Cons.IH [of j] Cons.prems show ?thesis by (auto split: if_splits)
  qed
qed

lemma length_guard_unlock [simp]: "length (guards (guard_unlock i s)) = length (guards s)"
  by (simp add: guard_unlock_def)

lemma guard_unlock_total: "i < length (guards s) \<Longrightarrow> guard_total (guard_unlock i s) = guard_total s"
  using count_list_update [of i "guards s" False True]
  by (auto simp: guard_total_def guard_unlock_def)

lemma guard_unlock_clears: "i < length (guards s) \<Longrightarrow> \<not> guards (guard_unlock i s) ! i"
  by (simp add: guard_unlock_def)

lemma guard_move_ctor_total:
  "i < length (guards s) \<Longrightarrow> guard_total (guard_move_ctor i s) = guard_total s"
  using count_list_update [of i "guards s" False True]
  by (auto simp: guard_total_def guard_move_ctor_def)

lemma guard_move_assign_total:
  assumes "i < length (guards s)" and "j < length (guards s)"
  shows "guard_total (guard_move_assign i j s) = guard_total s"
proof (cases "i = j")
  case True
  then show ?thesis by (simp add: guard_move_assign_def)
next
  case False
  let ?s1 = "guard_unlock i s"
  have "\<not> guards ?s1 ! i" using assms by (simp add: guard_unlock_clears)
  with False assms count_list_update [of i "guards ?s1" "guards ?s1 ! j" True]
    count_list_update [of j "(guards ?s1)[i := guards ?s1 ! j]" False True]
  have "guard_total (guard_move_assign i j s) = guard_total ?s1"
    by (auto simp: guard_total_def guard_move_assign_def Let_def split: if_splits)
  with assms show ?thesis by (simp add: guard_unlock_total)
qed

lemma guard_exec_total: "guard_op_ok (length (guards s)) x \<Longrightarrow> guard_total (guard_exec x s) = guard_total s"
  by (cases x) (auto simp: guard_unlock_total guard_move_ctor_total guard_move_assign_total guard_dtor_def)

lemma guard_run_total: "guard_run ops s = Some t \<Longrightarrow> guard_total t = guard_total s"
  by (induction ops arbitrary: s) (auto simp: guard_exec_total split: if_splits)

lemma guard_dtor_eq: "guard_dtor = guard_unlock"
  by (simp add: fun_eq_iff guard_dtor_def)

lemma guard_scope_exit_step:
  "n \<le> length (guards s) \<Longrightarrow>
     guard_total (fold guard_dtor [0..<n] s) = guard_total s
   \<and> length (guards (fold guard_dtor [0..<n] s)) = length (guards s)
   \<and> (\<forall>i<n. \<not> guards (fold guard_dtor [0..<n] s) ! i)"
  unfolding guard_dtor_eq
proof (induction n)
  case 0
  then show ?case by simp
next
  case (Suc n)
  let ?t = "fold guard_unlock [0..<n] s"
  from Suc have t: "guard_total ?t = guard_total s" "length (guards ?t) = length (guards s)"
    "\<forall>i<n. \<not> guards ?t ! i" by auto
  have "\<not> guards (guard_unlock n ?t) ! i" if "i < Suc n" for i
    using that t Suc.prems by (auto simp: guard_unlock_def less_Suc_eq)
  with t Suc.prems show ?case by (simp add: guard_unlock_total)
qed

lemma count_list_all_False: "\<forall>i<length xs. \<not> xs ! i \<Longrightarrow> count_list xs True = 0"
  by (metis count_list_0_iff in_set_conv_nth)

text \<open>
  Guards release exactly once. Starting from one guard that owns the lock, after any
  sequence of moves, assignments, explicit unlocks and destructions among existing guard
  objects, leaving the scope has called the mutex's release exactly once, and no guard
  owns the lock any more.
\<close>

lemma guard_releases_exactly_once:
  assumes "guard_run ops \<lparr>guards = [True], releases = 0\<rparr> = Some s"
  shows "releases (guard_scope_exit s) = 1 \<and> True \<notin> set (guards (guard_scope_exit s))"
proof -
  let ?t = "guard_scope_exit s"
  have 1: "guard_total s = 1" using guard_run_total [OF assms] by (simp add: guard_total_def)
  have 2: "guard_total ?t = guard_total s" "\<forall>i<length (guards ?t). \<not> guards ?t ! i"
    using guard_scope_exit_step [of "length (guards s)" s] by (auto simp: guard_scope_exit_def)
  then have "count_list (guards ?t) True = 0" by (intro count_list_all_False) auto
  with 1 2 show ?thesis by (simp add: guard_total_def count_list_0_iff)
qed

lemma guard_releases_exactly_once_witness:
  "releases (guard_scope_exit \<lparr>guards = [False, True], releases = 0\<rparr>) = 1"
proof -
  have "guard_run [Move_ctor 0] \<lparr>guards = [True], releases = 0\<rparr>
      = Some \<lparr>guards = [False, True], releases = 0\<rparr>"
    by (simp add: guard_move_ctor_def)
  from guard_releases_exactly_once [OF this] show ?thesis by simp
qed

end
