(* ===== verification/UniqueMutex.thy ===== *)
theory UniqueMutex
  imports LockGuard
begin

section \<open>The fiber mutex (\<open>src/common/fibers/sync-primitives/unique-mutex.h\<close>)\<close>

text \<open>
  A fiber that calls \<open>lock\<close> suspends; its handler is posted at once if the mutex is free
  and queued otherwise. \<open>unlock\<close> hands the mutex to the first waiter and frees it when
  there is none. The bodies under \<open>waiters_mutex_\<close> are atomic and are the steps of the
  model. A fiber is a number, and stands for the handler that resumes it.
\<close>

type_synonym fiber = nat

record unique_mutex_t =
  um_locked :: bool
  um_waiters :: "fiber list"

definition um_unlocked :: unique_mutex_t where
  "um_unlocked = \<lparr>um_locked = False, um_waiters = []\<rparr>"

subsection \<open>Operations\<close>

text \<open>The second component is the fiber whose handler receives a guard, if any.\<close>

definition um_async_lock :: "fiber \<Rightarrow> unique_mutex_t \<Rightarrow> unique_mutex_t \<times> fiber option" where
  "um_async_lock h m =
     (if \<not> um_locked m then (m\<lparr>um_locked := True\<rparr>, Some h)
      else (m\<lparr>um_waiters := um_waiters m @ [h]\<rparr>, None))"

definition um_unlock :: "unique_mutex_t \<Rightarrow> unique_mutex_t \<times> fiber option" where
  "um_unlock m =
     (case um_waiters m of
        [] \<Rightarrow> (m\<lparr>um_locked := False\<rparr>, None)
      | fn # rest \<Rightarrow> (m\<lparr>um_waiters := rest\<rparr>, Some fn))"

text \<open>The guard class of this mutex.\<close>

definition um_guard_exec :: "guard_op \<Rightarrow> guard_state \<Rightarrow> guard_state" where
  "um_guard_exec = guard_exec"

subsection \<open>Fibers around one mutex\<close>

text \<open>
  \<open>um_granted\<close>: fibers whose handler was given the mutex and has not run yet (posted to the
  executor, or the \<open>fn\<close> that \<open>unlock\<close> is about to call); \<open>um_owners\<close>: fibers that hold the
  owning guard. \<open>um_arrivals\<close> and \<open>um_served\<close> record the order of the calls of \<open>lock\<close> and
  of the hand-overs.
\<close>

record um_sys =
  um_mutex :: unique_mutex_t
  um_granted :: "fiber list"
  um_owners :: "fiber list"
  um_arrivals :: "fiber list"
  um_served :: "fiber list"

definition um_init :: "um_sys \<Rightarrow> bool" where
  "um_init s \<longleftrightarrow> s = \<lparr>um_mutex = um_unlocked, um_granted = [], um_owners = [],
      um_arrivals = [], um_served = []\<rparr>"

definition um_give :: "unique_mutex_t \<times> fiber option \<Rightarrow> um_sys \<Rightarrow> um_sys" where
  "um_give r s = s\<lparr>um_mutex := fst r,
      um_granted := um_granted s @ (case snd r of None \<Rightarrow> [] | Some h \<Rightarrow> [h]),
      um_served := um_served s @ (case snd r of None \<Rightarrow> [] | Some h \<Rightarrow> [h])\<rparr>"

inductive um_step :: "um_sys \<Rightarrow> um_sys \<Rightarrow> bool" where
  um_lock: "um_step s (um_give (um_async_lock h (um_mutex s)) (s\<lparr>um_arrivals := um_arrivals s @ [h]\<rparr>))"
| um_deliver: "h \<in> set (um_granted s) \<Longrightarrow>
     um_step s (s\<lparr>um_granted := remove1 h (um_granted s), um_owners := um_owners s @ [h]\<rparr>)"
| um_release: "h \<in> set (um_owners s) \<Longrightarrow>
     um_step s (um_give (um_unlock (um_mutex s)) (s\<lparr>um_owners := remove1 h (um_owners s)\<rparr>))"

inductive_cases um_stepE: "um_step s t"

definition um_inv :: "um_sys \<Rightarrow> bool" where
  "um_inv s \<longleftrightarrow>
     length (um_granted s) + length (um_owners s) = (if um_locked (um_mutex s) then 1 else 0)
   \<and> (\<not> um_locked (um_mutex s) \<longrightarrow> um_waiters (um_mutex s) = [])
   \<and> um_arrivals s = um_served s @ um_waiters (um_mutex s)"

definition um_compatible :: "um_sys \<Rightarrow> bool" where
  "um_compatible s \<longleftrightarrow> length (um_granted s @ um_owners s) \<le> 1"

definition um_waiting :: "um_sys \<Rightarrow> bool" where
  "um_waiting s \<longleftrightarrow> um_waiters (um_mutex s) \<noteq> []"

definition um_release_enabled :: "um_sys \<Rightarrow> bool" where
  "um_release_enabled s \<longleftrightarrow> (\<exists>h. um_granted s @ um_owners s = [h])"

lemma um_inv_step: "um_inv s \<Longrightarrow> um_step s t \<Longrightarrow> um_inv t"
proof (erule um_stepE, goal_cases)
  case (1 h)
  then show ?case by (auto simp: um_inv_def um_give_def um_async_lock_def)
next
  case (2 h)
  then have "um_locked (um_mutex s)" "length (um_granted s) = 1" "um_owners s = []"
    by (cases "um_granted s"; auto simp: um_inv_def split: if_splits)+
  with 2 show ?case by (auto simp: um_inv_def length_remove1)
next
  case (3 h)
  then have own: "um_locked (um_mutex s)" "um_granted s = []" "length (um_owners s) = 1"
    by (cases "um_owners s"; auto simp: um_inv_def split: if_splits)+
  with 3 show ?case
    by (auto simp: um_inv_def um_give_def um_unlock_def length_remove1 split: list.splits)
qed

interpretation um: lock_system um_init um_step um_inv um_compatible um_waiting um_release_enabled
proof
  fix s t
  show "um_init s \<Longrightarrow> um_inv s" by (simp add: um_init_def um_inv_def um_unlocked_def)
  show "um_inv s \<Longrightarrow> um_step s t \<Longrightarrow> um_inv t" by (rule um_inv_step)
  show "um_inv s \<Longrightarrow> um_compatible s" by (simp add: um_inv_def um_compatible_def)
  show "um_inv s \<Longrightarrow> um_waiting s \<Longrightarrow> um_release_enabled s"
    by (auto simp: um_inv_def um_waiting_def um_release_enabled_def length_Suc_conv
        split: if_splits simp flip: length_append)
qed

subsection \<open>Hand-over\<close>

fun um_unlocks :: "nat \<Rightarrow> unique_mutex_t \<Rightarrow> unique_mutex_t \<times> fiber option list" where
  "um_unlocks 0 m = (m, [])"
| "um_unlocks (Suc n) m =
     (let (m1, g) = um_unlock m; (m2, gs) = um_unlocks n m1 in (m2, g # gs))"

lemma um_unlocks_waiters:
  "n \<le> length (um_waiters m) \<Longrightarrow>
     um_unlocks n m = (m\<lparr>um_waiters := drop n (um_waiters m)\<rparr>, map Some (take n (um_waiters m)))"
proof (induction n arbitrary: m)
  case 0
  then show ?case by simp
next
  case (Suc n)
  then obtain w ws where "um_waiters m = w # ws" by (cases "um_waiters m") auto
  with Suc show ?case by (simp add: um_unlock_def)
qed

subsection \<open>Properties of the fiber mutex\<close>

text \<open>
  C20: mutual exclusion. In every reachable state, whatever the fibers and the interleaving,
  at most one fiber owns the mutex or has been handed it, and some fiber does exactly when
  the mutex is marked locked.
\<close>

theorem um_mutual_exclusion:
  assumes "reachable um_init um_step s"
  shows "length (um_granted s @ um_owners s) \<le> 1
     \<and> (um_locked (um_mutex s) \<longleftrightarrow> um_granted s @ um_owners s \<noteq> [])"
  using um.reachable_compatible [OF assms] um.reachable_inv [OF assms]
  by (auto simp: um_compatible_def um_inv_def split: if_splits)

definition um_two_fibers :: um_sys where
  "um_two_fibers = \<lparr>um_mutex = \<lparr>um_locked = True, um_waiters = [2]\<rparr>, um_granted = [1], um_owners = [],
      um_arrivals = [1, 2], um_served = [1]\<rparr>"

lemma um_two_fibers_reachable: "reachable um_init um_step um_two_fibers"
proof -
  let ?s0 = "\<lparr>um_mutex = um_unlocked, um_granted = [], um_owners = [],
      um_arrivals = [], um_served = []\<rparr>"
  let ?call = "\<lambda>h s. um_give (um_async_lock h (um_mutex s)) (s\<lparr>um_arrivals := um_arrivals s @ [h]\<rparr>)"
  have "reachable um_init um_step ?s0" by (rule reachable.start) (simp add: um_init_def)
  then have "reachable um_init um_step (?call 1 ?s0)" by (rule reachable.next_state) (rule um_lock)
  then have "reachable um_init um_step (?call 2 (?call 1 ?s0))"
    by (rule reachable.next_state) (rule um_lock)
  moreover have "?call 2 (?call 1 ?s0) = um_two_fibers"
    by (simp add: um_give_def um_async_lock_def um_unlocked_def um_two_fibers_def)
  ultimately show ?thesis by simp
qed

theorem um_mutual_exclusion_witness: "length (um_granted um_two_fibers @ um_owners um_two_fibers) \<le> 1"
  using um_mutual_exclusion [OF um_two_fibers_reachable] by simp

text \<open>
  No lost wake-up, and fairness. In every reachable state with a waiter there is exactly
  one fiber that owns or is about to own the mutex, so a release is still to come; and the
  \<open>i\<close>-th waiter is handed the mutex by the \<open>i+1\<close>-th release from then on.
\<close>

lemma um_waiters_served:
  assumes "reachable um_init um_step s" and "i < length (um_waiters (um_mutex s))"
  shows "(\<exists>h. um_granted s @ um_owners s = [h])
     \<and> last (snd (um_unlocks (Suc i) (um_mutex s))) = Some (um_waiters (um_mutex s) ! i)"
proof
  have "um_waiting s" using assms(2) by (auto simp: um_waiting_def)
  from um.reachable_progress [OF assms(1) this] show "\<exists>h. um_granted s @ um_owners s = [h]"
    by (simp add: um_release_enabled_def)
  show "last (snd (um_unlocks (Suc i) (um_mutex s))) = Some (um_waiters (um_mutex s) ! i)"
    using assms(2) um_unlocks_waiters [of "Suc i" "um_mutex s"]
    by (simp only: Suc_leI snd_conv take_Suc_conv_app_nth) simp
qed

lemma um_waiters_served_witness:
  "last (snd (um_unlocks (Suc 0) (um_mutex um_two_fibers))) = Some 2"
  using um_waiters_served [OF um_two_fibers_reachable, of 0] by (simp add: um_two_fibers_def)

text \<open>
  First come, first served. In every reachable state the order in which \<open>lock\<close> was
  called is the order in which the mutex was handed over, followed by the queue of waiters.
\<close>

lemma um_fifo_order:
  assumes "reachable um_init um_step s"
  shows "um_arrivals s = um_served s @ um_waiters (um_mutex s)"
  using um.reachable_inv [OF assms] by (simp add: um_inv_def)

lemma um_fifo_order_witness:
  "um_arrivals um_two_fibers = um_served um_two_fibers @ um_waiters (um_mutex um_two_fibers)"
  by (rule um_fifo_order [OF um_two_fibers_reachable])

end
