(* ===== verification/Wall.thy ===== *)
theory Wall
  imports Request UniqueMutex
begin

section \<open>The write-ahead log (\<open>src/wall\<close>)\<close>

text \<open>
  \<open>wall-header.h\<close>: the record types of the log. \<open>wall-writer.h\<close>: a stream on
  \<open>/tmp/<name>\<close>, truncated when the writer is constructed, to which memory images are
  written. The file system maps paths to contents; a writer has a path and a position.
\<close>

subsection \<open>Record types\<close>

definition WALL_HEADER_MAGIC :: u64 where "WALL_HEADER_MAGIC = 0x9A2D5895"
definition WALL_DATA_MAGIC :: u64 where "WALL_DATA_MAGIC = 0x4FE55045"
definition WALL_FOOTER_MAGIC :: u64 where "WALL_FOOTER_MAGIC = 0x23BAA1CD"

record wall_header_t =
  wh_magic :: u64
  wh_offset_id :: u64
  wh_topic_name :: string_view
  wh_data_count :: u64

record wall_data_t =
  wd_magic :: u64
  wd_identifier :: u16
  wd_is_push_operation :: bool
  wd_message :: string_view

record wall_footer_t =
  wf_magic :: u64
  wf_hash_sum :: u64

text \<open>
  The 32 bytes of a \<open>wall_data_t\<close>: the magic at 0, the identifier at 8, the flag at 10, five
  bytes of padding (of indeterminate value), and at 16 the \<open>string_view\<close>, that is, the
  length and the address of the message, not its characters.
\<close>

definition sizeof_wall_data :: nat where
  "sizeof_wall_data = 32"

definition wall_data_image :: "nat \<Rightarrow> wall_data_t \<Rightarrow> byte list" where
  "wall_data_image pad d = put_u64 (wd_magic d) @ put_u16 (wd_identifier d)
     @ [if wd_is_push_operation d then 1 else 0] @ le_bytes 5 pad @ put_string_view (wd_message d)"

definition wall_data_of :: "byte list \<Rightarrow> wall_data_t" where
  "wall_data_of bs = \<lparr>wd_magic = get_u64 bs, wd_identifier = get_u16 (drop 8 bs),
     wd_is_push_operation = (bs ! 10 \<noteq> 0), wd_message = get_string_view (drop 16 bs)\<rparr>"

lemma length_wall_data_image [simp]: "length (wall_data_image pad d) = 32"
  by (simp add: wall_data_image_def)

lemma wall_data_of_image: "wall_data_of (wall_data_image pad d) = d"
  by (cases d) (simp add: wall_data_of_def wall_data_image_def nth_append)

interpretation wall_rec: fixed_codec 32 "wall_data_image pad" wall_data_of for pad
  by unfold_locales (simp_all add: wall_data_of_image)

subsection \<open>The writer\<close>

type_synonym file_system = "byte list \<rightharpoonup> byte list"

record wall_writer_t =
  ww_path :: "byte list"
  ww_pos :: nat
  ww_mutex :: unique_mutex_t

text \<open>
  The constructor opens \<open>/tmp/<name>\<close> for writing, which truncates the file, and aborts when
  the file cannot be opened (\<open>can_open\<close> is the operating system's answer).
\<close>

definition wall_writer_ctor :: "(byte list \<Rightarrow> bool) \<Rightarrow> file_system \<Rightarrow> byte list
    \<Rightarrow> fault + file_system \<times> wall_writer_t" where
  "wall_writer_ctor can_open fs file_path =
     (let path = lit ''/tmp/'' @ file_path
      in rbind (kassert (can_open path)) (\<lambda>_.
           Inr (fs(path \<mapsto> []), \<lparr>ww_path = path, ww_pos = 0, ww_mutex = um_unlocked\<rparr>)))"

text \<open>A write puts the bytes at the stream's position; a gap before it reads as zeros.\<close>

definition write_at :: "nat \<Rightarrow> byte list \<Rightarrow> byte list \<Rightarrow> byte list" where
  "write_at pos data old =
     take pos (old @ replicate (pos - length old) 0) @ data @ drop (pos + length data) old"

definition file_of :: "file_system \<Rightarrow> byte list \<Rightarrow> byte list" where
  "file_of fs path = (case fs path of None \<Rightarrow> [] | Some c \<Rightarrow> c)"

definition store_span :: "wall_writer_t \<Rightarrow> byte list \<Rightarrow> file_system \<Rightarrow> file_system \<times> wall_writer_t" where
  "store_span w data fs =
     (fs(ww_path w \<mapsto> write_at (ww_pos w) data (file_of fs (ww_path w))),
      w\<lparr>ww_pos := ww_pos w + length data\<rparr>)"

definition store_raw :: "wall_writer_t \<Rightarrow> byte list \<Rightarrow> nat \<Rightarrow> file_system \<Rightarrow> file_system \<times> wall_writer_t" where
  "store_raw w raw_data data_size fs = store_span w (take data_size raw_data) fs"

definition at_end :: "file_system \<Rightarrow> wall_writer_t \<Rightarrow> bool" where
  "at_end fs w \<longleftrightarrow> fs (ww_path w) \<noteq> None \<and> ww_pos w = length (file_of fs (ww_path w))"

lemma store_appends:
  assumes "at_end fs w"
  shows "file_of (fst (store_span w data fs)) (ww_path w) = file_of fs (ww_path w) @ data"
    and "at_end (fst (store_span w data fs)) (snd (store_span w data fs))"
    and "ww_path (snd (store_span w data fs)) = ww_path w"
    and "path \<noteq> ww_path w \<Longrightarrow> fst (store_span w data fs) path = fs path"
  using assms by (simp_all add: store_span_def file_of_def at_end_def write_at_def)

lemma wall_writer_ctor_Inr:
  "wall_writer_ctor can_open fs name = Inr (fs', w) \<Longrightarrow>
     at_end fs' w \<and> file_of fs' (ww_path w) = [] \<and> ww_path w = lit ''/tmp/'' @ name
     \<and> fs' = fs(ww_path w \<mapsto> [])"
  by (auto simp: wall_writer_ctor_def Let_def kassert_def result_simps at_end_def file_of_def)

subsection \<open>Reading a log back\<close>

text \<open>The records of a log, as a recovery procedure would read them.\<close>

definition wall_records :: "byte list \<Rightarrow> wall_data_t list" where
  "wall_records bs =
     (case decode_all (take_block 32 wall_data_of) (length bs div 32) bs of
        None \<Rightarrow> [] | Some (ds, rest) \<Rightarrow> ds)"

definition wall_log :: "(nat \<times> wall_data_t) list \<Rightarrow> byte list" where
  "wall_log entries = concat (map (\<lambda>(pad, d). wall_data_image pad d) entries)"

lemma wall_log_snoc: "wall_log (es @ [(pad, d)]) = wall_log es @ wall_data_image pad d"
  by (simp add: wall_log_def)

lemma length_wall_log: "length (wall_log es) = 32 * length es"
  by (induction es) (auto simp: wall_log_def)

lemma decode_wall_log:
  "decode_all (take_block 32 wall_data_of) (length es) (wall_log es) = Some (map snd es, [])"
  by (induction es) (auto simp: wall_log_def wall_rec.take_block_put)

lemma wall_records_log: "wall_records (wall_log es) = map snd es"
  by (simp add: wall_records_def length_wall_log decode_wall_log)

text \<open>
  Replaying the records of one partition: how many messages are in it after the logged
  pushes and pops.
\<close>

fun replay_size :: "u16 \<Rightarrow> wall_data_t list \<Rightarrow> int" where
  "replay_size i [] = 0"
| "replay_size i (d # ds) =
     (if wd_identifier d = i then (if wd_is_push_operation d then 1 else -1) else 0) + replay_size i ds"

lemma replay_size_append: "replay_size i (ds @ es) = replay_size i ds + replay_size i es"
  by (induction ds) auto

end
