(* ===== verification/Message.thy ===== *)
theory Message
  imports Prelude
begin

section \<open>Messages on the heap (\<open>src/messages/message.h\<close>)\<close>

text \<open>
  \<open>message_t\<close> is one allocation: a 47-bit successor pointer, a 16-bit length and the bytes
  in a flexible array. The heap of the model holds exactly the live messages; \<open>malloc\<close> is
  the C library's and so an argument, with \<open>malloc_sound\<close> its documented promise.
\<close>

record message_t =
  msg_next :: ptr
  msg_data_len :: u16
  msg_data :: "byte list"

type_synonym heap = "ptr \<rightharpoonup> message_t"
type_synonym allocator = "heap \<Rightarrow> nat \<Rightarrow> ptr"

text \<open>
  A non-null result of \<open>malloc\<close> is fresh storage at a user-space address, which on the
  code's 64-bit platform has 47 bits.
\<close>

definition malloc_sound :: "allocator \<Rightarrow> bool" where
  "malloc_sound malloc \<longleftrightarrow>
     (\<forall>h n. malloc h n \<noteq> 0 \<longrightarrow> h (malloc h n) = None \<and> unat (malloc h n) < 2 ^ 47)"

subsection \<open>Operations\<close>

text \<open>The constructor copies all bytes; the length goes into a 16-bit field.\<close>

definition message_ctor :: "byte list \<Rightarrow> message_t" where
  "message_ctor msg = \<lparr>msg_next = 0, msg_data_len = of_nat (length msg), msg_data = msg\<rparr>"

definition get_data :: "message_t \<Rightarrow> byte list" where
  "get_data m = take (unat (msg_data_len m)) (msg_data m)"

definition message_size :: "message_t \<Rightarrow> nat" where
  "message_size m = unat (msg_data_len m)"

definition get_next :: "message_t \<Rightarrow> ptr" where
  "get_next m = msg_next m"

definition get_next_const :: "message_t \<Rightarrow> ptr" where
  "get_next_const m = msg_next m"

text \<open>\<open>msg_next\<close> is a bit field of 47 bits: storing keeps the low 47 bits of the pointer.\<close>

definition set_next :: "ptr \<Rightarrow> message_t \<Rightarrow> message_t" where
  "set_next p m = m\<lparr>msg_next := take_bit 47 p\<rparr>"

text \<open>Following a pointer: \<open>nullptr\<close> and freed cells are faults.\<close>

definition load :: "heap \<Rightarrow> ptr \<Rightarrow> fault + message_t" where
  "load h p = (if p = 0 then Inl Null_dereference
     else case h p of None \<Rightarrow> Inl Dangling_pointer | Some m \<Rightarrow> Inr m)"

definition sizeof_message :: nat where
  "sizeof_message = 8"

text \<open>The result of \<open>malloc\<close> is not checked: constructing at \<open>nullptr\<close> is a fault.\<close>

definition create_message :: "allocator \<Rightarrow> heap \<Rightarrow> byte list \<Rightarrow> fault + heap \<times> ptr" where
  "create_message malloc h msg =
     (let p = malloc h (sizeof_message + length msg)
      in if p = 0 then Inl Null_dereference else Inr (h(p \<mapsto> message_ctor msg), p))"

definition destroy_message :: "heap \<Rightarrow> ptr \<Rightarrow> fault + heap" where
  "destroy_message h p =
     (if p = 0 then Inr h
      else case h p of None \<Rightarrow> Inl Dangling_pointer | Some m \<Rightarrow> Inr (h(p := None)))"

text \<open>The deleter, for smart pointers, does what \<open>destroy_message\<close> does but does not test for \<open>nullptr\<close>.\<close>

definition deleter :: "heap \<Rightarrow> ptr \<Rightarrow> fault + heap" where
  "deleter h p = rbind (load h p) (\<lambda>m. Inr (h(p := None)))"

subsection \<open>Properties\<close>

lemma deleter_destroys: "p \<noteq> 0 \<Longrightarrow> deleter h p = destroy_message h p"
  by (simp add: deleter_def destroy_message_def load_def split: option.split)

lemma set_next_fields [simp]:
  "msg_data_len (set_next p m) = msg_data_len m" "msg_data (set_next p m) = msg_data m"
  "msg_next (set_next p m) = take_bit 47 p"
  by (simp_all add: set_next_def)

lemma get_data_set_next [simp]: "get_data (set_next p m) = get_data m"
  by (simp add: get_data_def)

lemma get_data_ctor_mod: "get_data (message_ctor msg) = take (length msg mod 2 ^ 16) msg"
  by (simp add: get_data_def message_ctor_def unat_of_nat)

lemma get_data_ctor [simp]: "length msg < 2 ^ 16 \<Longrightarrow> get_data (message_ctor msg) = msg"
  by (simp add: get_data_ctor_mod)

lemma next_ctor [simp]: "msg_next (message_ctor msg) = 0"
  by (simp add: message_ctor_def)

lemma take_bit_ptr: "unat p < 2 ^ 47 \<Longrightarrow> take_bit 47 (p :: ptr) = p"
proof -
  assume "unat p < 2 ^ 47"
  then have "unat (take_bit 47 p) = unat p"
    by (simp add: unsigned_take_bit_eq take_bit_nat_eq_self)
  then show ?thesis by (rule unsigned_word_eqI)
qed

lemma get_next_set_next: "unat p < 2 ^ 47 \<Longrightarrow> get_next (set_next p m) = p"
  by (simp add: get_next_def take_bit_ptr)

lemma load_eq_Inr [result_simps]: "load h p = Inr m \<longleftrightarrow> p \<noteq> 0 \<and> h p = Some m"
  by (auto simp: load_def split: option.splits)

lemma create_message_eq_Inr [result_simps]:
  "create_message malloc h msg = Inr (h', p) \<longleftrightarrow>
     p = malloc h (8 + length msg) \<and> p \<noteq> 0 \<and> h' = h(p \<mapsto> message_ctor msg)"
  by (auto simp: create_message_def Let_def sizeof_message_def)

lemma destroy_message_eq_Inr [result_simps]:
  "destroy_message h p = Inr h' \<longleftrightarrow>
     (p = 0 \<and> h' = h) \<or> (p \<noteq> 0 \<and> h p \<noteq> None \<and> h' = h(p := None))"
  by (auto simp: destroy_message_def split: option.splits)

lemma malloc_soundD:
  assumes "malloc_sound malloc" and "malloc h n \<noteq> 0"
  shows "h (malloc h n) = None" and "unat (malloc h n) < 2 ^ 47"
  using assms by (auto simp: malloc_sound_def)

text \<open>A small allocator with four cells, at which hypotheses on \<open>malloc\<close> are instantiated.\<close>

definition small_malloc :: allocator where
  "small_malloc h n =
     (if h 8 = None then 8 else if h 16 = None then 16
      else if h 24 = None then 24 else if h 32 = None then 32 else 0)"

lemma small_malloc_sound: "malloc_sound small_malloc"
  by (auto simp: malloc_sound_def small_malloc_def)

end
