(* ===== verification/MessageQueue.thy ===== *)
theory MessageQueue
  imports Message Contracts
begin

section \<open>The message queue (\<open>src/messages/message-queue.h\<close>)\<close>

text \<open>
  An intrusive singly linked list with a head, a tail and a size. The operations work on
  the heap and the three fields; \<open>mq_addrs\<close> walks the list, \<open>mq_wf\<close> is the representation
  invariant and \<open>mq_abs\<close> the list of messages the queue stands for.
\<close>

record message_queue_t =
  mq_size :: nat
  mq_head :: ptr
  mq_tail :: ptr

definition mq_empty_queue :: message_queue_t where
  "mq_empty_queue = \<lparr>mq_size = 0, mq_head = 0, mq_tail = 0\<rparr>"

subsection \<open>Operations\<close>

definition mq_push :: "allocator \<Rightarrow> heap \<Rightarrow> message_queue_t \<Rightarrow> byte list
    \<Rightarrow> fault + heap \<times> message_queue_t \<times> ptr" where
  "mq_push malloc h q msg =
     (if mq_tail q = 0 then
        rbind (create_message malloc h msg) (\<lambda>(h1, p).
          let q1 = q\<lparr>mq_tail := p, mq_head := p\<rparr>
          in Inr (h1, q1\<lparr>mq_size := mq_size q1 + 1\<rparr>, mq_head q1))
      else
        rbind (create_message malloc h msg) (\<lambda>(h1, new_tail).
        rbind (load h1 (mq_tail q)) (\<lambda>t.
          let h2 = h1(mq_tail q \<mapsto> set_next new_tail t); q1 = q\<lparr>mq_tail := new_tail\<rparr>
          in Inr (h2, q1\<lparr>mq_size := mq_size q1 + 1\<rparr>, mq_head q1))))"

definition mq_pop :: "heap \<Rightarrow> message_queue_t \<Rightarrow> fault + heap \<times> message_queue_t" where
  "mq_pop h q =
     (if mq_head q = 0 then Inr (h, q)
      else
        rbind (load h (mq_head q)) (\<lambda>m.
          let old_head = mq_head q;
              q1 = q\<lparr>mq_head := get_next m\<rparr>;
              q2 = (if mq_head q1 = 0 then q1\<lparr>mq_tail := 0\<rparr> else q1);
              q3 = q2\<lparr>mq_size := mq_size q2 - 1\<rparr>
          in rbind (destroy_message h old_head) (\<lambda>h1. Inr (h1, q3))))"

definition mq_empty :: "message_queue_t \<Rightarrow> bool" where
  "mq_empty q \<longleftrightarrow> mq_size q = 0"

text \<open>The move constructor leaves the source empty; the move assignment swaps.\<close>

definition mq_move_ctor :: "message_queue_t \<Rightarrow> message_queue_t \<times> message_queue_t" where
  "mq_move_ctor other =
     (\<lparr>mq_size = mq_size other, mq_head = mq_head other, mq_tail = mq_tail other\<rparr>,
      other\<lparr>mq_size := 0, mq_head := 0, mq_tail := 0\<rparr>)"

definition mq_move_assign :: "message_queue_t \<Rightarrow> message_queue_t \<Rightarrow> message_queue_t \<times> message_queue_t" where
  "mq_move_assign self other =
     (self\<lparr>mq_size := mq_size other, mq_head := mq_head other, mq_tail := mq_tail other\<rparr>,
      other\<lparr>mq_size := mq_size self, mq_head := mq_head self, mq_tail := mq_tail self\<rparr>)"

text \<open>
  The loop of the destructor. It stops on every heap: each round frees a live cell.
\<close>

function destroy_loop :: "heap \<Rightarrow> ptr \<Rightarrow> fault + heap" where
  "destroy_loop h current =
     (if current = 0 then Inr h
      else case h current of
        None \<Rightarrow> Inl Dangling_pointer
      | Some m \<Rightarrow> destroy_loop (h(current := None)) (get_next m))"
  by pat_completeness auto
termination
proof (relation "measure (\<lambda>(h, p). card (dom h))", goal_cases)
  case 1
  show ?case by simp
next
  case (2 h p m)
  then have "p \<in> dom h" by auto
  then have "card (dom h - {p}) < card (dom h)" by (intro card_Diff1_less) auto
  then show ?case by simp
qed

declare destroy_loop.simps [simp del]

definition mq_destroy :: "heap \<Rightarrow> message_queue_t \<Rightarrow> fault + heap" where
  "mq_destroy h q = destroy_loop h (mq_head q)"

subsection \<open>Iterators\<close>

text \<open>An iterator is a pointer to a message; the end iterator holds \<open>nullptr\<close>.\<close>

definition mq_begin :: "message_queue_t \<Rightarrow> ptr" where
  "mq_begin q = mq_head q"

definition mq_end :: "message_queue_t \<Rightarrow> ptr" where
  "mq_end q = 0"

definition mq_front :: "message_queue_t \<Rightarrow> ptr" where
  "mq_front q = mq_head q"

definition mq_back :: "message_queue_t \<Rightarrow> ptr" where
  "mq_back q = mq_head q"

definition iter_deref :: "heap \<Rightarrow> ptr \<Rightarrow> fault + byte list" where
  "iter_deref h it = rbind (load h it) (\<lambda>m. Inr (get_data m))"

definition iter_next :: "heap \<Rightarrow> ptr \<Rightarrow> fault + ptr" where
  "iter_next h it = rbind (load h it) (\<lambda>m. Inr (get_next m))"

text \<open>The postfix increment returns the old iterator beside the new one.\<close>

definition iter_post_next :: "heap \<Rightarrow> ptr \<Rightarrow> fault + ptr \<times> ptr" where
  "iter_post_next h it = rbind (iter_next h it) (\<lambda>it'. Inr (it, it'))"

definition iter_eq :: "ptr \<Rightarrow> ptr \<Rightarrow> bool" where
  "iter_eq a b \<longleftrightarrow> a = b"

definition iter_ne :: "ptr \<Rightarrow> ptr \<Rightarrow> bool" where
  "iter_ne a b \<longleftrightarrow> a \<noteq> b"

text \<open>\<open>n\<close> increments of an iterator.\<close>

fun iter_advance :: "heap \<Rightarrow> nat \<Rightarrow> ptr \<Rightarrow> fault + ptr" where
  "iter_advance h 0 it = Inr it"
| "iter_advance h (Suc n) it = rbind (iter_next h it) (iter_advance h n)"

subsection \<open>Representation\<close>

fun chain :: "heap \<Rightarrow> ptr \<Rightarrow> ptr list \<Rightarrow> bool" where
  "chain h p [] = (p = 0)"
| "chain h p (a # as) =
     (p = a \<and> a \<noteq> 0 \<and> (case h a of None \<Rightarrow> False | Some m \<Rightarrow> chain h (msg_next m) as))"

fun walk :: "heap \<Rightarrow> ptr \<Rightarrow> nat \<Rightarrow> ptr list" where
  "walk h p 0 = []"
| "walk h p (Suc n) = p # (case h p of None \<Rightarrow> [] | Some m \<Rightarrow> walk h (msg_next m) n)"

definition mq_rel :: "heap \<Rightarrow> message_queue_t \<Rightarrow> ptr list \<Rightarrow> bool" where
  "mq_rel h q as \<longleftrightarrow> chain h (mq_head q) as \<and> mq_size q = length as
     \<and> mq_tail q = (if as = [] then 0 else last as)"

definition mq_addrs :: "heap \<Rightarrow> message_queue_t \<Rightarrow> ptr list" where
  "mq_addrs h q = walk h (mq_head q) (mq_size q)"

definition mq_wf :: "heap \<Rightarrow> message_queue_t \<Rightarrow> bool" where
  "mq_wf h q \<longleftrightarrow> mq_rel h q (mq_addrs h q)"

definition cell_data :: "heap \<Rightarrow> ptr \<Rightarrow> byte list" where
  "cell_data h a = (case h a of None \<Rightarrow> [] | Some m \<Rightarrow> get_data m)"

definition mq_abs :: "heap \<Rightarrow> message_queue_t \<Rightarrow> byte list list" where
  "mq_abs h q = map (cell_data h) (mq_addrs h q)"

subsection \<open>Facts about chains\<close>

lemma chain_Cons:
  "chain h p (a # as) \<longleftrightarrow> p = a \<and> a \<noteq> 0 \<and> (\<exists>m. h a = Some m \<and> chain h (msg_next m) as)"
  by (auto split: option.splits)

declare chain.simps(2) [simp del]

lemma chain_walk: "chain h p as \<Longrightarrow> walk h p (length as) = as"
  by (induction as arbitrary: p) (auto simp: chain_Cons)

lemma chain_unique: "chain h p as \<Longrightarrow> chain h p bs \<Longrightarrow> as = bs"
proof (induction as arbitrary: p bs)
  case Nil
  then show ?case by (cases bs) (auto simp: chain_Cons)
next
  case (Cons a as)
  then show ?case by (cases bs) (auto simp: chain_Cons)
qed

lemma chain_suffix: "chain h p (as @ b # bs) \<Longrightarrow> chain h b (b # bs)"
  by (induction as arbitrary: p) (auto simp: chain_Cons)

lemma chain_distinct: "chain h p as \<Longrightarrow> distinct as"
proof (induction as arbitrary: p)
  case Nil
  then show ?case by simp
next
  case (Cons a as)
  then obtain m where m: "h a = Some m" "chain h (msg_next m) as"
    by (auto simp: chain_Cons)
  have "a \<notin> set as"
  proof
    assume "a \<in> set as"
    then obtain xs ys where as: "as = xs @ a # ys" by (auto dest: split_list)
    with m have "chain h a (a # ys)" by (auto dest: chain_suffix)
    moreover have "chain h a (a # as)" using Cons.prems by (simp add: chain_Cons)
    ultimately have "length (a # ys) = length (a # as)" using chain_unique by metis
    with as show False by simp
  qed
  with Cons.IH m show ?case by auto
qed

lemma chain_live: "chain h p as \<Longrightarrow> a \<in> set as \<Longrightarrow> a \<noteq> 0 \<and> h a \<noteq> None"
  by (induction as arbitrary: p) (auto simp: chain_Cons)

lemma chain_cong: "(\<And>a. a \<in> set as \<Longrightarrow> map_option msg_next (h' a) = map_option msg_next (h a))
    \<Longrightarrow> chain h' p as = chain h p as"
proof (induction as arbitrary: p)
  case Nil
  then show ?case by simp
next
  case (Cons a as)
  then show ?case
    using Cons.prems [of a] by (cases "h a"; cases "h' a") (auto simp: chain_Cons)
qed

lemma chain_upd: "a \<notin> set as \<Longrightarrow> chain (h(a := v)) p as = chain h p as"
  by (rule chain_cong) auto

lemma chain_snoc:
  assumes "chain h p (as @ [l])" and "h l = Some m" and "n \<notin> set (as @ [l])" and "n \<noteq> 0"
    and "msg_next c = 0" and "msg_next m' = n"
  shows "chain (h(n \<mapsto> c, l \<mapsto> m')) p (as @ [l, n])"
  using assms
proof (induction as arbitrary: p)
  case Nil
  then show ?case by (auto simp: chain_Cons)
next
  case (Cons a as)
  then have "a \<noteq> l" using chain_distinct by fastforce
  with Cons show ?case by (auto simp: chain_Cons)
qed

lemma mq_rel_addrs: "mq_rel h q as \<Longrightarrow> mq_addrs h q = as"
  by (auto simp: mq_rel_def mq_addrs_def chain_walk)

lemma mq_wf_iff: "mq_wf h q \<longleftrightarrow> (\<exists>as. mq_rel h q as)"
  by (auto simp: mq_wf_def mq_rel_addrs)

lemma mq_relI [dest]: "mq_wf h q \<Longrightarrow> mq_rel h q (mq_addrs h q)"
  by (simp add: mq_wf_def)

lemma mq_rel_abs: "mq_rel h q as \<Longrightarrow> mq_abs h q = map (cell_data h) as"
  by (simp add: mq_abs_def mq_rel_addrs)

subsection \<open>The operations on well-formed queues\<close>

lemma mq_rel_Nil: "mq_rel h q [] \<longleftrightarrow> q = mq_empty_queue"
  by (auto simp: mq_rel_def mq_empty_queue_def)

lemma mq_rel_tail: "mq_rel h q as \<Longrightarrow> mq_tail q = 0 \<longleftrightarrow> as = []"
  unfolding mq_rel_def using chain_live [of h "mq_head q" as "last as"] by auto

lemma mq_rel_head: "mq_rel h q as \<Longrightarrow> mq_head q = (if as = [] then 0 else hd as)"
  by (cases as) (auto simp: mq_rel_def chain_Cons)

lemma mq_rel_live: "mq_rel h q as \<Longrightarrow> a \<in> set as \<Longrightarrow> a \<noteq> 0 \<and> h a \<noteq> None"
  unfolding mq_rel_def using chain_live by blast

lemma mq_rel_distinct: "mq_rel h q as \<Longrightarrow> distinct as"
  unfolding mq_rel_def using chain_distinct by blast

lemma mq_rel_cong: "(\<And>a. a \<in> set as \<Longrightarrow> h' a = h a) \<Longrightarrow> mq_rel h' q as = mq_rel h q as"
  unfolding mq_rel_def using chain_cong [of as h' h "mq_head q"] by simp

text \<open>
  Pushing on a queue whose cells are \<open>as\<close> appends the fresh cell \<open>p\<close>; the old cells keep
  their data and no cell outside the queue changes.
\<close>

lemma mq_push_rel:
  assumes rel: "mq_rel h q as" and snd: "malloc_sound malloc"
    and p: "p = malloc h (8 + length msg)" "p \<noteq> 0"
  obtains h' q' where "mq_push malloc h q msg = Inr (h', q', mq_head q')"
    and "mq_rel h' q' (as @ [p])"
    and "\<And>a. a \<notin> set as \<Longrightarrow> a \<noteq> p \<Longrightarrow> h' a = h a"
    and "\<And>a. a \<in> set as \<Longrightarrow> cell_data h' a = cell_data h a"
    and "cell_data h' p = get_data (message_ctor msg)"
    and "h p = None" and "p \<notin> set as"
proof -
  have fresh: "h p = None" and small: "unat p < 2 ^ 47"
    using malloc_soundD [OF snd, of h "8 + length msg"] p by auto
  then have notin: "p \<notin> set as" using mq_rel_live [OF rel] by blast
  show thesis
  proof (cases "as = []")
    case True
    with rel have q: "q = mq_empty_queue" by (simp add: mq_rel_Nil)
    let ?h = "h(p \<mapsto> message_ctor msg)" and ?q = "\<lparr>mq_size = 1, mq_head = p, mq_tail = p\<rparr>"
    show thesis
    proof (rule that [of ?h ?q])
      show "mq_push malloc h q msg = Inr (?h, ?q, mq_head ?q)"
        using p by (simp add: mq_push_def q mq_empty_queue_def create_message_def Let_def sizeof_message_def)
      show "mq_rel ?h ?q (as @ [p])"
        using True p by (simp add: mq_rel_def chain_Cons)
    qed (use True notin fresh in \<open>auto simp: cell_data_def\<close>)
  next
    case False
    then obtain bs l where as: "as = bs @ [l]" by (metis rev_exhaust)
    have tail: "mq_tail q = l" "l \<noteq> 0" using rel mq_rel_live [OF rel, of l] by (auto simp: mq_rel_def as)
    obtain m where m: "h l = Some m" using mq_rel_live [OF rel, of l] as by auto
    let ?h = "h(p \<mapsto> message_ctor msg, l \<mapsto> set_next p m)"
    let ?q = "q\<lparr>mq_tail := p, mq_size := mq_size q + 1\<rparr>"
    have lp: "l \<noteq> p" using notin as by auto
    show thesis
    proof (rule that [of ?h ?q])
      show "mq_push malloc h q msg = Inr (?h, ?q, mq_head ?q)"
        using p tail m lp
        by (simp add: mq_push_def create_message_def load_def Let_def sizeof_message_def)
      show "mq_rel ?h ?q (as @ [p])"
        using rel notin p m small chain_snoc [of h "mq_head q" bs l m p "message_ctor msg" "set_next p m"]
        by (auto simp: mq_rel_def as take_bit_ptr)
    qed (use as m lp notin fresh in \<open>auto simp: cell_data_def\<close>)
  qed
qed

lemma mq_pop_empty: "mq_rel h q [] \<Longrightarrow> mq_pop h q = Inr (h, q)"
  by (simp add: mq_rel_Nil mq_pop_def mq_empty_queue_def)

lemma mq_pop_rel:
  assumes rel: "mq_rel h q (a # as)"
  obtains q' where "mq_pop h q = Inr (h(a := None), q')" and "mq_rel (h(a := None)) q' as"
proof -
  obtain m where m: "h a = Some m" "a \<noteq> 0" "mq_head q = a" "chain h (msg_next m) as"
    using rel by (auto simp: mq_rel_def chain_Cons)
  let ?q = "q\<lparr>mq_head := msg_next m, mq_tail := if msg_next m = 0 then 0 else mq_tail q,
      mq_size := mq_size q - 1\<rparr>"
  have a: "a \<notin> set as" using mq_rel_distinct [OF rel] by simp
  have nil: "msg_next m = 0 \<longleftrightarrow> as = []" using m(4) by (cases as) (auto simp: chain_Cons)
  show thesis
  proof (rule that [of ?q])
    show "mq_pop h q = Inr (h(a := None), ?q)"
      using m by (simp add: mq_pop_def load_def get_next_def destroy_message_def Let_def)
    show "mq_rel (h(a := None)) ?q as"
      using rel m a nil by (auto simp: mq_rel_def chain_upd)
  qed
qed

lemma destroy_loop_chain:
  "chain h p as \<Longrightarrow> destroy_loop h p = Inr (\<lambda>a. if a \<in> set as then None else h a)"
proof (induction as arbitrary: h p)
  case Nil
  then show ?case by (simp add: destroy_loop.simps)
next
  case (Cons a as)
  then obtain m where m: "h a = Some m" "a \<noteq> 0" "p = a" "chain h (msg_next m) as"
    by (auto simp: chain_Cons)
  have "a \<notin> set as" using chain_distinct [OF Cons.prems] by simp
  with m have "chain (h(a := None)) (msg_next m) as" by (simp add: chain_upd)
  note IH = Cons.IH [OF this]
  have "destroy_loop h p = destroy_loop (h(a := None)) (msg_next m)"
    using m by (simp add: destroy_loop.simps [of h a] get_next_def)
  also note IH
  also have "(\<lambda>b. if b \<in> set as then None else (h(a := None)) b)
      = (\<lambda>b. if b \<in> set (a # as) then None else h b)" by auto
  finally show ?case .
qed

text \<open>Iterators step through the cells in order and end at \<open>nullptr\<close>.\<close>

lemma iter_advance_chain:
  "chain h p as \<Longrightarrow> i \<le> length as \<Longrightarrow> iter_advance h i p = Inr (if i < length as then as ! i else 0)"
proof (induction as arbitrary: p i)
  case Nil
  then show ?case by simp
next
  case (Cons a as)
  then obtain m where m: "h a = Some m" "a \<noteq> 0" "p = a" "chain h (msg_next m) as"
    by (auto simp: chain_Cons)
  show ?case
  proof (cases i)
    case 0
    with m show ?thesis by simp
  next
    case (Suc j)
    with Cons.IH [OF m(4), of j] Cons.prems m show ?thesis
      by (simp add: iter_next_def load_def get_next_def)
  qed
qed

subsection \<open>The queue meets the FIFO contract\<close>

text \<open>
  The state of the contract is the allocator, the heap and the queue's fields; the
  allocator never changes.
\<close>

type_synonym queue_state = "allocator \<times> heap \<times> message_queue_t"

definition qs_ok :: "queue_state \<Rightarrow> bool" where
  "qs_ok s = (case s of (malloc, h, q) \<Rightarrow> malloc_sound malloc \<and> mq_wf h q)"

definition qs_abs :: "queue_state \<Rightarrow> byte list list" where
  "qs_abs s = (case s of (malloc, h, q) \<Rightarrow> mq_abs h q)"

definition qs_push :: "byte list \<Rightarrow> queue_state \<Rightarrow> fault + queue_state" where
  "qs_push msg s = (case s of (malloc, h, q) \<Rightarrow>
     rbind (mq_push malloc h q msg) (\<lambda>(h', q', it). Inr (malloc, h', q')))"

definition qs_pop :: "queue_state \<Rightarrow> fault + queue_state" where
  "qs_pop s = (case s of (malloc, h, q) \<Rightarrow>
     rbind (mq_pop h q) (\<lambda>(h', q'). Inr (malloc, h', q')))"

definition qs_front :: "queue_state \<Rightarrow> fault + byte list" where
  "qs_front s = (case s of (malloc, h, q) \<Rightarrow> iter_deref h (mq_front q))"

definition qs_size :: "queue_state \<Rightarrow> nat" where
  "qs_size s = (case s of (malloc, h, q) \<Rightarrow> mq_size q)"

definition fits_u16 :: "byte list \<Rightarrow> bool" where
  "fits_u16 msg \<longleftrightarrow> length msg < 2 ^ 16"

lemma mq_push_wf:
  assumes "mq_wf h q" and "malloc_sound malloc" and "malloc h (8 + length msg) \<noteq> 0"
  shows "\<exists>h' q'. mq_push malloc h q msg = Inr (h', q', mq_head q') \<and> mq_wf h' q'
     \<and> mq_abs h' q' = mq_abs h q @ [take (length msg mod 2 ^ 16) msg]"
proof -
  obtain as where rel: "mq_rel h q as" using assms(1) by blast
  obtain h' q' where "mq_push malloc h q msg = Inr (h', q', mq_head q')"
    and r': "mq_rel h' q' (as @ [malloc h (8 + length msg)])"
    and "\<And>a. a \<in> set as \<Longrightarrow> cell_data h' a = cell_data h a"
    and "cell_data h' (malloc h (8 + length msg)) = get_data (message_ctor msg)"
    using mq_push_rel [OF rel assms(2) refl assms(3)] by metis
  then show ?thesis
    by (auto simp: mq_wf_iff mq_rel_abs [OF rel] mq_rel_abs [OF r'] get_data_ctor_mod)
qed

lemma mq_push_no_memory:
  "malloc h (8 + length msg) = 0 \<Longrightarrow> mq_push malloc h q msg = Inl Null_dereference"
  by (simp add: mq_push_def create_message_def sizeof_message_def)

lemma mq_pop_wf:
  assumes "mq_wf h q"
  shows "\<exists>h' q'. mq_pop h q = Inr (h', q') \<and> mq_wf h' q' \<and> mq_abs h' q' = tl (mq_abs h q)"
proof -
  obtain as where rel: "mq_rel h q as" using assms by blast
  show ?thesis
  proof (cases as)
    case Nil
    with rel assms show ?thesis by (auto simp: mq_pop_empty mq_rel_abs)
  next
    case (Cons a bs)
    with rel have rel': "mq_rel h q (a # bs)" by simp
    obtain q' where "mq_pop h q = Inr (h(a := None), q')" "mq_rel (h(a := None)) q' bs"
      using mq_pop_rel [OF rel'] by metis
    moreover have "a \<notin> set bs" using mq_rel_distinct [OF rel'] by simp
    ultimately show ?thesis using mq_rel_abs [OF rel']
      by (auto simp: mq_wf_iff mq_rel_abs cell_data_def)
  qed
qed

lemma mq_abs_length: "mq_wf h q \<Longrightarrow> length (mq_abs h q) = mq_size q"
  by (auto simp: mq_abs_def mq_wf_def mq_rel_def)

lemma iter_deref_front:
  assumes "mq_wf h q" and "mq_abs h q \<noteq> []"
  shows "iter_deref h (mq_front q) = Inr (hd (mq_abs h q))"
proof -
  obtain as where rel: "mq_rel h q as" using assms(1) by blast
  with assms(2) obtain a bs where "as = a # bs" by (cases as) (auto simp: mq_rel_abs)
  with rel show ?thesis
    by (auto simp: mq_rel_abs [OF rel] iter_deref_def load_def mq_front_def mq_rel_def chain_Cons cell_data_def)
qed

lemma iter_deref_front_empty:
  assumes "mq_wf h q" and "mq_abs h q = []"
  shows "iter_deref h (mq_front q) = Inl Null_dereference"
proof -
  have "mq_rel h q []" using assms by (auto simp: mq_abs_def dest: mq_relI)
  then show ?thesis by (simp add: mq_rel_Nil iter_deref_def load_def mq_front_def mq_empty_queue_def)
qed

interpretation mqs: fifo_queue qs_ok fits_u16 qs_abs qs_push qs_pop qs_front qs_size
proof
  fix s s' :: queue_state and x
  obtain malloc h q where s: "s = (malloc, h, q)" by (cases s) auto
  assume ok: "qs_ok s"
  then have wf: "mq_wf h q" and snd: "malloc_sound malloc" by (auto simp: qs_ok_def s)
  { assume "fits_u16 x" and push: "qs_push x s = Inr s'"
    then have "malloc h (8 + length x) \<noteq> 0"
      using mq_push_no_memory [of malloc h x q] by (auto simp: qs_push_def s)
    from mq_push_wf [OF wf snd this] push \<open>fits_u16 x\<close>
    show "qs_ok s' \<and> qs_abs s' = qs_abs s @ [x]"
      using snd by (auto simp: qs_push_def qs_ok_def qs_abs_def s fits_u16_def) }
  show "\<exists>s'. qs_pop s = Inr s' \<and> qs_ok s' \<and> qs_abs s' = tl (qs_abs s)"
    using mq_pop_wf [OF wf] snd by (auto simp: qs_pop_def qs_ok_def qs_abs_def s)
  show "qs_abs s \<noteq> [] \<Longrightarrow> qs_front s = Inr (hd (qs_abs s))"
    using iter_deref_front [OF wf] by (simp add: qs_abs_def qs_front_def s)
  show "qs_size s = length (qs_abs s)"
    using mq_abs_length [OF wf] by (simp add: qs_size_def qs_abs_def s)
qed

subsection \<open>Frames\<close>

text \<open>A queue sees only its own cells.\<close>

lemma mq_frame:
  assumes "mq_wf h q" and "\<And>a. a \<in> set (mq_addrs h q) \<Longrightarrow> h' a = h a"
  shows "mq_wf h' q" and "mq_addrs h' q = mq_addrs h q" and "mq_abs h' q = mq_abs h q"
proof -
  have rel: "mq_rel h q (mq_addrs h q)" using assms(1) by blast
  then have rel': "mq_rel h' q (mq_addrs h q)" using mq_rel_cong assms(2) by metis
  then show "mq_wf h' q" by (auto simp: mq_wf_iff)
  from rel' show eq: "mq_addrs h' q = mq_addrs h q" by (rule mq_rel_addrs)
  show "mq_abs h' q = mq_abs h q"
    using assms(2) by (simp add: mq_abs_def eq cell_data_def)
qed

lemma mq_addrs_live: "mq_wf h q \<Longrightarrow> a \<in> set (mq_addrs h q) \<Longrightarrow> a \<noteq> 0 \<and> h a \<noteq> None"
  using mq_rel_live by blast

lemma mq_wf_empty [simp]: "mq_wf h mq_empty_queue"
  using mq_rel_Nil mq_wf_iff by blast

text \<open>The queue with one message at address 8, a concrete instance for hypotheses.\<close>

definition one_heap :: "byte list \<Rightarrow> heap" where
  "one_heap msg = [8 \<mapsto> message_ctor msg]"

definition one_queue :: message_queue_t where
  "one_queue = \<lparr>mq_size = 1, mq_head = 8, mq_tail = 8\<rparr>"

lemma one_queue_rel: "mq_rel (one_heap msg) one_queue [8]"
  by (simp add: mq_rel_def chain_Cons one_heap_def one_queue_def)

lemma one_queue_wf [simp]: "mq_wf (one_heap msg) one_queue"
  using one_queue_rel mq_wf_iff by blast

lemma one_queue_addrs [simp]: "mq_addrs (one_heap msg) one_queue = [8]"
  using one_queue_rel by (rule mq_rel_addrs)

lemma one_queue_abs: "length msg < 2 ^ 16 \<Longrightarrow> mq_abs (one_heap msg) one_queue = [msg]"
  by (simp add: mq_abs_def) (simp add: cell_data_def one_heap_def)

lemma mq_addrs_empty [simp]: "mq_addrs h mq_empty_queue = []"
  by (simp add: mq_addrs_def mq_empty_queue_def)

lemma mq_abs_empty [simp]: "mq_abs h mq_empty_queue = []"
  by (simp add: mq_abs_def)

lemma mq_empty_iff: "mq_wf h q \<Longrightarrow> mq_empty q \<longleftrightarrow> mq_abs h q = []"
  by (metis mq_abs_length mq_empty_def length_0_conv)

subsection \<open>Push and pop, with their effect on the heap\<close>

lemma mq_push_rel_abs:
  assumes "mq_wf h q" and "malloc_sound malloc" and "malloc h (8 + length msg) \<noteq> 0"
  shows "\<exists>h' q'. mq_push malloc h q msg = Inr (h', q', mq_begin q') \<and> mq_wf h' q'
     \<and> mq_abs h' q' = mq_abs h q @ [take (length msg mod 2 ^ 16) msg]
     \<and> mq_addrs h' q' = mq_addrs h q @ [malloc h (8 + length msg)]
     \<and> h (malloc h (8 + length msg)) = None
     \<and> (\<forall>a. a \<notin> set (mq_addrs h' q') \<longrightarrow> h' a = h a)"
proof -
  have rel: "mq_rel h q (mq_addrs h q)" using assms(1) by blast
  obtain h' q' where 1: "mq_push malloc h q msg = Inr (h', q', mq_head q')"
    and r': "mq_rel h' q' (mq_addrs h q @ [malloc h (8 + length msg)])"
    and 2: "\<And>a. a \<notin> set (mq_addrs h q) \<Longrightarrow> a \<noteq> malloc h (8 + length msg) \<Longrightarrow> h' a = h a"
    and 3: "h (malloc h (8 + length msg)) = None"
    using mq_push_rel [OF rel assms(2) refl assms(3)] by metis
  have "mq_wf h' q' \<and> mq_abs h' q' = mq_abs h q @ [take (length msg mod 2 ^ 16) msg]"
    using mq_push_wf [OF assms] 1 by auto
  with 1 2 3 mq_rel_addrs [OF r'] show ?thesis by (auto simp: mq_begin_def)
qed

lemma mq_pop_rel_abs:
  assumes "mq_wf h q"
  shows "\<exists>h' q'. mq_pop h q = Inr (h', q') \<and> mq_wf h' q' \<and> mq_abs h' q' = tl (mq_abs h q)
     \<and> mq_addrs h' q' = tl (mq_addrs h q)
     \<and> h' = (\<lambda>a. if a \<in> set (take 1 (mq_addrs h q)) then None else h a)"
proof (cases "mq_addrs h q")
  case Nil
  with assms have "mq_rel h q []" by (metis mq_relI)
  then show ?thesis by (simp add: mq_pop_empty mq_rel_Nil)
next
  case (Cons a as)
  with assms have rel: "mq_rel h q (a # as)" by (metis mq_relI)
  obtain q' where q': "mq_pop h q = Inr (h(a := None), q')" "mq_rel (h(a := None)) q' as"
    using mq_pop_rel [OF rel] by metis
  have "(\<lambda>b. if b \<in> set (take 1 (mq_addrs h q)) then None else h b) = h(a := None)"
    using Cons by auto
  with q' mq_pop_wf [OF assms] Cons mq_rel_addrs [OF q'(2)] show ?thesis by auto
qed

subsection \<open>Properties of the message queue\<close>

text \<open>
  C18: on a well-formed queue, with memory available, \<open>push\<close> succeeds, returns the begin
  iterator, keeps the queue well formed and appends the message, cut to the length that
  the 16-bit length field can hold; live cells of other queues are untouched.
\<close>

theorem mq_push_refines:
  assumes "mq_wf h q" and "malloc_sound malloc" and "malloc h (8 + length msg) \<noteq> 0"
  shows "\<exists>h' q'. mq_push malloc h q msg = Inr (h', q', mq_begin q') \<and> mq_wf h' q'
     \<and> mq_abs h' q' = mq_abs h q @ [take (length msg mod 2 ^ 16) msg]
     \<and> mq_addrs h' q' = mq_addrs h q @ [malloc h (8 + length msg)]
     \<and> h (malloc h (8 + length msg)) = None
     \<and> (\<forall>a. a \<notin> set (mq_addrs h' q') \<longrightarrow> h' a = h a)"
  by (rule mq_push_rel_abs [OF assms])

theorem mq_push_refines_witness:
  "\<exists>h' q'. mq_push small_malloc Map.empty mq_empty_queue (lit ''ab'') = Inr (h', q', mq_begin q')
     \<and> mq_abs h' q' = [lit ''ab'']"
  using mq_push_refines [of Map.empty mq_empty_queue small_malloc "lit ''ab''"]
  by (auto simp: small_malloc_sound small_malloc_def)

text \<open>
  C19: \<open>pop\<close> on a well-formed queue never faults, frees exactly the front cell and leaves
  the other messages in order; on the empty queue it changes nothing.
\<close>

theorem mq_pop_refines:
  assumes "mq_wf h q"
  shows "\<exists>h' q'. mq_pop h q = Inr (h', q') \<and> mq_wf h' q' \<and> mq_abs h' q' = tl (mq_abs h q)
     \<and> mq_addrs h' q' = tl (mq_addrs h q)
     \<and> h' = (\<lambda>a. if a \<in> set (take 1 (mq_addrs h q)) then None else h a)"
  by (rule mq_pop_rel_abs [OF assms])

theorem mq_pop_refines_witness:
  "\<exists>h' q'. mq_pop (one_heap (lit ''x'')) one_queue = Inr (h', q') \<and> mq_abs h' q' = [] \<and> h' 8 = None"
  using mq_pop_refines [OF one_queue_wf, of "lit ''x''"] by (force simp: one_queue_abs)

text \<open>
  The destructor never faults on a well-formed queue and frees exactly the queue's
  cells: no message leaks and no cell of anyone else is freed.
\<close>

lemma mq_destroy_frees_exactly:
  assumes "mq_wf h q"
  shows "mq_destroy h q = Inr (\<lambda>a. if a \<in> set (mq_addrs h q) then None else h a)"
  using assms destroy_loop_chain by (auto simp: mq_destroy_def mq_wf_def mq_rel_def)

lemma mq_destroy_frees_exactly_witness:
  "mq_destroy (one_heap (lit ''x'')) one_queue = Inr Map.empty"
proof -
  have "(\<lambda>a. if a \<in> set [8] then None else one_heap (lit ''x'') a) = Map.empty"
    by (auto simp: one_heap_def)
  with mq_destroy_frees_exactly [OF one_queue_wf, of "lit ''x''"] show ?thesis by simp
qed

text \<open>
  Iterating from \<open>begin\<close> visits the messages in queue order: the \<open>i\<close>-th increment
  points at the \<open>i\<close>-th message, and as many increments as the queue is long reach \<open>end\<close>.
\<close>

lemma mq_iteration_order:
  assumes "mq_wf h q"
  shows "(i < mq_size q \<longrightarrow>
       rbind (iter_advance h i (mq_begin q)) (iter_deref h) = Inr (mq_abs h q ! i))
     \<and> iter_advance h (mq_size q) (mq_begin q) = Inr (mq_end q)"
proof -
  have rel: "mq_rel h q (mq_addrs h q)" using assms by blast
  then have ch: "chain h (mq_begin q) (mq_addrs h q)" "mq_size q = length (mq_addrs h q)"
    by (auto simp: mq_rel_def mq_begin_def)
  have live: "i < length (mq_addrs h q) \<Longrightarrow>
      mq_addrs h q ! i \<noteq> 0 \<and> h (mq_addrs h q ! i) \<noteq> None"
    by (intro mq_addrs_live [OF assms] nth_mem)
  show ?thesis
    using live iter_advance_chain [OF ch(1)]
    by (auto simp: ch(2) mq_end_def iter_deref_def load_def mq_abs_def cell_data_def)
qed

lemma mq_iteration_order_witness:
  "rbind (iter_advance (one_heap (lit ''x'')) 0 (mq_begin one_queue)) (iter_deref (one_heap (lit ''x'')))
   = Inr (lit ''x'')"
  using mq_iteration_order [OF one_queue_wf, of 0 "lit ''x''"]
  by (simp add: one_queue_abs) (simp add: one_queue_def)

lemma spec_queue_enqs: "spec_queue (map Enq xs) ys = ys @ xs"
  by (induction xs arbitrary: ys) auto

lemma valid_ops_enqs: "valid_ops P (map Enq xs) \<longleftrightarrow> list_all P xs"
  by (induction xs) auto

text \<open>
  First in, first out. When a sequence of pushes on the empty queue succeeds, reading
  and popping as many times returns exactly the pushed messages in the order of the
  pushes, and leaves the queue empty.
\<close>

lemma mq_fifo_delivery:
  assumes "malloc_sound malloc" and "list_all fits_u16 msgs"
    and "run_queue qs_push qs_pop (map Enq msgs) (malloc, h, mq_empty_queue) = Inr s"
  shows "\<exists>s'. drain qs_front qs_pop (length msgs) s = Inr (msgs, s') \<and> qs_abs s' = []"
proof -
  have "qs_ok (malloc, h, mq_empty_queue)" using assms(1) by (simp add: qs_ok_def)
  from mqs.run_queue_refines [OF this _ assms(3)] assms(2)
  have s: "qs_ok s" "qs_abs s = msgs"
    by (simp_all add: valid_ops_enqs spec_queue_enqs qs_abs_def)
  then have "length msgs = qs_size s" by (simp add: mqs.count_law)
  from mqs.drain_all [OF s(1) this] s(2) show ?thesis by auto
qed

lemma mq_fifo_delivery_witness:
  "\<exists>s s'. run_queue qs_push qs_pop (map Enq [lit ''a'', lit ''b'']) (small_malloc, Map.empty, mq_empty_queue) = Inr s
     \<and> drain qs_front qs_pop 2 s = Inr ([lit ''a'', lit ''b''], s')"
proof -
  obtain s where s: "run_queue qs_push qs_pop (map Enq [lit ''a'', lit ''b''])
      (small_malloc, Map.empty, mq_empty_queue) = Inr s"
    by (simp add: qs_push_def mq_push_def mq_empty_queue_def create_message_def small_malloc_def
        load_def Let_def)
  have "list_all fits_u16 [lit ''a'', lit ''b'']" by (simp add: fits_u16_def)
  from mq_fifo_delivery [OF small_malloc_sound this s] s show ?thesis
    by (auto simp: numeral_2_eq_2)
qed

end
