(* ===== verification/SharedMutex.thy ===== *)
theory SharedMutex
  imports UniqueMutex
begin

section \<open>The reader-writer mutex (\<open>src/common/fibers/sync-primitives/shared-mutex.h\<close>)\<close>

text \<open>
  Writers exclude everyone, readers share, and a waiting writer stops new readers. Each
  body under \<open>state_mutex_\<close> is one atomic step. \<open>unlock\<close> of a writer with no writer waiting
  wakes the waiting readers in a loop that drops \<open>state_mutex_\<close> around every \<open>fn()\<close>, so
  other steps can run between two rounds: the loop is a start (in \<open>sm_unlock\<close>) and one step
  \<open>sm_wake\<close> per further round. The counters are of type \<open>size_t\<close>: decrementing 0 wraps.
\<close>

record shared_mutex_t =
  sm_writer_active :: bool
  sm_reader_count :: nat
  sm_writers_waiting :: nat
  sm_shared_waiters :: "fiber list"
  sm_unique_waiters :: "fiber list"

definition sm_unlocked :: shared_mutex_t where
  "sm_unlocked = \<lparr>sm_writer_active = False, sm_reader_count = 0, sm_writers_waiting = 0,
      sm_shared_waiters = [], sm_unique_waiters = []\<rparr>"

definition dec_size :: "nat \<Rightarrow> nat" where
  "dec_size n = (if n = 0 then 2 ^ 64 - 1 else n - 1)"

lemma dec_size_Suc [simp]: "dec_size (Suc n) = n"
  by (simp add: dec_size_def)

lemma dec_size_pos: "0 < n \<Longrightarrow> dec_size n = n - 1"
  by (simp add: dec_size_def)

subsection \<open>Operations\<close>

definition sm_async_lock :: "fiber \<Rightarrow> shared_mutex_t \<Rightarrow> shared_mutex_t \<times> fiber option" where
  "sm_async_lock h m =
     (if \<not> sm_writer_active m \<and> sm_reader_count m = 0 then
        (m\<lparr>sm_writer_active := True\<rparr>, Some h)
      else
        (m\<lparr>sm_writers_waiting := sm_writers_waiting m + 1,
           sm_unique_waiters := sm_unique_waiters m @ [h]\<rparr>, None))"

definition sm_async_lock_shared :: "fiber \<Rightarrow> shared_mutex_t \<Rightarrow> shared_mutex_t \<times> fiber option" where
  "sm_async_lock_shared h m =
     (if \<not> sm_writer_active m \<and> sm_writers_waiting m = 0 then
        (m\<lparr>sm_reader_count := sm_reader_count m + 1\<rparr>, Some h)
      else (m\<lparr>sm_shared_waiters := sm_shared_waiters m @ [h]\<rparr>, None))"

text \<open>One round of the loop that wakes readers: \<open>None\<close> when the loop ends.\<close>

definition sm_wake :: "shared_mutex_t \<Rightarrow> shared_mutex_t \<times> fiber option" where
  "sm_wake m =
     (case sm_shared_waiters m of
        [] \<Rightarrow> (m, None)
      | fn # rest \<Rightarrow>
          (m\<lparr>sm_shared_waiters := rest, sm_reader_count := sm_reader_count m + 1\<rparr>, Some fn))"

text \<open>Handing the mutex to the first waiting writer, as both unlock functions do.\<close>

definition sm_hand_over :: "fiber \<Rightarrow> fiber list \<Rightarrow> shared_mutex_t \<Rightarrow> shared_mutex_t" where
  "sm_hand_over fn rest m =
     m\<lparr>sm_unique_waiters := rest, sm_writers_waiting := dec_size (sm_writers_waiting m),
       sm_writer_active := True\<rparr>"

datatype woken = Nobody | Writer fiber | Reader fiber

definition sm_unlock :: "shared_mutex_t \<Rightarrow> shared_mutex_t \<times> woken" where
  "sm_unlock m =
     (let m1 = m\<lparr>sm_writer_active := False\<rparr>
      in case sm_unique_waiters m1 of
           fn # rest \<Rightarrow> (sm_hand_over fn rest m1, Writer fn)
         | [] \<Rightarrow> (case sm_wake m1 of
               (m2, None) \<Rightarrow> (m2, Nobody)
             | (m2, Some fn) \<Rightarrow> (m2, Reader fn)))"

definition sm_unlock_shared :: "shared_mutex_t \<Rightarrow> shared_mutex_t \<times> fiber option" where
  "sm_unlock_shared m =
     (let m1 = m\<lparr>sm_reader_count := dec_size (sm_reader_count m)\<rparr>
      in if sm_reader_count m1 = 0 then
           (case sm_unique_waiters m1 of
              fn # rest \<Rightarrow> (sm_hand_over fn rest m1, Some fn)
            | [] \<Rightarrow> (m1, None))
         else (m1, None))"

text \<open>
  \<open>unlock\<close> run to its end with nothing in between: the final mutex and the woken fibers.
\<close>

fun sm_wake_rounds :: "nat \<Rightarrow> shared_mutex_t \<Rightarrow> shared_mutex_t \<times> fiber list" where
  "sm_wake_rounds 0 m = (m, [])"
| "sm_wake_rounds (Suc n) m =
     (case sm_wake m of
        (m1, None) \<Rightarrow> (m1, [])
      | (m1, Some fn) \<Rightarrow> (let (m2, fns) = sm_wake_rounds n m1 in (m2, fn # fns)))"

definition sm_unlock_run :: "shared_mutex_t \<Rightarrow> shared_mutex_t \<times> fiber list" where
  "sm_unlock_run m =
     (case sm_unlock m of
        (m1, Nobody) \<Rightarrow> (m1, [])
      | (m1, Writer fn) \<Rightarrow> (m1, [fn])
      | (m1, Reader fn) \<Rightarrow>
          (let (m2, fns) = sm_wake_rounds (length (sm_shared_waiters m1)) m1 in (m2, fn # fns)))"

text \<open>The guard classes of this mutex.\<close>

definition sm_write_guard_exec :: "guard_op \<Rightarrow> guard_state \<Rightarrow> guard_state" where
  "sm_write_guard_exec = guard_exec"

definition sm_read_guard_exec :: "guard_op \<Rightarrow> guard_state \<Rightarrow> guard_state" where
  "sm_read_guard_exec = guard_exec"

subsection \<open>Fibers around one mutex\<close>

text \<open>
  \<open>sm_writers\<close> and \<open>sm_readers\<close>: fibers that were given the mutex and have not released it;
  \<open>sm_wakers\<close>: threads inside the wake loop of \<open>unlock\<close>, between two rounds.
\<close>

record sm_sys =
  sm_mutex :: shared_mutex_t
  sm_writers :: "fiber list"
  sm_readers :: "fiber list"
  sm_wakers :: nat

datatype sm_event = Lock fiber | Lock_shared fiber | Unlock_write fiber | Wake_next | Unlock_read fiber

definition opt_list :: "'a option \<Rightarrow> 'a list" where
  "opt_list x = (case x of None \<Rightarrow> [] | Some y \<Rightarrow> [y])"

lemma opt_list_simps [simp]: "opt_list None = []" "opt_list (Some x) = [x]"
  by (simp_all add: opt_list_def)

fun sm_exec :: "sm_event \<Rightarrow> sm_sys \<Rightarrow> sm_sys option" where
  "sm_exec (Lock h) s =
     (let (m, g) = sm_async_lock h (sm_mutex s)
      in Some (s\<lparr>sm_mutex := m, sm_writers := sm_writers s @ opt_list g\<rparr>))"
| "sm_exec (Lock_shared h) s =
     (let (m, g) = sm_async_lock_shared h (sm_mutex s)
      in Some (s\<lparr>sm_mutex := m, sm_readers := sm_readers s @ opt_list g\<rparr>))"
| "sm_exec (Unlock_write h) s =
     (if h \<in> set (sm_writers s) then
        let s1 = s\<lparr>sm_writers := remove1 h (sm_writers s)\<rparr>
        in case sm_unlock (sm_mutex s) of
             (m, Nobody) \<Rightarrow> Some (s1\<lparr>sm_mutex := m\<rparr>)
           | (m, Writer fn) \<Rightarrow> Some (s1\<lparr>sm_mutex := m, sm_writers := sm_writers s1 @ [fn]\<rparr>)
           | (m, Reader fn) \<Rightarrow>
               Some (s1\<lparr>sm_mutex := m, sm_readers := sm_readers s1 @ [fn], sm_wakers := sm_wakers s1 + 1\<rparr>)
      else None)"
| "sm_exec Wake_next s =
     (if sm_wakers s = 0 then None
      else case sm_wake (sm_mutex s) of
          (m, None) \<Rightarrow> Some (s\<lparr>sm_mutex := m, sm_wakers := sm_wakers s - 1\<rparr>)
        | (m, Some fn) \<Rightarrow> Some (s\<lparr>sm_mutex := m, sm_readers := sm_readers s @ [fn]\<rparr>))"
| "sm_exec (Unlock_read h) s =
     (if h \<in> set (sm_readers s) then
        let (m, g) = sm_unlock_shared (sm_mutex s)
        in Some (s\<lparr>sm_mutex := m, sm_readers := remove1 h (sm_readers s),
                   sm_writers := sm_writers s @ opt_list g\<rparr>)
      else None)"

definition sm_start :: sm_sys where
  "sm_start = \<lparr>sm_mutex = sm_unlocked, sm_writers = [], sm_readers = [], sm_wakers = 0\<rparr>"

definition sm_init :: "sm_sys \<Rightarrow> bool" where
  "sm_init s \<longleftrightarrow> s = sm_start"

inductive sm_step :: "sm_sys \<Rightarrow> sm_sys \<Rightarrow> bool" where
  sm_event_step: "sm_exec e s = Some t \<Longrightarrow> sm_step s t"

text \<open>
  A step that gives the mutex to a writer: a request that finds it free, or a release that
  hands it to the first waiting writer.
\<close>

fun admits_writer :: "sm_event \<Rightarrow> sm_sys \<Rightarrow> bool" where
  "admits_writer (Lock h) s = (snd (sm_async_lock h (sm_mutex s)) \<noteq> None)"
| "admits_writer (Unlock_write h) s = (case snd (sm_unlock (sm_mutex s)) of Writer fn \<Rightarrow> True | _ \<Rightarrow> False)"
| "admits_writer (Unlock_read h) s = (snd (sm_unlock_shared (sm_mutex s)) \<noteq> None)"
| "admits_writer (Lock_shared h) s = False"
| "admits_writer Wake_next s = False"

text \<open>
  The calm steps: no writer is given the mutex while a wake loop is between two rounds. Everything
  else may happen there: \<open>fn()\<close> resumes the woken coroutine on the spot, so a woken reader does
  its reading and releases the mutex before the loop goes on, and readers come and go.
\<close>

inductive sm_calm_step :: "sm_sys \<Rightarrow> sm_sys \<Rightarrow> bool" where
  sm_calm: "sm_exec e s = Some t \<Longrightarrow> sm_wakers s = 0 \<or> \<not> admits_writer e s \<Longrightarrow> sm_calm_step s t"

inductive_cases sm_stepE: "sm_step s t"
inductive_cases sm_calm_stepE: "sm_calm_step s t"

fun sm_run :: "sm_event list \<Rightarrow> sm_sys \<Rightarrow> sm_sys option" where
  "sm_run [] s = Some s"
| "sm_run (e # es) s = (case sm_exec e s of None \<Rightarrow> None | Some t \<Rightarrow> sm_run es t)"

fun sm_calm_run :: "sm_event list \<Rightarrow> sm_sys \<Rightarrow> sm_sys option" where
  "sm_calm_run [] s = Some s"
| "sm_calm_run (e # es) s =
     (if 0 < sm_wakers s \<and> admits_writer e s then None
      else case sm_exec e s of None \<Rightarrow> None | Some t \<Rightarrow> sm_calm_run es t)"

lemma sm_calm_run_reachable:
  "reachable sm_init sm_calm_step s \<Longrightarrow> sm_calm_run es s = Some t \<Longrightarrow> reachable sm_init sm_calm_step t"
proof (induction es arbitrary: s)
  case (Cons e es)
  then obtain u where u: "sm_wakers s = 0 \<or> \<not> admits_writer e s" "sm_exec e s = Some u" "sm_calm_run es u = Some t"
    by (auto split: option.splits if_splits)
  have "reachable sm_init sm_calm_step u"
    by (rule reachable.next_state [OF Cons.prems(1) sm_calm [OF u(2,1)]])
  then show ?case using u(3) by (rule Cons.IH)
qed simp

lemma sm_run_reachable:
  "reachable sm_init sm_step s \<Longrightarrow> sm_run es s = Some t \<Longrightarrow> reachable sm_init sm_step t"
proof (induction es arbitrary: s)
  case Nil
  then show ?case by simp
next
  case (Cons e es)
  then obtain u where u: "sm_exec e s = Some u" "sm_run es u = Some t"
    by (auto split: option.splits)
  have "reachable sm_init sm_step u"
    using Cons.prems(1) sm_event_step [OF u(1)] by (rule reachable.next_state)
  then show ?case using u(2) by (rule Cons.IH)
qed

lemma sm_start_reachable: "reachable sm_init sm_step sm_start" "reachable sm_init sm_calm_step sm_start"
  by (rule reachable.start; simp add: sm_init_def)+

subsection \<open>Invariants of every run\<close>

definition sm_inv :: "sm_sys \<Rightarrow> bool" where
  "sm_inv s \<longleftrightarrow>
     sm_writers_waiting (sm_mutex s) = length (sm_unique_waiters (sm_mutex s))
   \<and> sm_reader_count (sm_mutex s) = length (sm_readers s)
   \<and> (sm_writer_active (sm_mutex s) \<longrightarrow> sm_writers s \<noteq> [])
   \<and> (sm_unique_waiters (sm_mutex s) \<noteq> [] \<longrightarrow> sm_writer_active (sm_mutex s) \<or> sm_readers s \<noteq> [])
   \<and> (sm_shared_waiters (sm_mutex s) \<noteq> [] \<longrightarrow>
        sm_writer_active (sm_mutex s) \<or> sm_unique_waiters (sm_mutex s) \<noteq> [] \<or> 0 < sm_wakers s)"

lemmas sm_op_defs = sm_async_lock_def sm_async_lock_shared_def sm_unlock_def sm_wake_def
  sm_unlock_shared_def sm_hand_over_def Let_def

lemma remove1_Nil_iff: "h \<in> set xs \<Longrightarrow> remove1 h xs = [] \<longleftrightarrow> length xs \<le> Suc 0"
  by (cases xs) auto

lemma sm_inv_exec: "sm_inv s \<Longrightarrow> sm_exec e s = Some t \<Longrightarrow> sm_inv t"
proof (cases e, goal_cases)
  case (1 h)
  then show ?case by (auto simp: sm_inv_def sm_op_defs split: if_splits)
next
  case (2 h)
  then show ?case by (auto simp: sm_inv_def sm_op_defs split: if_splits)
next
  case (3 h)
  then show ?case by (auto simp: sm_inv_def sm_op_defs split: if_splits list.splits)
next
  case 4
  then show ?case by (auto simp: sm_inv_def sm_op_defs split: if_splits list.splits)
next
  case (5 h)
  then have "sm_readers s \<noteq> []" by (auto split: if_splits)
  then have "0 < length (sm_readers s)" by simp
  with 5 show ?case
    by (auto simp: sm_inv_def sm_op_defs dec_size_pos length_remove1 remove1_Nil_iff
        split: if_splits list.splits)
qed

definition sm_waiting :: "sm_sys \<Rightarrow> bool" where
  "sm_waiting s \<longleftrightarrow> sm_unique_waiters (sm_mutex s) \<noteq> [] \<or> sm_shared_waiters (sm_mutex s) \<noteq> []"

definition sm_release_enabled :: "sm_sys \<Rightarrow> bool" where
  "sm_release_enabled s \<longleftrightarrow> sm_writers s \<noteq> [] \<or> sm_readers s \<noteq> [] \<or> 0 < sm_wakers s"

text \<open>The counters agree with who holds the mutex.\<close>

definition sm_counts_agree :: "sm_sys \<Rightarrow> bool" where
  "sm_counts_agree s \<longleftrightarrow> sm_reader_count (sm_mutex s) = length (sm_readers s)
     \<and> sm_writers_waiting (sm_mutex s) = length (sm_unique_waiters (sm_mutex s))"

interpretation sm: lock_system sm_init sm_step sm_inv sm_counts_agree sm_waiting sm_release_enabled
proof
  fix s t
  show "sm_init s \<Longrightarrow> sm_inv s" by (simp add: sm_init_def sm_start_def sm_inv_def sm_unlocked_def)
  show "sm_inv s \<Longrightarrow> sm_step s t \<Longrightarrow> sm_inv t" by (erule sm_stepE) (rule sm_inv_exec)
  show "sm_inv s \<Longrightarrow> sm_counts_agree s" by (simp add: sm_inv_def sm_counts_agree_def)
  show "sm_inv s \<Longrightarrow> sm_waiting s \<Longrightarrow> sm_release_enabled s"
    by (auto simp: sm_inv_def sm_waiting_def sm_release_enabled_def)
qed

subsection \<open>Exclusion\<close>

text \<open>At most one writer, and no reader beside it.\<close>

definition sm_exclusive :: "sm_sys \<Rightarrow> bool" where
  "sm_exclusive s \<longleftrightarrow> length (sm_writers s) \<le> 1 \<and> (sm_writers s = [] \<or> sm_readers s = [])"

definition sm_calm_inv :: "sm_sys \<Rightarrow> bool" where
  "sm_calm_inv s \<longleftrightarrow> sm_inv s
   \<and> (if sm_writer_active (sm_mutex s)
      then length (sm_writers s) = 1 \<and> sm_readers s = [] \<and> sm_wakers s = 0
      else sm_writers s = [])"

lemma sm_calm_inv_step:
  assumes inv: "sm_calm_inv s" and step: "sm_calm_step s t"
  shows "sm_calm_inv t"
  using step
proof (cases rule: sm_calm_step.cases)
  case (sm_calm e)
  have "sm_inv t" using inv sm_calm(1) sm_inv_exec by (auto simp: sm_calm_inv_def)
  moreover have "(if sm_writer_active (sm_mutex t)
      then length (sm_writers t) = 1 \<and> sm_readers t = [] \<and> sm_wakers t = 0
      else sm_writers t = [])"
  proof (cases e)
    case (Lock h)
    with inv sm_calm show ?thesis
      by (auto simp: sm_calm_inv_def sm_inv_def sm_op_defs split: if_splits)
  next
    case (Lock_shared h)
    with inv sm_calm(1) show ?thesis
      by (auto simp: sm_calm_inv_def sm_inv_def sm_op_defs split: if_splits)
  next
    case (Unlock_write h)
    with sm_calm(1) have "h \<in> set (sm_writers s)" by (auto split: if_splits)
    with inv Unlock_write sm_calm(1) show ?thesis
      by (auto simp: sm_calm_inv_def sm_inv_def sm_op_defs length_Suc_conv
          split: if_splits list.splits)
  next
    case Wake_next
    with inv sm_calm(1) show ?thesis
      by (auto simp: sm_calm_inv_def sm_inv_def sm_op_defs split: if_splits list.splits)
  next
    case (Unlock_read h)
    with sm_calm have h: "h \<in> set (sm_readers s)" by (auto split: if_splits)
    then have "0 < length (sm_readers s)" "length (sm_readers s) \<le> Suc 0 \<Longrightarrow> length (sm_readers s) = Suc 0"
      by (auto simp: le_Suc_eq)
    with h inv Unlock_read sm_calm show ?thesis
      by (auto simp: sm_calm_inv_def sm_inv_def sm_op_defs dec_size_pos remove1_Nil_iff length_remove1
          split: if_splits list.splits)
  qed
  ultimately show ?thesis by (simp add: sm_calm_inv_def)
qed

interpretation smc: lock_system sm_init sm_calm_step sm_calm_inv sm_exclusive sm_waiting sm_release_enabled
proof
  fix s t
  show "sm_init s \<Longrightarrow> sm_calm_inv s"
    by (simp add: sm_init_def sm_start_def sm_calm_inv_def sm_inv_def sm_unlocked_def)
  show "sm_calm_inv s \<Longrightarrow> sm_calm_step s t \<Longrightarrow> sm_calm_inv t" by (rule sm_calm_inv_step)
  show "sm_calm_inv s \<Longrightarrow> sm_exclusive s"
    by (auto simp: sm_calm_inv_def sm_exclusive_def split: if_splits)
  show "sm_calm_inv s \<Longrightarrow> sm_waiting s \<Longrightarrow> sm_release_enabled s"
    by (auto simp: sm_calm_inv_def sm_inv_def sm_waiting_def sm_release_enabled_def)
qed

subsection \<open>Properties of the reader-writer mutex\<close>

text \<open>
  C4: reader-writer exclusion. In every state reached without a writer being given the mutex
  in the middle of a wake loop, there is at most one writer, and no reader beside a writer; the
  woken readers may read and release the mutex before the loop goes on.
\<close>

theorem sm_reader_writer_exclusion:
  assumes "reachable sm_init sm_calm_step s"
  shows "length (sm_writers s) \<le> 1 \<and> (sm_writers s = [] \<or> sm_readers s = [])"
  using smc.reachable_compatible [OF assms] by (simp add: sm_exclusive_def)

definition sm_one_writer :: sm_sys where
  "sm_one_writer = \<lparr>sm_mutex = sm_unlocked\<lparr>sm_writer_active := True\<rparr>, sm_writers = [1],
      sm_readers = [], sm_wakers = 0\<rparr>"

lemma sm_one_writer_exec: "sm_exec (Lock 1) sm_start = Some sm_one_writer"
  by (simp add: sm_start_def sm_one_writer_def sm_async_lock_def sm_unlocked_def)

text \<open>
  A calm run: the loop wakes reader 2, which reads and releases before the loop wakes reader 3;
  reader 5 comes and goes meanwhile, and writer 4, which came while 5 was reading, waits for 3.
\<close>

definition sm_calm_events :: "sm_event list" where
  "sm_calm_events = [Lock 1, Lock_shared 2, Lock_shared 3, Unlock_write 1, Lock_shared 5, Unlock_read 2, Lock 4,
     Wake_next, Unlock_read 5]"

theorem sm_reader_writer_exclusion_witness:
  "\<exists>s. sm_calm_run sm_calm_events sm_start = Some s \<and> sm_wakers s = 1 \<and> sm_readers s = [3]
     \<and> sm_unique_waiters (sm_mutex s) = [4] \<and> length (sm_writers s) \<le> 1"
proof -
  obtain s where s: "sm_calm_run sm_calm_events sm_start = Some s" "sm_wakers s = 1" "sm_readers s = [3]"
    "sm_unique_waiters (sm_mutex s) = [4]"
    by (simp add: sm_calm_events_def sm_start_def sm_unlocked_def sm_op_defs dec_size_def)
  from sm_reader_writer_exclusion [OF sm_calm_run_reachable [OF sm_start_reachable(2) s(1)]] s
  show ?thesis by blast
qed

definition sm_bad_events :: "sm_event list" where
  "sm_bad_events = [Lock 1, Lock_shared 2, Lock_shared 3, Unlock_write 1, Unlock_read 2, Lock 4,
     Wake_next]"

text \<open>
  C5: without that restriction exclusion fails. Writer 1 releases while readers 2 and 3
  wait; the loop wakes 2 and drops the state lock; 2 releases, writer 4 finds no active
  writer and no reader and gets the mutex; the loop goes on and wakes 3, which now reads
  beside the active writer 4. When 3 releases, the waiting writer 5 is let in beside 4.
\<close>

theorem sm_exclusion_broken:
  "(\<exists>s. reachable sm_init sm_step s \<and> sm_writers s = [4] \<and> sm_readers s = [3])
   \<and> (\<exists>s. reachable sm_init sm_step s \<and> sm_writers s = [4, 5])"
proof
  obtain s where "sm_run sm_bad_events sm_start = Some s" "sm_writers s = [4]" "sm_readers s = [3]"
    by (simp add: sm_bad_events_def sm_start_def sm_unlocked_def sm_op_defs dec_size_def)
  then show "\<exists>s. reachable sm_init sm_step s \<and> sm_writers s = [4] \<and> sm_readers s = [3]"
    using sm_run_reachable [OF sm_start_reachable(1)] by blast
  obtain t where "sm_run (sm_bad_events @ [Lock 5, Unlock_read 3]) sm_start = Some t" "sm_writers t = [4, 5]"
    by (simp add: sm_bad_events_def sm_start_def sm_unlocked_def sm_op_defs dec_size_def)
  then show "\<exists>s. reachable sm_init sm_step s \<and> sm_writers s = [4, 5]"
    using sm_run_reachable [OF sm_start_reachable(1)] by blast
qed

text \<open>
  Two writers in turn, each asking for the mutex before the other releases it, while reader 9 waits.
\<close>

definition sm_lap :: "nat \<Rightarrow> sm_sys" where
  "sm_lap i = (let busy = sm_unlocked\<lparr>sm_writer_active := True, sm_shared_waiters := [9]\<rparr>
     in \<lparr>sm_mutex = (if i mod 4 = 1 then busy\<lparr>sm_writers_waiting := 1, sm_unique_waiters := [2]\<rparr>
                    else if i mod 4 = 3 then busy\<lparr>sm_writers_waiting := 1, sm_unique_waiters := [1]\<rparr>
                    else busy),
         sm_writers = [if i mod 4 < 2 then 1 else 2], sm_readers = [], sm_wakers = 0\<rparr>)"

definition sm_lap_event :: "nat \<Rightarrow> sm_event" where
  "sm_lap_event i = [Lock 2, Unlock_write 1, Lock 1, Unlock_write 2] ! (i mod 4)"

lemma mod_4_cases: "(i :: nat) mod 4 = 0 \<or> i mod 4 = 1 \<or> i mod 4 = 2 \<or> i mod 4 = 3"
  by linarith

lemma sm_lap_exec: "sm_exec (sm_lap_event i) (sm_lap i) = Some (sm_lap (Suc i))"
  using mod_4_cases [of i]
  by (auto simp: sm_lap_event_def sm_lap_def mod_Suc sm_unlocked_def sm_op_defs dec_size_def)

text \<open>
  C15: readers can starve. There is an endless run, calm at every step, in which two writers are given
  the mutex and release it again and again, each asking for it before the other releases, while
  reader 9, which asked before all of them but the first, waits for ever: a release with a writer
  waiting hands the mutex on to that writer.
\<close>

theorem sm_readers_starve:
  "\<exists>run. reachable sm_init sm_calm_step (run 0)
     \<and> (\<forall>i. sm_calm_step (run i) (run (Suc i))
          \<and> 9 \<in> set (sm_shared_waiters (sm_mutex (run i))) \<and> 9 \<notin> set (sm_readers (run i)))
     \<and> (\<forall>i. \<exists>j. sm_writers (run (i + j)) = [1]) \<and> (\<forall>i. \<exists>j. sm_writers (run (i + j)) = [2])"
proof (intro exI [of _ sm_lap] conjI allI)
  have "sm_calm_run [Lock 1, Lock_shared 9] sm_start = Some (sm_lap 0)"
    by (simp add: sm_start_def sm_lap_def sm_unlocked_def sm_op_defs)
  then show "reachable sm_init sm_calm_step (sm_lap 0)" by (rule sm_calm_run_reachable [OF sm_start_reachable(2)])
  fix i
  show "sm_calm_step (sm_lap i) (sm_lap (Suc i))" by (rule sm_calm [OF sm_lap_exec]) (simp add: sm_lap_def Let_def)
  show "9 \<in> set (sm_shared_waiters (sm_mutex (sm_lap i)))" "9 \<notin> set (sm_readers (sm_lap i))"
    by (simp_all add: sm_lap_def Let_def)
  have "Suc (Suc (4 * i)) mod 4 = 2" by presburger
  then have "sm_writers (sm_lap (i + 3 * i)) = [1]" "sm_writers (sm_lap (i + (3 * i + 2))) = [2]"
    by (simp_all add: sm_lap_def Let_def)
  then show "\<exists>j. sm_writers (sm_lap (i + j)) = [1]" "\<exists>j. sm_writers (sm_lap (i + j)) = [2]" by blast+
qed

text \<open>
  No lost wake-up, in every interleaving. Whenever a reader or a writer waits, some
  fiber still holds the mutex or some thread is still in the wake loop; so when everyone
  has left, the mutex is back in its initial state with nobody waiting.
\<close>

lemma sm_no_lost_waiter:
  assumes "reachable sm_init sm_step s"
  shows "(sm_unique_waiters (sm_mutex s) \<noteq> [] \<or> sm_shared_waiters (sm_mutex s) \<noteq> [] \<longrightarrow>
       sm_writers s \<noteq> [] \<or> sm_readers s \<noteq> [] \<or> 0 < sm_wakers s)
   \<and> (sm_writers s = [] \<and> sm_readers s = [] \<and> sm_wakers s = 0 \<longrightarrow> sm_mutex s = sm_unlocked)"
  using sm.reachable_progress [OF assms] sm.reachable_inv [OF assms]
  by (auto simp: sm_waiting_def sm_release_enabled_def sm_inv_def sm_unlocked_def)

lemma sm_one_writer_reachable: "reachable sm_init sm_step sm_one_writer"
  using sm_start_reachable(1) sm_event_step [OF sm_one_writer_exec] by (rule reachable.next_state)

lemma sm_no_lost_waiter_witness:
  "\<exists>s. sm_run [Lock 1, Lock 2] sm_start = Some s \<and> sm_unique_waiters (sm_mutex s) = [2]
     \<and> 0 < length (sm_writers s) + length (sm_readers s) + sm_wakers s"
proof -
  obtain s where s: "sm_run [Lock 1, Lock 2] sm_start = Some s" "sm_unique_waiters (sm_mutex s) = [2]"
    by (simp add: sm_start_def sm_unlocked_def sm_op_defs)
  from sm_no_lost_waiter [OF sm_run_reachable [OF sm_start_reachable(1) s(1)]] s
  show ?thesis by auto
qed

text \<open>
  The counters never wrap, in every interleaving: the number of readers that hold the
  mutex is \<open>reader_count_\<close>, positive whenever a reader releases, and \<open>writers_waiting_\<close> is the
  length of the writers' queue, so both are decremented above zero only.
\<close>

lemma sm_counters_exact:
  assumes "reachable sm_init sm_step s"
  shows "sm_reader_count (sm_mutex s) = length (sm_readers s)
     \<and> sm_writers_waiting (sm_mutex s) = length (sm_unique_waiters (sm_mutex s))
     \<and> (h \<in> set (sm_readers s) \<longrightarrow>
          sm_reader_count (fst (sm_unlock_shared (sm_mutex s))) + 1 = sm_reader_count (sm_mutex s))"
proof -
  have agree: "sm_counts_agree s" by (rule sm.reachable_compatible [OF assms])
  then have "sm_reader_count (fst (sm_unlock_shared (sm_mutex s))) + 1 = sm_reader_count (sm_mutex s)"
    if "h \<in> set (sm_readers s)"
  proof -
    from that obtain n where "length (sm_readers s) = Suc n" by (cases "sm_readers s") auto
    with agree show ?thesis by (auto simp: sm_counts_agree_def sm_op_defs split: list.splits)
  qed
  with agree show ?thesis by (simp add: sm_counts_agree_def)
qed

lemma sm_counters_exact_witness: "sm_reader_count (sm_mutex sm_one_writer) = 0"
  using sm_counters_exact [OF sm_one_writer_reachable, of 1] by (simp add: sm_one_writer_def)

text \<open>
  Writers go first, in arrival order. While a writer waits, a new reader is never let
  in, a releasing writer hands the mutex to the first waiting writer, and so does the last
  releasing reader.
\<close>

lemma sm_writers_first:
  assumes "reachable sm_init sm_step s" and "sm_unique_waiters (sm_mutex s) = w # ws"
  shows "snd (sm_async_lock_shared h (sm_mutex s)) = None
     \<and> snd (sm_unlock (sm_mutex s)) = Writer w
     \<and> (length (sm_readers s) = 1 \<longrightarrow> snd (sm_unlock_shared (sm_mutex s)) = Some w)"
  using sm.reachable_inv [OF assms(1)] assms(2)
  by (auto simp: sm_inv_def sm_op_defs dec_size_def)

lemma sm_writers_first_witness:
  "\<exists>s. sm_run [Lock 1, Lock 2] sm_start = Some s \<and> snd (sm_unlock (sm_mutex s)) = Writer 2"
proof -
  obtain s where s: "sm_run [Lock 1, Lock 2] sm_start = Some s" "sm_unique_waiters (sm_mutex s) = [2]"
    by (simp add: sm_start_def sm_unlocked_def sm_op_defs)
  from sm_writers_first [OF sm_run_reachable [OF sm_start_reachable(1) s(1)] s(2), of 0] s(1)
  show ?thesis by blast
qed

lemma sm_wake_rounds_all:
  "n = length (sm_shared_waiters m) \<Longrightarrow> sm_wake_rounds n m =
     (m\<lparr>sm_shared_waiters := [], sm_reader_count := sm_reader_count m + length (sm_shared_waiters m)\<rparr>,
      sm_shared_waiters m)"
proof (induction n arbitrary: m)
  case 0
  then show ?case by simp
next
  case (Suc n)
  then obtain f fs where fs: "sm_shared_waiters m = f # fs" by (cases "sm_shared_waiters m") auto
  let ?m = "m\<lparr>sm_shared_waiters := fs, sm_reader_count := sm_reader_count m + 1\<rparr>"
  have "n = length (sm_shared_waiters ?m)" using Suc.prems fs by simp
  from Suc.IH [OF this] fs show ?case by (simp add: sm_wake_def)
qed

text \<open>
  A writer's release with no writer waiting wakes every waiting reader, in arrival
  order: run to its end, the loop counts them all in and empties the queue.
\<close>

lemma sm_unlock_wakes_all_readers:
  assumes "sm_unique_waiters m = []"
  shows "sm_unlock_run m =
     (m\<lparr>sm_writer_active := False, sm_shared_waiters := [],
        sm_reader_count := sm_reader_count m + length (sm_shared_waiters m)\<rparr>,
      sm_shared_waiters m)"
  using assms
  by (auto simp: sm_unlock_run_def sm_unlock_def sm_wake_def Let_def sm_wake_rounds_all split: list.splits)

lemma sm_unlock_wakes_all_readers_witness:
  "snd (sm_unlock_run (sm_unlocked\<lparr>sm_writer_active := True, sm_shared_waiters := [2, 3]\<rparr>)) = [2, 3]"
proof -
  let ?m = "sm_unlocked\<lparr>sm_writer_active := True, sm_shared_waiters := [2, 3]\<rparr>"
  have "sm_unique_waiters ?m = []" by (simp add: sm_unlocked_def)
  from sm_unlock_wakes_all_readers [OF this] show ?thesis by simp
qed

end
