(* ===== verification/Partition.thy ===== *)
theory Partition
  imports MessageQueue SharedMutex
begin

section \<open>Partitions (\<open>src/partition.h\<close>)\<close>

text \<open>
  A partition is a queue and a reader-writer mutex. Its operations forward to the queue and
  do not lock: the callers take the lock around them.
\<close>

record partition_t =
  pt_queue :: message_queue_t
  pt_mutex :: shared_mutex_t

definition partition_new :: partition_t where
  "partition_new = \<lparr>pt_queue = mq_empty_queue, pt_mutex = sm_unlocked\<rparr>"

definition partition_read_lock :: "fiber \<Rightarrow> partition_t \<Rightarrow> partition_t \<times> fiber option" where
  "partition_read_lock h p = (let (m, g) = sm_async_lock_shared h (pt_mutex p) in (p\<lparr>pt_mutex := m\<rparr>, g))"

definition partition_write_lock :: "fiber \<Rightarrow> partition_t \<Rightarrow> partition_t \<times> fiber option" where
  "partition_write_lock h p = (let (m, g) = sm_async_lock h (pt_mutex p) in (p\<lparr>pt_mutex := m\<rparr>, g))"

definition partition_begin :: "partition_t \<Rightarrow> ptr" where
  "partition_begin p = mq_begin (pt_queue p)"

definition partition_end :: "partition_t \<Rightarrow> ptr" where
  "partition_end p = mq_end (pt_queue p)"

definition partition_front :: "partition_t \<Rightarrow> ptr" where
  "partition_front p = mq_front (pt_queue p)"

definition partition_back :: "partition_t \<Rightarrow> ptr" where
  "partition_back p = mq_back (pt_queue p)"

definition partition_push :: "allocator \<Rightarrow> heap \<Rightarrow> partition_t \<Rightarrow> byte list
    \<Rightarrow> fault + heap \<times> partition_t \<times> ptr" where
  "partition_push malloc h p msg =
     rbind (mq_push malloc h (pt_queue p) msg) (\<lambda>(h', q', it). Inr (h', p\<lparr>pt_queue := q'\<rparr>, it))"

definition partition_pop :: "heap \<Rightarrow> partition_t \<Rightarrow> fault + heap \<times> partition_t" where
  "partition_pop h p = rbind (mq_pop h (pt_queue p)) (\<lambda>(h', q'). Inr (h', p\<lparr>pt_queue := q'\<rparr>))"

definition partition_size :: "partition_t \<Rightarrow> nat" where
  "partition_size p = mq_size (pt_queue p)"

definition partition_empty :: "partition_t \<Rightarrow> bool" where
  "partition_empty p \<longleftrightarrow> mq_empty (pt_queue p)"

subsection \<open>Taking and releasing the lock\<close>

text \<open>
  The sequential reading of \<open>auto lock = co_await ...\<close>, for one fiber that is run alone: if the lock is
  granted at once, the handler that \<open>async_lock\<close> posts is what runs next, so the fiber goes on;
  \<open>Suspended\<close> says that the lock is not free, so that somebody else has to run first. In
  \<open>LockedPartition\<close> every request for a lock is a suspension. A guard leaving its scope releases
  the lock.
\<close>

definition await_write :: "fiber \<Rightarrow> partition_t \<Rightarrow> fault + partition_t" where
  "await_write h p = (case partition_write_lock h p of
      (p', Some g) \<Rightarrow> Inr p' | (p', None) \<Rightarrow> Inl Suspended)"

definition await_read :: "fiber \<Rightarrow> partition_t \<Rightarrow> fault + partition_t" where
  "await_read h p = (case partition_read_lock h p of
      (p', Some g) \<Rightarrow> Inr p' | (p', None) \<Rightarrow> Inl Suspended)"

definition release_write :: "partition_t \<Rightarrow> partition_t" where
  "release_write p = p\<lparr>pt_mutex := fst (sm_unlock_run (pt_mutex p))\<rparr>"

definition release_read :: "partition_t \<Rightarrow> partition_t" where
  "release_read p = p\<lparr>pt_mutex := fst (sm_unlock_shared (pt_mutex p))\<rparr>"

lemma await_write_free:
  "pt_mutex p = sm_unlocked \<Longrightarrow>
     await_write h p = Inr (p\<lparr>pt_mutex := sm_unlocked\<lparr>sm_writer_active := True\<rparr>\<rparr>)"
  by (simp add: await_write_def partition_write_lock_def sm_async_lock_def sm_unlocked_def)

lemma await_read_free:
  "pt_mutex p = sm_unlocked \<Longrightarrow>
     await_read h p = Inr (p\<lparr>pt_mutex := sm_unlocked\<lparr>sm_reader_count := 1\<rparr>\<rparr>)"
  by (simp add: await_read_def partition_read_lock_def sm_async_lock_shared_def sm_unlocked_def)

lemma release_write_alone:
  "pt_mutex p = sm_unlocked\<lparr>sm_writer_active := True\<rparr> \<Longrightarrow> release_write p = p\<lparr>pt_mutex := sm_unlocked\<rparr>"
  by (simp add: release_write_def sm_unlock_run_def sm_unlock_def sm_wake_def sm_unlocked_def)

lemma release_read_alone:
  "pt_mutex p = sm_unlocked\<lparr>sm_reader_count := 1\<rparr> \<Longrightarrow> release_read p = p\<lparr>pt_mutex := sm_unlocked\<rparr>"
  by (simp add: release_read_def sm_unlock_shared_def sm_unlocked_def dec_size_def)

subsection \<open>Storage: several partitions on one heap\<close>

text \<open>
  The partitions of a topic share the heap. \<open>storage_wf\<close>: every queue is well formed, no lock
  is held, and no cell belongs to two queues.
\<close>

definition pt_addrs :: "heap \<Rightarrow> partition_t \<Rightarrow> ptr set" where
  "pt_addrs h p = set (mq_addrs h (pt_queue p))"

definition storage_wf :: "heap \<Rightarrow> partition_t list \<Rightarrow> bool" where
  "storage_wf h ps \<longleftrightarrow>
     (\<forall>i<length ps. mq_wf h (pt_queue (ps ! i)) \<and> pt_mutex (ps ! i) = sm_unlocked)
   \<and> (\<forall>i<length ps. \<forall>j<length ps. i \<noteq> j \<longrightarrow> pt_addrs h (ps ! i) \<inter> pt_addrs h (ps ! j) = {})"

definition storage_abs :: "heap \<Rightarrow> partition_t list \<Rightarrow> byte list list list" where
  "storage_abs h ps = map (\<lambda>p. mq_abs h (pt_queue p)) ps"

definition storage_addrs :: "heap \<Rightarrow> partition_t list \<Rightarrow> ptr set" where
  "storage_addrs h ps = (\<Union>p\<in>set ps. pt_addrs h p)"

lemma length_storage_abs [simp]: "length (storage_abs h ps) = length ps"
  by (simp add: storage_abs_def)

lemma storage_abs_nth: "i < length ps \<Longrightarrow> storage_abs h ps ! i = mq_abs h (pt_queue (ps ! i))"
  by (simp add: storage_abs_def)

lemma storage_addrs_live: "storage_wf h ps \<Longrightarrow> a \<in> storage_addrs h ps \<Longrightarrow> a \<noteq> 0 \<and> h a \<noteq> None"
proof -
  assume wf: "storage_wf h ps" and "a \<in> storage_addrs h ps"
  then obtain p where p: "p \<in> set ps" "a \<in> set (mq_addrs h (pt_queue p))"
    by (auto simp: storage_addrs_def pt_addrs_def)
  then have "mq_wf h (pt_queue p)" using wf by (auto simp: storage_wf_def in_set_conv_nth)
  then show ?thesis using p(2) by (rule mq_addrs_live)
qed

lemma storage_wf_new: "storage_wf h (replicate n partition_new)"
  by (simp add: storage_wf_def partition_new_def pt_addrs_def)

lemma storage_abs_new: "storage_abs h (replicate n partition_new) = replicate n []"
  by (simp add: storage_abs_def partition_new_def map_replicate_const)

lemma storage_addrs_new: "storage_addrs h (replicate n partition_new) = {}"
  by (auto simp: storage_addrs_def partition_new_def pt_addrs_def)

text \<open>Cells outside a storage do not matter to it.\<close>

lemma storage_frame:
  assumes "storage_wf h ps" and "\<And>a. a \<in> storage_addrs h ps \<Longrightarrow> h' a = h a"
  shows "storage_wf h' ps" and "storage_abs h' ps = storage_abs h ps"
    and "storage_addrs h' ps = storage_addrs h ps"
proof -
  have q: "mq_wf h' (pt_queue p)" "mq_addrs h' (pt_queue p) = mq_addrs h (pt_queue p)"
    "mq_abs h' (pt_queue p) = mq_abs h (pt_queue p)" if p: "p \<in> set ps" for p
  proof -
    have wf: "mq_wf h (pt_queue p)" using assms(1) p by (auto simp: storage_wf_def in_set_conv_nth)
    have "\<And>a. a \<in> set (mq_addrs h (pt_queue p)) \<Longrightarrow> h' a = h a"
      using assms(2) p by (auto simp: storage_addrs_def pt_addrs_def)
    from mq_frame [OF wf this] show "mq_wf h' (pt_queue p)"
      "mq_addrs h' (pt_queue p) = mq_addrs h (pt_queue p)"
      "mq_abs h' (pt_queue p) = mq_abs h (pt_queue p)" by auto
  qed
  then show "storage_wf h' ps" using assms(1) by (auto simp: storage_wf_def pt_addrs_def)
  from q show "storage_abs h' ps = storage_abs h ps" by (simp add: storage_abs_def)
  from q show "storage_addrs h' ps = storage_addrs h ps" by (simp add: storage_addrs_def pt_addrs_def)
qed

text \<open>
  One queue changes: it keeps or frees its own cells and may take free ones.
\<close>

lemma storage_update:
  assumes wf: "storage_wf h ps" and i: "i < length ps"
    and p': "mq_wf h' (pt_queue p')" "pt_mutex p' = sm_unlocked"
    and out: "\<And>a. a \<notin> pt_addrs h (ps ! i) \<Longrightarrow> a \<notin> pt_addrs h' p' \<Longrightarrow> h' a = h a"
    and new: "\<And>a. a \<in> pt_addrs h' p' \<Longrightarrow> a \<in> pt_addrs h (ps ! i) \<or> h a = None"
  shows "storage_wf h' (ps[i := p'])"
    and "storage_abs h' (ps[i := p']) = (storage_abs h ps)[i := mq_abs h' (pt_queue p')]"
    and "storage_addrs h' (ps[i := p']) = (storage_addrs h ps - pt_addrs h (ps ! i)) \<union> pt_addrs h' p'"
proof -
  have other: "pt_addrs h (ps ! j) \<inter> pt_addrs h' p' = {}" if j: "j < length ps" "j \<noteq> i" for j
  proof -
    have "pt_addrs h (ps ! j) \<inter> pt_addrs h (ps ! i) = {}" using wf i j by (auto simp: storage_wf_def)
    moreover have "\<And>a. a \<in> pt_addrs h (ps ! j) \<Longrightarrow> h a \<noteq> None"
      using wf j mq_addrs_live by (auto simp: storage_wf_def pt_addrs_def)
    ultimately show ?thesis using new by blast
  qed
  have q: "mq_wf h' (pt_queue (ps ! j))" "mq_addrs h' (pt_queue (ps ! j)) = mq_addrs h (pt_queue (ps ! j))"
    "mq_abs h' (pt_queue (ps ! j)) = mq_abs h (pt_queue (ps ! j))" if j: "j < length ps" "j \<noteq> i" for j
  proof -
    have wfj: "mq_wf h (pt_queue (ps ! j))" using wf j by (simp add: storage_wf_def)
    have "pt_addrs h (ps ! j) \<inter> pt_addrs h (ps ! i) = {}" using wf i j by (auto simp: storage_wf_def)
    with other [OF j] out have "\<And>a. a \<in> set (mq_addrs h (pt_queue (ps ! j))) \<Longrightarrow> h' a = h a"
      by (auto simp: pt_addrs_def)
    from mq_frame [OF wfj this] show "mq_wf h' (pt_queue (ps ! j))"
      "mq_addrs h' (pt_queue (ps ! j)) = mq_addrs h (pt_queue (ps ! j))"
      "mq_abs h' (pt_queue (ps ! j)) = mq_abs h (pt_queue (ps ! j))" by auto
  qed
  then have addrs: "pt_addrs h' (ps ! j) = pt_addrs h (ps ! j)" if "j < length ps" "j \<noteq> i" for j
    using that by (simp add: pt_addrs_def)
  show "storage_wf h' (ps[i := p'])"
    unfolding storage_wf_def
  proof (intro conjI allI impI)
    fix j assume j: "j < length (ps[i := p'])"
    show "mq_wf h' (pt_queue (ps[i := p'] ! j))" "pt_mutex (ps[i := p'] ! j) = sm_unlocked"
      using j p' q(1) [of j] wf by (cases "j = i"; simp add: storage_wf_def)+
    fix k assume k: "k < length (ps[i := p'])" and jk: "j \<noteq> k"
    show "pt_addrs h' (ps[i := p'] ! j) \<inter> pt_addrs h' (ps[i := p'] ! k) = {}"
      using j k jk i other addrs wf by (cases "j = i"; cases "k = i") (auto simp: storage_wf_def)
  qed
  show "storage_abs h' (ps[i := p']) = (storage_abs h ps)[i := mq_abs h' (pt_queue p')]"
    using i q(3) by (intro nth_equalityI) (auto simp: storage_abs_def nth_list_update)
  show "storage_addrs h' (ps[i := p']) = (storage_addrs h ps - pt_addrs h (ps ! i)) \<union> pt_addrs h' p'"
  proof (rule set_eqI)
    fix a
    have "a \<in> storage_addrs h' (ps[i := p']) \<longleftrightarrow>
        (\<exists>j<length ps. j \<noteq> i \<and> a \<in> pt_addrs h' (ps ! j)) \<or> a \<in> pt_addrs h' p'"
      using i unfolding storage_addrs_def UN_iff Bex_def in_set_conv_nth length_list_update
      by (metis nth_list_update)
    moreover have "a \<in> storage_addrs h ps - pt_addrs h (ps ! i) \<longleftrightarrow>
        (\<exists>j<length ps. j \<noteq> i \<and> a \<in> pt_addrs h (ps ! j))"
      using wf i by (auto simp: storage_addrs_def in_set_conv_nth storage_wf_def intro: nth_mem)
    ultimately show "a \<in> storage_addrs h' (ps[i := p']) \<longleftrightarrow>
        a \<in> (storage_addrs h ps - pt_addrs h (ps ! i)) \<union> pt_addrs h' p'"
      using addrs by blast
  qed
qed

end
