(* ===== verification/Topic.thy ===== *)
theory Topic
  imports Wall Partition
begin

section \<open>Topics (\<open>src/topic.h\<close>)\<close>

text \<open>
  A topic owns a log writer and a vector of partitions. \<open>push\<close>, \<open>read\<close> and \<open>remove\<close> are
  modelled with every lock, log write, queue operation and unlock in the code's order.
  \<open>remove\<close> has two critical sections, \<open>remove_check\<close> and \<open>remove_commit\<close>; other fibers can
  run in between. Heap and file system are passed along in \<open>env_t\<close>. The hash functor is a
  template parameter and so an argument.
\<close>

record env_t =
  en_heap :: heap
  en_files :: file_system

record topic_t =
  tp_offset_id :: u64
  tp_wall_write :: wall_writer_t
  tp_storage :: "partition_t list"
  tp_mutex :: shared_mutex_t
  tp_wall_mutex :: unique_mutex_t

type_synonym hash_func = "request_t \<Rightarrow> fault + u64"

subsection \<open>Operations\<close>

text \<open>The members are initialised before the body runs: the log file is opened first.\<close>

definition topic_ctor :: "(byte list \<Rightarrow> bool) \<Rightarrow> nat \<Rightarrow> byte list \<Rightarrow> env_t \<Rightarrow> fault + env_t \<times> topic_t" where
  "topic_ctor can_open partitions_count name env =
     rbind (wall_writer_ctor can_open (en_files env) name) (\<lambda>(fs, w).
     rbind (kassert_lt partitions_count (unat INVALID_TOPIC_ID)) (\<lambda>_.
       Inr (env\<lparr>en_files := fs\<rparr>,
            \<lparr>tp_offset_id = 0, tp_wall_write = w, tp_storage = replicate partitions_count partition_new,
             tp_mutex = sm_unlocked, tp_wall_mutex = um_unlocked\<rparr>)))"

text \<open>The topic's own mutex; none of the operations below takes it.\<close>

definition topic_read_lock :: "fiber \<Rightarrow> topic_t \<Rightarrow> topic_t \<times> fiber option" where
  "topic_read_lock h T = (let (m, g) = sm_async_lock_shared h (tp_mutex T) in (T\<lparr>tp_mutex := m\<rparr>, g))"

definition topic_write_lock :: "fiber \<Rightarrow> topic_t \<Rightarrow> topic_t \<times> fiber option" where
  "topic_write_lock h T = (let (m, g) = sm_async_lock h (tp_mutex T) in (T\<lparr>tp_mutex := m\<rparr>, g))"

text \<open>\<open>storage_[i]\<close> without a bounds check.\<close>

definition storage_at :: "topic_t \<Rightarrow> u16 \<Rightarrow> fault + partition_t" where
  "storage_at T i =
     (if unat i < length (tp_storage T) then Inr (tp_storage T ! unat i) else Inl Out_of_bounds)"

definition set_storage :: "u16 \<Rightarrow> partition_t \<Rightarrow> topic_t \<Rightarrow> topic_t" where
  "set_storage i p T = T\<lparr>tp_storage := (tp_storage T)[unat i := p]\<rparr>"

text \<open>
  The partition of a push: the requested one, or for \<open>INVALID_TOPIC_ID\<close> the hash modulo the
  number of partitions, narrowed to 16 bits.
\<close>

definition push_index :: "hash_func \<Rightarrow> request_t \<Rightarrow> topic_t \<Rightarrow> fault + u16" where
  "push_index hash r T =
     (if partition_id r = INVALID_TOPIC_ID then
        rbind (hash r) (\<lambda>v.
          if tp_storage T = [] then Inl Division_by_zero
          else Inr (of_nat (unat v mod length (tp_storage T))))
      else Inr (partition_id r))"

definition wall_data_for :: "u16 \<Rightarrow> bool \<Rightarrow> request_t \<Rightarrow> wall_data_t" where
  "wall_data_for i is_push r =
     \<lparr>wd_magic = WALL_DATA_MAGIC, wd_identifier = i, wd_is_push_operation = is_push,
      wd_message = message_view r\<rparr>"

text \<open>The block under \<open>wall_mutex_\<close>: lock, store the record's image, unlock.\<close>

definition topic_log :: "fiber \<Rightarrow> nat \<Rightarrow> wall_data_t \<Rightarrow> file_system \<Rightarrow> topic_t \<Rightarrow> fault + file_system \<times> topic_t" where
  "topic_log h pad d fs T =
     (case um_async_lock h (tp_wall_mutex T) of
        (m, None) \<Rightarrow> Inl Suspended
      | (m, Some g) \<Rightarrow>
          (let (fs', w') = store_raw (tp_wall_write T) (wall_data_image pad d) sizeof_wall_data fs
           in Inr (fs', T\<lparr>tp_wall_write := w', tp_wall_mutex := fst (um_unlock m)\<rparr>)))"

definition topic_push :: "allocator \<Rightarrow> hash_func \<Rightarrow> nat \<Rightarrow> fiber \<Rightarrow> request_t \<Rightarrow> env_t \<times> topic_t
    \<Rightarrow> fault + env_t \<times> topic_t" where
  "topic_push malloc hash pad h r s = (case s of (env, T) \<Rightarrow>
     rbind (push_index hash r T) (\<lambda>i.
     rbind (storage_at T i) (\<lambda>p.
     rbind (await_write h p) (\<lambda>p1.
     rbind (topic_log h pad (wall_data_for i True r) (en_files env) T) (\<lambda>(fs, T1).
     rbind (view_read r (message_view r)) (\<lambda>msg.
     rbind (partition_push malloc (en_heap env) p1 msg) (\<lambda>(hp, p2, it).
       Inr (env\<lparr>en_heap := hp, en_files := fs\<rparr>, set_storage i (release_write p2) T1))))))))"

definition topic_read :: "fiber \<Rightarrow> u16 \<Rightarrow> env_t \<times> topic_t \<Rightarrow> fault + (env_t \<times> topic_t) \<times> byte list option" where
  "topic_read h i s = (case s of (env, T) \<Rightarrow>
     rbind (kassert_ne i INVALID_TOPIC_ID) (\<lambda>_.
     rbind (storage_at T i) (\<lambda>p.
     rbind (await_read h p) (\<lambda>p1.
       if partition_empty p1 then Inr ((env, set_storage i (release_read p1) T), None)
       else rbind (iter_deref (en_heap env) (partition_front p1)) (\<lambda>d.
         Inr ((env, set_storage i (release_read p1) T), Some d))))))"

text \<open>The first critical section of \<open>remove\<close>, under the read lock.\<close>

definition remove_check :: "fiber \<Rightarrow> request_t \<Rightarrow> env_t \<times> topic_t \<Rightarrow> fault + (env_t \<times> topic_t) \<times> bool" where
  "remove_check h r s = (case s of (env, T) \<Rightarrow> let i = partition_id r in
     rbind (kassert_ne i INVALID_TOPIC_ID) (\<lambda>_.
     rbind (storage_at T i) (\<lambda>p.
     rbind (await_read h p) (\<lambda>p1.
     rbind (iter_deref (en_heap env) (partition_front p1)) (\<lambda>d.
     rbind (view_read r (message_view r)) (\<lambda>msg.
       Inr ((env, set_storage i (release_read p1) T), d = msg)))))))"

text \<open>The second, under the write lock: compare again, log, pop.\<close>

definition remove_commit :: "nat \<Rightarrow> fiber \<Rightarrow> request_t \<Rightarrow> env_t \<times> topic_t \<Rightarrow> fault + (env_t \<times> topic_t) \<times> bool" where
  "remove_commit pad h r s = (case s of (env, T) \<Rightarrow> let i = partition_id r in
     rbind (storage_at T i) (\<lambda>p.
     rbind (await_write h p) (\<lambda>p1.
     rbind (iter_deref (en_heap env) (partition_front p1)) (\<lambda>d.
     rbind (view_read r (message_view r)) (\<lambda>msg.
       if d \<noteq> msg then Inr ((env, set_storage i (release_write p1) T), False)
       else
         rbind (topic_log h pad (wall_data_for i False r) (en_files env) T) (\<lambda>(fs, T1).
         rbind (partition_pop (en_heap env) p1) (\<lambda>(hp, p2).
           Inr ((env\<lparr>en_heap := hp, en_files := fs\<rparr>, set_storage i (release_write p2) T1), True))))))))"

definition topic_remove :: "nat \<Rightarrow> fiber \<Rightarrow> request_t \<Rightarrow> env_t \<times> topic_t \<Rightarrow> fault + (env_t \<times> topic_t) \<times> bool" where
  "topic_remove pad h r s =
     rbind (remove_check h r s) (\<lambda>(s1, found).
       if \<not> found then Inr (s1, False) else remove_commit pad h r s1)"

subsection \<open>Well-formed topics\<close>

definition topic_wf :: "env_t \<times> topic_t \<Rightarrow> bool" where
  "topic_wf s \<longleftrightarrow> (case s of (env, T) \<Rightarrow>
     storage_wf (en_heap env) (tp_storage T) \<and> tp_wall_mutex T = um_unlocked
     \<and> at_end (en_files env) (tp_wall_write T) \<and> length (tp_storage T) < 65535)"

definition topic_abs :: "env_t \<times> topic_t \<Rightarrow> byte list list list" where
  "topic_abs s = (case s of (env, T) \<Rightarrow> storage_abs (en_heap env) (tp_storage T))"

definition topic_file :: "env_t \<times> topic_t \<Rightarrow> byte list" where
  "topic_file s = (case s of (env, T) \<Rightarrow> file_of (en_files env) (ww_path (tp_wall_write T)))"

definition topic_path :: "env_t \<times> topic_t \<Rightarrow> byte list" where
  "topic_path s = ww_path (tp_wall_write (snd s))"

definition topic_addrs :: "env_t \<times> topic_t \<Rightarrow> ptr set" where
  "topic_addrs s = (case s of (env, T) \<Rightarrow> storage_addrs (en_heap env) (tp_storage T))"

lemmas topic_defs = topic_wf_def topic_abs_def topic_file_def topic_path_def topic_addrs_def

text \<open>
  What an operation on one topic may do to the rest of the world: live cells outside the
  topic and other files stay as they are, the topic only takes free cells, and it frees
  every cell it gives up.
\<close>

definition topic_frame :: "env_t \<times> topic_t \<Rightarrow> env_t \<times> topic_t \<Rightarrow> bool" where
  "topic_frame s t \<longleftrightarrow>
     (\<forall>a. a \<notin> topic_addrs s \<longrightarrow> en_heap (fst s) a \<noteq> None \<longrightarrow> en_heap (fst t) a = en_heap (fst s) a)
   \<and> topic_addrs t \<subseteq> topic_addrs s \<union> {a. en_heap (fst s) a = None}
   \<and> dom (en_heap (fst t)) - topic_addrs t = dom (en_heap (fst s)) - topic_addrs s
   \<and> topic_path t = topic_path s \<and> length (tp_storage (snd t)) = length (tp_storage (snd s))
   \<and> (\<forall>path. path \<noteq> topic_path s \<longrightarrow> en_files (fst t) path = en_files (fst s) path)"

lemma topic_frame_refl [simp]: "topic_frame s s"
  by (simp add: topic_frame_def)

lemma length_topic_abs: "length (topic_abs (env, T)) = length (tp_storage T)"
  by (simp add: topic_abs_def)

lemma topic_log_free:
  assumes "tp_wall_mutex T = um_unlocked"
  shows "topic_log h pad d fs T = Inr (fst (store_span (tp_wall_write T) (wall_data_image pad d) fs),
     T\<lparr>tp_wall_write := snd (store_span (tp_wall_write T) (wall_data_image pad d) fs)\<rparr>)"
  using assms
  by (simp add: topic_log_def um_async_lock_def um_unlocked_def um_unlock_def store_raw_def
      sizeof_wall_data_def split_beta Let_def)

lemma view_read_message_length: "view_read r (message_view r) = Inr msg \<Longrightarrow> length msg = unat (message_len r)"
  by (auto simp: view_read_message split: if_splits)

lemma view_read_message_fits:
  assumes "view_read r (message_view r) = Inr msg"
  shows "take (length msg mod 2 ^ 16) msg = msg"
  using view_read_message_length [OF assms] unsigned_less [of "message_len r", where ?'a = nat] by simp

end
