(* ===== verification/TopicSpec.thy ===== *)
theory TopicSpec
  imports Topic
begin

section \<open>What topics promise\<close>

text \<open>
  The operations of a topic refine operations on a list of message lists, one per
  partition; the log records every change; and all of it survives any interleaving of the
  critical sections.
\<close>

subsection \<open>The abstract topic\<close>

definition spec_push :: "nat \<Rightarrow> byte list \<Rightarrow> byte list list list \<Rightarrow> byte list list list" where
  "spec_push i msg qs = qs[i := qs ! i @ [msg]]"

definition spec_pop :: "nat \<Rightarrow> byte list list list \<Rightarrow> byte list list list" where
  "spec_pop i qs = qs[i := tl (qs ! i)]"

subsection \<open>The operations on well-formed topics\<close>

lemma in_set_not_tl: "x \<in> set xs \<Longrightarrow> x \<notin> set (tl xs) \<Longrightarrow> x \<in> set (take (Suc 0) xs)"
  by (cases xs) auto

lemma in_set_tl: "x \<in> set (tl xs) \<Longrightarrow> x \<in> set xs"
  by (cases xs) auto

lemma push_index_hash:
  assumes "partition_id r = INVALID_TOPIC_ID" and "hash r = Inr v"
    and "tp_storage T \<noteq> []" and "length (tp_storage T) < 65535"
  shows "\<exists>i. push_index hash r T = Inr i \<and> unat i = unat v mod length (tp_storage T)"
proof -
  have "unat v mod length (tp_storage T) < length (tp_storage T)" using assms(3) by simp
  then have "unat v mod length (tp_storage T) < 65536" using assms(4) by linarith
  then show ?thesis using assms by (simp add: push_index_def unat_of_nat)
qed

text \<open>A change of one partition's queue, packaged for \<open>push\<close> and \<open>remove\<close>.\<close>

lemma topic_wf_update:
  assumes wf: "topic_wf (env, T)" and i: "unat i < length (tp_storage T)"
    and p': "mq_wf h' (pt_queue p')" "pt_mutex p' = sm_unlocked"
    and out: "\<And>a. a \<notin> pt_addrs (en_heap env) (tp_storage T ! unat i) \<Longrightarrow> a \<notin> pt_addrs h' p' \<Longrightarrow> h' a = en_heap env a"
    and new: "\<And>a. a \<in> pt_addrs h' p' \<Longrightarrow>
        a \<in> pt_addrs (en_heap env) (tp_storage T ! unat i) \<or> en_heap env a = None"
    and gone: "\<And>a. a \<in> pt_addrs (en_heap env) (tp_storage T ! unat i) \<Longrightarrow> a \<notin> pt_addrs h' p' \<Longrightarrow> h' a = None"
    and log: "(fs, w) = store_span (tp_wall_write T) data (en_files env)"
    and t: "t = (env\<lparr>en_heap := h', en_files := fs\<rparr>, set_storage i p' (T\<lparr>tp_wall_write := w\<rparr>))"
  shows "topic_wf t" and "topic_abs t = (topic_abs (env, T))[unat i := mq_abs h' (pt_queue p')]"
    and "topic_file t = topic_file (env, T) @ data" and "topic_frame (env, T) t"
proof -
  have st: "storage_wf (en_heap env) (tp_storage T)" and at: "at_end (en_files env) (tp_wall_write T)"
    using wf by (auto simp: topic_wf_def)
  have up: "storage_wf h' ((tp_storage T)[unat i := p'])"
    "storage_abs h' ((tp_storage T)[unat i := p'])
       = (storage_abs (en_heap env) (tp_storage T))[unat i := mq_abs h' (pt_queue p')]"
    "storage_addrs h' ((tp_storage T)[unat i := p'])
       = (storage_addrs (en_heap env) (tp_storage T) - pt_addrs (en_heap env) (tp_storage T ! unat i)) \<union> pt_addrs h' p'"
    by (rule storage_update [OF st i p'], erule (1) out, erule new)+
  note lg = store_appends [OF at, where data = data]
  have eq: "fs = fst (store_span (tp_wall_write T) data (en_files env))"
    "w = snd (store_span (tp_wall_write T) data (en_files env))"
    using log by (metis fst_conv, metis snd_conv)
  show "topic_wf t" using wf up(1) lg(2) by (simp add: t topic_wf_def set_storage_def eq)
  show "topic_abs t = (topic_abs (env, T))[unat i := mq_abs h' (pt_queue p')]"
    using up(2) by (simp add: t topic_abs_def set_storage_def)
  show "topic_file t = topic_file (env, T) @ data"
    using lg(1,3) by (simp add: t topic_file_def set_storage_def eq)
  have sub: "pt_addrs (en_heap env) (tp_storage T ! unat i) \<subseteq> storage_addrs (en_heap env) (tp_storage T)"
    using nth_mem [OF i] by (auto simp: storage_addrs_def)
  have keep: "h' a = en_heap env a"
    if "a \<notin> storage_addrs (en_heap env) (tp_storage T)" "en_heap env a \<noteq> None" for a
  proof -
    have "a \<notin> pt_addrs (en_heap env) (tp_storage T ! unat i)" using that(1) sub by auto
    moreover from this that(2) have "a \<notin> pt_addrs h' p'" using new [of a] by auto
    ultimately show ?thesis by (rule out)
  qed
  have t_simps: "en_heap (fst t) = h'" "en_files (fst t) = fs" "ww_path (tp_wall_write (snd t)) = ww_path w"
    "topic_addrs t = storage_addrs h' ((tp_storage T)[unat i := p'])"
    "length (tp_storage (snd t)) = length (tp_storage T)"
    by (simp_all add: t topic_addrs_def set_storage_def)
  have live: "a \<in> storage_addrs (en_heap env) (tp_storage T) \<Longrightarrow> en_heap env a \<noteq> None" for a
    using storage_addrs_live [OF st] by blast
  have taken: "storage_addrs h' ((tp_storage T)[unat i := p'])
      \<subseteq> storage_addrs (en_heap env) (tp_storage T) \<union> {a. en_heap env a = None}"
    using new sub unfolding up(3) by blast
  have up_wf: "a \<in> pt_addrs h' p' \<Longrightarrow> h' a \<noteq> None" for a
    using mq_addrs_live [OF p'(1)] by (simp add: pt_addrs_def)
  have balance: "dom h' - storage_addrs h' ((tp_storage T)[unat i := p'])
      = dom (en_heap env) - storage_addrs (en_heap env) (tp_storage T)"
  proof (rule set_eqI)
    fix a
    show "a \<in> dom h' - storage_addrs h' ((tp_storage T)[unat i := p'])
        \<longleftrightarrow> a \<in> dom (en_heap env) - storage_addrs (en_heap env) (tp_storage T)"
    proof (cases "a \<in> pt_addrs (en_heap env) (tp_storage T ! unat i) \<or> a \<in> pt_addrs h' p'")
      case True
      then show ?thesis using gone [of a] sub new [of a] unfolding up(3) by auto
    next
      case False
      then show ?thesis using out [of a] unfolding up(3) by (auto simp: dom_def)
    qed
  qed
  show "topic_frame (env, T) t"
    unfolding topic_frame_def t_simps topic_path_def eq lg(3)
    using taken balance lg(4) keep by (simp add: topic_addrs_def)
qed

lemma topic_push_ok:
  assumes wf: "topic_wf (env, T)" and idx: "push_index hash r T = Inr i" "unat i < length (tp_storage T)"
    and msg: "view_read r (message_view r) = Inr msg"
    and mem: "malloc_sound malloc" "malloc (en_heap env) (8 + length msg) \<noteq> 0"
  obtains t where "topic_push malloc hash pad h r (env, T) = Inr t" and "topic_wf t"
    and "topic_abs t = spec_push (unat i) msg (topic_abs (env, T))"
    and "topic_file t = topic_file (env, T) @ wall_data_image pad (wall_data_for i True r)"
    and "topic_frame (env, T) t"
proof -
  let ?p = "tp_storage T ! unat i" and ?data = "wall_data_image pad (wall_data_for i True r)"
  have qwf: "mq_wf (en_heap env) (pt_queue ?p)" and free: "pt_mutex ?p = sm_unlocked"
    using wf idx(2) by (auto simp: topic_wf_def storage_wf_def)
  obtain h' q' where push: "mq_push malloc (en_heap env) (pt_queue ?p) msg = Inr (h', q', mq_begin q')"
    "mq_wf h' q'" "mq_abs h' q' = mq_abs (en_heap env) (pt_queue ?p) @ [msg]"
    "mq_addrs h' q' = mq_addrs (en_heap env) (pt_queue ?p) @ [malloc (en_heap env) (8 + length msg)]"
    "en_heap env (malloc (en_heap env) (8 + length msg)) = None"
    "\<And>a. a \<notin> set (mq_addrs h' q') \<Longrightarrow> h' a = en_heap env a"
    using mq_push_rel_abs [OF qwf mem] view_read_message_fits [OF msg] by metis
  obtain fs w where log: "(fs, w) = store_span (tp_wall_write T) ?data (en_files env)"
    by (metis surj_pair)
  let ?p' = "?p\<lparr>pt_queue := q', pt_mutex := sm_unlocked\<rparr>"
  let ?t = "(env\<lparr>en_heap := h', en_files := fs\<rparr>, set_storage i ?p' (T\<lparr>tp_wall_write := w\<rparr>))"
  have run: "topic_push malloc hash pad h r (env, T) = Inr ?t"
    using wf idx msg push(1) free log [symmetric]
    by (simp add: topic_push_def storage_at_def await_write_free topic_log_free topic_wf_def
        partition_push_def release_write_alone)
  have up: "mq_wf h' (pt_queue ?p')" "pt_mutex ?p' = sm_unlocked"
    "\<And>a. a \<notin> pt_addrs (en_heap env) ?p \<Longrightarrow> a \<notin> pt_addrs h' ?p' \<Longrightarrow> h' a = en_heap env a"
    "\<And>a. a \<in> pt_addrs h' ?p' \<Longrightarrow> a \<in> pt_addrs (en_heap env) ?p \<or> en_heap env a = None"
    "\<And>a. a \<in> pt_addrs (en_heap env) ?p \<Longrightarrow> a \<notin> pt_addrs h' ?p' \<Longrightarrow> h' a = None"
    using push by (auto simp: pt_addrs_def)
  have res: "topic_wf ?t" "topic_abs ?t = (topic_abs (env, T))[unat i := mq_abs h' (pt_queue ?p')]"
    "topic_file ?t = topic_file (env, T) @ ?data" "topic_frame (env, T) ?t"
    by (rule topic_wf_update [OF wf idx(2) up(1,2) _ _ _ log refl], erule (1) up(3), erule up(4), erule (1) up(5))+
  show thesis
  proof (rule that [OF run res(1) _ res(3,4)])
    show "topic_abs ?t = spec_push (unat i) msg (topic_abs (env, T))"
      using idx(2) push(3) unfolding res(2) by (simp add: spec_push_def topic_abs_def storage_abs_nth)
  qed
qed

lemma topic_front:
  assumes wf: "topic_wf (env, T)" and i: "unat i < length (tp_storage T)"
  shows "topic_abs (env, T) ! unat i \<noteq> [] \<Longrightarrow>
      iter_deref (en_heap env) (mq_front (pt_queue (tp_storage T ! unat i))) = Inr (hd (topic_abs (env, T) ! unat i))"
    and "topic_abs (env, T) ! unat i = [] \<Longrightarrow>
      iter_deref (en_heap env) (mq_front (pt_queue (tp_storage T ! unat i))) = Inl Null_dereference"
    and "mq_empty (pt_queue (tp_storage T ! unat i)) \<longleftrightarrow> topic_abs (env, T) ! unat i = []"
    and "pt_mutex (tp_storage T ! unat i) = sm_unlocked"
  using assms iter_deref_front iter_deref_front_empty mq_empty_iff
  by (auto simp: topic_wf_def storage_wf_def topic_abs_def storage_abs_nth)

lemma set_storage_same:
  "pt_mutex (tp_storage T ! unat i) = sm_unlocked \<Longrightarrow>
     set_storage i ((tp_storage T ! unat i)\<lparr>pt_mutex := sm_unlocked\<rparr>) T = T"
proof -
  assume "pt_mutex (tp_storage T ! unat i) = sm_unlocked"
  then have "(tp_storage T ! unat i)\<lparr>pt_mutex := sm_unlocked\<rparr> = tp_storage T ! unat i" by simp
  then show ?thesis by (simp only: set_storage_def list_update_id) simp
qed

lemma topic_read_ok:
  assumes wf: "topic_wf (env, T)" and i: "unat i < length (tp_storage T)"
  shows "topic_read h i (env, T) = Inr ((env, T),
     (case topic_abs (env, T) ! unat i of [] \<Rightarrow> None | m # ms \<Rightarrow> Some m))"
proof -
  let ?p = "tp_storage T ! unat i"
  note f = topic_front [OF wf i]
  have "i \<noteq> INVALID_TOPIC_ID" using wf i by (auto simp: topic_wf_def INVALID_TOPIC_ID_def)
  then show ?thesis
    using i f by (auto simp: topic_read_def kassert_defs storage_at_def await_read_free partition_empty_def
        partition_front_def release_read_alone set_storage_same split: list.splits)
qed

lemma remove_check_ok:
  assumes wf: "topic_wf (env, T)" and i: "unat (partition_id r) < length (tp_storage T)"
    and msg: "view_read r (message_view r) = Inr msg"
  shows "remove_check h r (env, T) = (case topic_abs (env, T) ! unat (partition_id r) of
      [] \<Rightarrow> Inl Null_dereference | m # ms \<Rightarrow> Inr ((env, T), m = msg))"
proof -
  let ?p = "tp_storage T ! unat (partition_id r)"
  note f = topic_front [OF wf i]
  have "partition_id r \<noteq> INVALID_TOPIC_ID" using wf i by (auto simp: topic_wf_def INVALID_TOPIC_ID_def)
  then show ?thesis
    using i f msg by (auto simp: remove_check_def kassert_defs storage_at_def await_read_free Let_def
        partition_front_def release_read_alone set_storage_same split: list.splits)
qed

lemma remove_commit_other:
  assumes wf: "topic_wf (env, T)" and i: "unat (partition_id r) < length (tp_storage T)"
    and msg: "view_read r (message_view r) = Inr msg"
    and front: "topic_abs (env, T) ! unat (partition_id r) = m # ms" "m \<noteq> msg"
  shows "remove_commit pad h r (env, T) = Inr ((env, T), False)"
proof -
  let ?p = "tp_storage T ! unat (partition_id r)"
  note f = topic_front [OF wf i]
  show ?thesis
    using i f msg front by (simp add: remove_commit_def storage_at_def await_write_free Let_def
        partition_front_def release_write_alone set_storage_same)
qed

lemma remove_commit_empty:
  assumes wf: "topic_wf (env, T)" and i: "unat (partition_id r) < length (tp_storage T)"
    and front: "topic_abs (env, T) ! unat (partition_id r) = []"
  shows "remove_commit pad h r (env, T) = Inl Null_dereference"
  using topic_front [OF wf i] i front
  by (simp add: remove_commit_def storage_at_def await_write_free Let_def partition_front_def)

lemma remove_commit_match:
  assumes wf: "topic_wf (env, T)" and i: "unat (partition_id r) < length (tp_storage T)"
    and msg: "view_read r (message_view r) = Inr msg"
    and front: "topic_abs (env, T) ! unat (partition_id r) = msg # ms"
  obtains t where "remove_commit pad h r (env, T) = Inr (t, True)" and "topic_wf t"
    and "topic_abs t = spec_pop (unat (partition_id r)) (topic_abs (env, T))"
    and "topic_file t = topic_file (env, T) @ wall_data_image pad (wall_data_for (partition_id r) False r)"
    and "topic_frame (env, T) t"
proof -
  let ?i = "partition_id r"
  let ?p = "tp_storage T ! unat ?i" and ?data = "wall_data_image pad (wall_data_for ?i False r)"
  note f = topic_front [OF wf i]
  have qwf: "mq_wf (en_heap env) (pt_queue ?p)" using wf i by (auto simp: topic_wf_def storage_wf_def)
  obtain h' q' where pop: "mq_pop (en_heap env) (pt_queue ?p) = Inr (h', q')" "mq_wf h' q'"
    "mq_abs h' q' = tl (mq_abs (en_heap env) (pt_queue ?p))"
    "mq_addrs h' q' = tl (mq_addrs (en_heap env) (pt_queue ?p))"
    "h' = (\<lambda>a. if a \<in> set (take 1 (mq_addrs (en_heap env) (pt_queue ?p))) then None else en_heap env a)"
    using mq_pop_rel_abs [OF qwf] by blast
  obtain fs w where log: "(fs, w) = store_span (tp_wall_write T) ?data (en_files env)"
    by (metis surj_pair)
  let ?p' = "?p\<lparr>pt_queue := q', pt_mutex := sm_unlocked\<rparr>"
  let ?t = "(env\<lparr>en_heap := h', en_files := fs\<rparr>, set_storage ?i ?p' (T\<lparr>tp_wall_write := w\<rparr>))"
  have run: "remove_commit pad h r (env, T) = Inr (?t, True)"
    using wf i msg f front pop(1) log [symmetric]
    by (simp add: remove_commit_def storage_at_def await_write_free topic_log_free topic_wf_def
        partition_pop_def partition_front_def release_write_alone Let_def)
  have up: "mq_wf h' (pt_queue ?p')" "pt_mutex ?p' = sm_unlocked"
    "\<And>a. a \<notin> pt_addrs (en_heap env) ?p \<Longrightarrow> a \<notin> pt_addrs h' ?p' \<Longrightarrow> h' a = en_heap env a"
    "\<And>a. a \<in> pt_addrs h' ?p' \<Longrightarrow> a \<in> pt_addrs (en_heap env) ?p \<or> en_heap env a = None"
    "\<And>a. a \<in> pt_addrs (en_heap env) ?p \<Longrightarrow> a \<notin> pt_addrs h' ?p' \<Longrightarrow> h' a = None"
    using pop by (auto simp: pt_addrs_def dest: in_set_takeD in_set_tl in_set_not_tl)
  have res: "topic_wf ?t" "topic_abs ?t = (topic_abs (env, T))[unat ?i := mq_abs h' (pt_queue ?p')]"
    "topic_file ?t = topic_file (env, T) @ ?data" "topic_frame (env, T) ?t"
    by (rule topic_wf_update [OF wf i up(1,2) _ _ _ log refl], erule (1) up(3), erule up(4), erule (1) up(5))+
  show thesis
  proof (rule that [OF run res(1) _ res(3,4)])
    show "topic_abs ?t = spec_pop (unat ?i) (topic_abs (env, T))"
      using i pop(3) unfolding res(2) by (simp add: spec_pop_def topic_abs_def storage_abs_nth)
  qed
qed

subsection \<open>Successful runs, taken apart\<close>

lemma topic_push_Inr:
  assumes "topic_push malloc hash pad h r (env, T) = Inr t"
  obtains i msg where "push_index hash r T = Inr i" and "unat i < length (tp_storage T)"
    and "view_read r (message_view r) = Inr msg" and "malloc (en_heap env) (8 + length msg) \<noteq> 0"
proof -
  from assms obtain i p p1 fs T1 msg hp p2 it where
    "push_index hash r T = Inr i" "storage_at T i = Inr p"
    "view_read r (message_view r) = Inr msg" "partition_push malloc (en_heap env) p1 msg = Inr (hp, p2, it)"
    by (auto simp: topic_push_def result_simps)
  then show thesis
    using mq_push_no_memory [of malloc "en_heap env" msg "pt_queue p1"]
    by (intro that [of i msg]) (auto simp: storage_at_def partition_push_def split: if_splits)
qed

lemma topic_read_Inr:
  assumes "topic_wf s" and "topic_read h i s = Inr (t, x)"
  shows "t = s"
proof -
  obtain env T where s: "s = (env, T)" by (cases s)
  with assms(2) have "unat i < length (tp_storage T)"
    by (auto simp: topic_read_def result_simps storage_at_def split: if_splits)
  with assms show ?thesis by (simp add: s topic_read_ok)
qed

lemma remove_check_Inr:
  assumes "topic_wf s" and "remove_check h r s = Inr (t, b)"
  shows "t = s"
proof -
  obtain env T where s: "s = (env, T)" by (cases s)
  with assms(2) obtain msg where "unat (partition_id r) < length (tp_storage T)"
    "view_read r (message_view r) = Inr msg"
    by (auto simp: remove_check_def result_simps storage_at_def Let_def split: if_splits)
  with assms show ?thesis by (simp add: s remove_check_ok split: list.splits)
qed

lemma remove_commit_Inr:
  assumes wf: "topic_wf (env, T)" and run: "remove_commit pad h r (env, T) = Inr (t, b)"
  obtains m ms msg where "unat (partition_id r) < length (tp_storage T)"
    and "view_read r (message_view r) = Inr msg"
    and "topic_abs (env, T) ! unat (partition_id r) = m # ms" and "b \<longleftrightarrow> m = msg"
proof -
  from run obtain msg where i: "unat (partition_id r) < length (tp_storage T)"
    and msg: "view_read r (message_view r) = Inr msg"
    by (auto simp: remove_commit_def result_simps storage_at_def Let_def split: if_splits)
  have "topic_abs (env, T) ! unat (partition_id r) \<noteq> []"
    using remove_commit_empty [OF wf i] run by auto
  then obtain m ms where front: "topic_abs (env, T) ! unat (partition_id r) = m # ms"
    by (cases "topic_abs (env, T) ! unat (partition_id r)") auto
  have "b \<longleftrightarrow> m = msg"
  proof (cases "m = msg")
    case True
    then show ?thesis using remove_commit_match [OF wf i msg] front run by (metis Inr_inject Pair_inject)
  next
    case False
    then show ?thesis using remove_commit_other [OF wf i msg front] run by simp
  qed
  with i msg front show thesis by (rule that)
qed

subsection \<open>Runs of a topic: any interleaving of critical sections\<close>

text \<open>
  The steps are the critical sections that the partition lock makes atomic. A fiber that
  removes does \<open>remove_check\<close> and later \<open>remove_commit\<close>; any steps may come in between.
\<close>

inductive topic_step :: "allocator \<Rightarrow> hash_func \<Rightarrow> env_t \<times> topic_t \<Rightarrow> env_t \<times> topic_t \<Rightarrow> bool"
  for malloc hash where
  step_push: "topic_push malloc hash pad h r s = Inr t \<Longrightarrow> topic_step malloc hash s t"
| step_read: "topic_read h i s = Inr (t, x) \<Longrightarrow> topic_step malloc hash s t"
| step_check: "remove_check h r s = Inr (t, b) \<Longrightarrow> topic_step malloc hash s t"
| step_commit: "remove_commit pad h r s = Inr (t, b) \<Longrightarrow> topic_step malloc hash s t"

inductive_cases topic_stepE: "topic_step malloc hash s t"

definition topic_init :: "(byte list \<Rightarrow> bool) \<Rightarrow> allocator \<Rightarrow> nat \<Rightarrow> byte list \<Rightarrow> env_t \<times> topic_t \<Rightarrow> bool" where
  "topic_init can_open malloc n name s \<longleftrightarrow>
     malloc_sound malloc \<and> (\<exists>env. topic_ctor can_open n name env = Inr s)"

text \<open>The log is a sequence of whole records whose replay gives every partition's size.\<close>

definition log_agrees :: "(nat \<times> wall_data_t) list \<Rightarrow> env_t \<times> topic_t \<Rightarrow> bool" where
  "log_agrees es s \<longleftrightarrow> topic_file s = wall_log es
     \<and> (\<forall>i. unat i < length (topic_abs s) \<longrightarrow>
          replay_size i (map snd es) = int (length (topic_abs s ! unat i)))"

definition topic_inv :: "allocator \<Rightarrow> nat \<Rightarrow> env_t \<times> topic_t \<Rightarrow> bool" where
  "topic_inv malloc n s \<longleftrightarrow> malloc_sound malloc \<and> topic_wf s \<and> length (topic_abs s) = n
     \<and> (\<exists>es. log_agrees es s)"

lemma unat_u16_inj: "unat (a :: u16) = unat b \<longleftrightarrow> a = b"
  using unsigned_word_eqI by blast

lemma log_agrees_push:
  assumes "log_agrees es s" and "topic_abs t = spec_push (unat i) msg (topic_abs s)"
    and "topic_file t = topic_file s @ wall_data_image pad (wall_data_for i True r)"
    and "unat i < length (topic_abs s)"
  shows "log_agrees (es @ [(pad, wall_data_for i True r)]) t"
  using assms
  by (auto simp: log_agrees_def wall_log_snoc spec_push_def replay_size_append wall_data_for_def
      nth_list_update unat_u16_inj)

lemma log_agrees_pop:
  assumes "log_agrees es s" and "topic_abs t = spec_pop (unat i) (topic_abs s)"
    and "topic_file t = topic_file s @ wall_data_image pad (wall_data_for i False r)"
    and "unat i < length (topic_abs s)" and "topic_abs s ! unat i \<noteq> []"
  shows "log_agrees (es @ [(pad, wall_data_for i False r)]) t"
  using assms
  by (auto simp: log_agrees_def wall_log_snoc spec_pop_def replay_size_append wall_data_for_def
      nth_list_update of_nat_diff Suc_le_eq unat_u16_inj)

lemma topic_ctor_Inr:
  assumes "topic_ctor can_open n name env = Inr s"
  shows "topic_wf s" and "topic_abs s = replicate n []" and "topic_file s = []"
    and "topic_path s = lit ''/tmp/'' @ name"
  using assms
  by (auto simp: topic_ctor_def result_simps kassert_defs topic_wf_def topic_abs_def topic_file_def
      topic_path_def storage_wf_new storage_abs_new INVALID_TOPIC_ID_def dest!: wall_writer_ctor_Inr)

lemma topic_inv_init: "topic_init can_open malloc n name s \<Longrightarrow> topic_inv malloc n s"
proof -
  assume init: "topic_init can_open malloc n name s"
  then obtain env where "topic_ctor can_open n name env = Inr s" by (auto simp: topic_init_def)
  note new = topic_ctor_Inr [OF this]
  have "log_agrees [] s" using new by (simp add: log_agrees_def wall_log_def)
  with init new show ?thesis by (auto simp: topic_inv_def topic_init_def)
qed

lemma topic_inv_step:
  assumes inv: "topic_inv malloc n s" and step: "topic_step malloc hash s t"
  shows "topic_inv malloc n t"
proof -
  obtain env T where s: "s = (env, T)" by (cases s)
  from inv obtain es where wf: "topic_wf (env, T)" and mem: "malloc_sound malloc"
    and len: "length (topic_abs (env, T)) = n" and log: "log_agrees es (env, T)"
    by (auto simp: topic_inv_def s)
  from step show ?thesis
  proof (cases rule: topic_step.cases)
    case (step_push pad h r)
    with s have run: "topic_push malloc hash pad h r (env, T) = Inr t" by simp
    then obtain i msg where a: "push_index hash r T = Inr i" "unat i < length (tp_storage T)"
      "view_read r (message_view r) = Inr msg" "malloc (en_heap env) (8 + length msg) \<noteq> 0"
      by (rule topic_push_Inr)
    obtain t' where t': "topic_push malloc hash pad h r (env, T) = Inr t'" "topic_wf t'"
      "topic_abs t' = spec_push (unat i) msg (topic_abs (env, T))"
      "topic_file t' = topic_file (env, T) @ wall_data_image pad (wall_data_for i True r)"
      by (rule topic_push_ok [OF wf a(1-3) mem a(4)])
    moreover have "t' = t" using run t'(1) by simp
    ultimately show ?thesis
      using log_agrees_push [OF log, of t i msg pad r] a(2) mem len
      by (auto simp: topic_inv_def length_topic_abs spec_push_def)
  next
    case (step_read h i x)
    then show ?thesis using topic_read_Inr inv wf s by metis
  next
    case (step_check h r b)
    then show ?thesis using remove_check_Inr inv wf s by metis
  next
    case (step_commit pad h r b)
    with s have run: "remove_commit pad h r (env, T) = Inr (t, b)" by simp
    from wf run obtain m ms msg where a: "unat (partition_id r) < length (tp_storage T)"
      "view_read r (message_view r) = Inr msg"
      "topic_abs (env, T) ! unat (partition_id r) = m # ms" "b \<longleftrightarrow> m = msg"
      by (rule remove_commit_Inr)
    show ?thesis
    proof (cases "m = msg")
      case False
      then have "t = s" using remove_commit_other [OF wf a(1-3)] run s by auto
      then show ?thesis using inv by simp
    next
      case True
      with a(3) have front: "topic_abs (env, T) ! unat (partition_id r) = msg # ms" by simp
      obtain t' where t': "remove_commit pad h r (env, T) = Inr (t', True)" "topic_wf t'"
        "topic_abs t' = spec_pop (unat (partition_id r)) (topic_abs (env, T))"
        "topic_file t' = topic_file (env, T) @ wall_data_image pad (wall_data_for (partition_id r) False r)"
        by (rule remove_commit_match [OF wf a(1,2) front])
      moreover have "t' = t" using run t'(1) by simp
      ultimately show ?thesis
        using log_agrees_pop [OF log, of t "partition_id r" pad r] a(1) front mem len
        by (auto simp: topic_inv_def length_topic_abs spec_pop_def)
    qed
  qed
qed

interpretation tp: invariant_system "topic_init can_open malloc n name" "topic_step malloc hash"
    "topic_inv malloc n" for can_open malloc n name hash
  by unfold_locales (erule topic_inv_init, erule (1) topic_inv_step)

end
