(* ===== verification/Registry.thy ===== *)
theory Registry
  imports TopicSpec
begin

section \<open>The topic registry (\<open>src/rpc/rpc-session.h\<close>, \<open>request_hash_t\<close> and \<open>topic_registry_t\<close>)\<close>

text \<open>
  The registry maps topic names to topics. It owns a mutex, but \<open>auto lock = mutex_.lock()\<close>
  only creates the lazily started coroutine and never awaits it, so the mutex is not taken
  and the statement has no effect: the two steps of \<open>get_or_create_topic\<close>, the lookup and
  the insertion, are definitions of their own, between which other threads can run.
\<close>

subsection \<open>Operations\<close>

text \<open>\<open>std::hash<char>\<close> is a parameter; the loop folds its values with exclusive or.\<close>

definition request_hash :: "(byte \<Rightarrow> u64) \<Rightarrow> hash_func" where
  "request_hash hash_char r =
     rbind (view_read r (topic_name r)) (\<lambda>name. Inr (foldl (\<lambda>h c. xor h (hash_char c)) 0 name))"

record topic_registry_t =
  tr_mutex :: unique_mutex_t
  tr_topics :: "byte list \<rightharpoonup> topic_t"

definition registry_new :: topic_registry_t where
  "registry_new = \<lparr>tr_mutex = um_unlocked, tr_topics = Map.empty\<rparr>"

record world_t =
  wo_env :: env_t
  wo_registry :: topic_registry_t

definition registry_find :: "byte list \<Rightarrow> world_t \<Rightarrow> topic_t option" where
  "registry_find name W = tr_topics (wo_registry W) name"

definition set_topic :: "byte list \<Rightarrow> env_t \<times> topic_t \<Rightarrow> world_t \<Rightarrow> world_t" where
  "set_topic name t W = W\<lparr>wo_env := fst t,
     wo_registry := (wo_registry W)\<lparr>tr_topics := (tr_topics (wo_registry W))(name \<mapsto> snd t)\<rparr>\<rparr>"

text \<open>
  The argument of \<open>emplace\<close> is evaluated first: a topic is constructed, and its file opened
  and truncated, even when the key turns out to be present and the new topic is dropped.
\<close>

definition registry_emplace :: "(byte list \<Rightarrow> bool) \<Rightarrow> nat \<Rightarrow> byte list \<Rightarrow> world_t \<Rightarrow> fault + world_t" where
  "registry_emplace can_open partitions_count name W =
     rbind (topic_ctor can_open partitions_count name (wo_env W)) (\<lambda>(env, T).
       Inr (case registry_find name W of
              None \<Rightarrow> set_topic name (env, T) W
            | Some _ \<Rightarrow> W\<lparr>wo_env := env\<rparr>))"

definition get_or_create_topic :: "(byte list \<Rightarrow> bool) \<Rightarrow> nat \<Rightarrow> byte list \<Rightarrow> world_t \<Rightarrow> fault + world_t" where
  "get_or_create_topic can_open partitions_count name W =
     (case registry_find name W of
        None \<Rightarrow> registry_emplace can_open partitions_count name W
      | Some T \<Rightarrow> Inr W)"

definition get_topic :: "byte list \<Rightarrow> world_t \<Rightarrow> topic_t option" where
  "get_topic name W = registry_find name W"

text \<open>
  An operation on the registered topic of that name, on the shared heap and file system;
  its result replaces the topic.
\<close>

definition on_topic :: "byte list \<Rightarrow> (env_t \<times> topic_t \<Rightarrow> fault + (env_t \<times> topic_t) \<times> 'a) \<Rightarrow> world_t
    \<Rightarrow> fault + world_t \<times> 'a" where
  "on_topic name f W =
     (case registry_find name W of
        None \<Rightarrow> Inl Null_dereference
      | Some T \<Rightarrow> rbind (f (wo_env W, T)) (\<lambda>(t, x). Inr (set_topic name t W, x)))"

subsection \<open>Well-formed worlds\<close>

text \<open>
  Every registered topic is well formed, has the one partition that \<open>get_or_create_topic\<close>
  gives it and logs to the file of its name; no message belongs to two topics, and every
  live message belongs to one.
\<close>

definition world_wf :: "world_t \<Rightarrow> bool" where
  "world_wf W \<longleftrightarrow>
     (\<forall>name T. registry_find name W = Some T \<longrightarrow>
        topic_wf (wo_env W, T) \<and> topic_path (wo_env W, T) = lit ''/tmp/'' @ name \<and> length (tp_storage T) = 1)
   \<and> (\<forall>n m T U. n \<noteq> m \<longrightarrow> registry_find n W = Some T \<longrightarrow> registry_find m W = Some U \<longrightarrow>
        topic_addrs (wo_env W, T) \<inter> topic_addrs (wo_env W, U) = {})
   \<and> (\<forall>a. en_heap (wo_env W) a \<noteq> None \<longrightarrow>
        (\<exists>name T. registry_find name W = Some T \<and> a \<in> topic_addrs (wo_env W, T)))"

text \<open>What the world stands for: a message list for each topic name.\<close>

type_synonym broker = "byte list \<rightharpoonup> byte list list"

definition world_abs :: "world_t \<Rightarrow> broker" where
  "world_abs W = (\<lambda>name. map_option (\<lambda>T. topic_abs (wo_env W, T) ! 0) (registry_find name W))"

definition topic_log_of :: "byte list \<Rightarrow> world_t \<Rightarrow> byte list" where
  "topic_log_of name W = file_of (en_files (wo_env W)) (lit ''/tmp/'' @ name)"

definition world_new :: world_t where
  "world_new = \<lparr>wo_env = \<lparr>en_heap = Map.empty, en_files = Map.empty\<rparr>, wo_registry = registry_new\<rparr>"

lemma registry_find_set [simp]:
  "registry_find n (set_topic name t W) = (if n = name then Some (snd t) else registry_find n W)"
  "wo_env (set_topic name t W) = fst t"
  by (simp_all add: registry_find_def set_topic_def)

lemma registry_find_env [simp]: "registry_find n (W\<lparr>wo_env := e\<rparr>) = registry_find n W"
  by (simp add: registry_find_def)

lemma registry_find_new [simp]: "registry_find n world_new = None"
  by (simp add: registry_find_def world_new_def registry_new_def)

lemma world_new_wf [simp]: "world_wf world_new"
  unfolding world_wf_def by (simp add: world_new_def registry_find_def registry_new_def)

lemma world_new_abs [simp]: "world_abs world_new = Map.empty"
  by (simp add: world_abs_def)

lemma world_wfD:
  assumes "world_wf W" and "registry_find name W = Some T"
  shows "topic_wf (wo_env W, T)" and "topic_path (wo_env W, T) = lit ''/tmp/'' @ name"
    and "length (tp_storage T) = 1" and "length (topic_abs (wo_env W, T)) = 1"
    and "world_abs W name = Some (topic_abs (wo_env W, T) ! 0)"
  using assms unfolding world_wf_def by (auto simp: world_abs_def length_topic_abs)

lemma world_wf_disjoint:
  "world_wf W \<Longrightarrow> n \<noteq> m \<Longrightarrow> registry_find n W = Some T \<Longrightarrow> registry_find m W = Some U \<Longrightarrow>
     topic_addrs (wo_env W, T) \<inter> topic_addrs (wo_env W, U) = {}"
  unfolding world_wf_def by blast

lemma world_wf_owner:
  assumes "world_wf W" and "en_heap (wo_env W) a \<noteq> None"
  obtains name T where "registry_find name W = Some T" and "a \<in> topic_addrs (wo_env W, T)"
  using assms unfolding world_wf_def by blast

lemma world_abs_None [simp]: "world_abs W name = None \<longleftrightarrow> registry_find name W = None"
  by (simp add: world_abs_def)

lemma topic_addrs_live: "topic_wf (env, T) \<Longrightarrow> a \<in> topic_addrs (env, T) \<Longrightarrow> en_heap env a \<noteq> None"
  by (auto simp: topic_wf_def topic_addrs_def dest: storage_addrs_live)

text \<open>A topic does not depend on cells and files that are not its own.\<close>

lemma topic_outside:
  assumes "topic_wf (env, T)"
    and "\<And>a. a \<in> topic_addrs (env, T) \<Longrightarrow> en_heap env' a = en_heap env a"
    and "en_files env' (topic_path (env, T)) = en_files env (topic_path (env, T))"
  shows "topic_wf (env', T)" and "topic_abs (env', T) = topic_abs (env, T)"
    and "topic_addrs (env', T) = topic_addrs (env, T)" and "topic_path (env', T) = topic_path (env, T)"
proof -
  have st: "storage_wf (en_heap env) (tp_storage T)" using assms(1) by (simp add: topic_wf_def)
  have "\<And>a. a \<in> storage_addrs (en_heap env) (tp_storage T) \<Longrightarrow> en_heap env' a = en_heap env a"
    using assms(2) by (simp add: topic_addrs_def)
  note fr = storage_frame [OF st this]
  show "topic_wf (env', T)"
    using assms(1,3) fr(1) by (simp add: topic_wf_def topic_path_def at_end_def file_of_def)
  show "topic_abs (env', T) = topic_abs (env, T)" using fr(2) by (simp add: topic_abs_def)
  show "topic_addrs (env', T) = topic_addrs (env, T)" using fr(3) by (simp add: topic_addrs_def)
  show "topic_path (env', T) = topic_path (env, T)" by (simp add: topic_path_def)
qed

text \<open>
  One topic of the world changes or is added: it works on its own cells and file and on
  free cells.
\<close>

definition old_addrs :: "byte list \<Rightarrow> world_t \<Rightarrow> ptr set" where
  "old_addrs name W = (case registry_find name W of None \<Rightarrow> {} | Some T \<Rightarrow> topic_addrs (wo_env W, T))"

lemma world_set_topic:
  assumes wf: "world_wf W" and t: "topic_wf t" "topic_path t = lit ''/tmp/'' @ name" "length (tp_storage (snd t)) = 1"
    and heap: "\<And>a. a \<notin> old_addrs name W \<Longrightarrow> en_heap (wo_env W) a \<noteq> None \<Longrightarrow>
        en_heap (fst t) a = en_heap (wo_env W) a"
    and addrs: "topic_addrs t \<subseteq> old_addrs name W \<union> {a. en_heap (wo_env W) a = None}"
    and balance: "dom (en_heap (fst t)) - topic_addrs t = dom (en_heap (wo_env W)) - old_addrs name W"
    and files: "\<And>path. path \<noteq> lit ''/tmp/'' @ name \<Longrightarrow> en_files (fst t) path = en_files (wo_env W) path"
  shows "world_wf (set_topic name t W)"
    and "world_abs (set_topic name t W) = (world_abs W)(name \<mapsto> topic_abs t ! 0)"
    and "n \<noteq> name \<Longrightarrow> topic_log_of n (set_topic name t W) = topic_log_of n W"
proof -
  have keep: "topic_wf (fst t, U)" "topic_abs (fst t, U) = topic_abs (wo_env W, U)"
    "topic_addrs (fst t, U) = topic_addrs (wo_env W, U)" "topic_path (fst t, U) = topic_path (wo_env W, U)"
    "topic_addrs (wo_env W, U) \<inter> old_addrs name W = {}"
    "topic_addrs (wo_env W, U) \<inter> {a. en_heap (wo_env W) a = None} = {}"
    if U: "registry_find m W = Some U" "m \<noteq> name" for m U
  proof -
    note w = world_wfD [OF wf U(1)]
    show disj: "topic_addrs (wo_env W, U) \<inter> old_addrs name W = {}"
      using world_wf_disjoint [OF wf U(2) U(1)] by (auto simp: old_addrs_def split: option.split)
    show live: "topic_addrs (wo_env W, U) \<inter> {a. en_heap (wo_env W) a = None} = {}"
      using topic_addrs_live [OF w(1)] by blast
    have cells: "\<And>a. a \<in> topic_addrs (wo_env W, U) \<Longrightarrow> en_heap (fst t) a = en_heap (wo_env W) a"
      using disj live by (intro heap) auto
    have fl: "en_files (fst t) (topic_path (wo_env W, U)) = en_files (wo_env W) (topic_path (wo_env W, U))"
      using w(2) U(2) by (intro files) simp
    show "topic_wf (fst t, U)" "topic_abs (fst t, U) = topic_abs (wo_env W, U)"
      "topic_addrs (fst t, U) = topic_addrs (wo_env W, U)" "topic_path (fst t, U) = topic_path (wo_env W, U)"
      by (rule topic_outside [OF w(1) cells fl], assumption)+
  qed
  have apart: "topic_addrs (wo_env W, U) \<inter> topic_addrs t = {}"
    if "registry_find m W = Some U" "m \<noteq> name" for m U
    using keep(5,6) [OF that] addrs by blast
  show "world_wf (set_topic name t W)"
    unfolding world_wf_def
  proof (intro conjI allI impI)
    fix m T assume "registry_find m (set_topic name t W) = Some T"
    then have T: "m = name \<and> T = snd t \<or> m \<noteq> name \<and> registry_find m W = Some T" by (auto split: if_splits)
    then show "topic_wf (wo_env (set_topic name t W), T)"
      "topic_path (wo_env (set_topic name t W), T) = lit ''/tmp/'' @ m" "length (tp_storage T) = 1"
      using t keep(1,4) [of m T] world_wfD [OF wf, of m T] by auto
    fix k U assume k: "m \<noteq> k" and "registry_find k (set_topic name t W) = Some U"
    then have U: "k = name \<and> U = snd t \<or> k \<noteq> name \<and> registry_find k W = Some U" by (auto split: if_splits)
    show "topic_addrs (wo_env (set_topic name t W), T) \<inter> topic_addrs (wo_env (set_topic name t W), U) = {}"
      using T U k apart [of m T] apart [of k U] keep(3) [of m T] keep(3) [of k U]
        world_wf_disjoint [OF wf k, of T U] by auto
  next
    fix a assume live: "en_heap (wo_env (set_topic name t W)) a \<noteq> None"
    show "\<exists>m T. registry_find m (set_topic name t W) = Some T \<and> a \<in> topic_addrs (wo_env (set_topic name t W), T)"
    proof (cases "a \<in> topic_addrs t")
      case True
      then show ?thesis by (intro exI [of _ name] exI [of _ "snd t"]) simp
    next
      case False
      with live have "a \<in> dom (en_heap (fst t)) - topic_addrs t" by auto
      then have a: "en_heap (wo_env W) a \<noteq> None" "a \<notin> old_addrs name W" using balance by auto
      obtain m U where U: "registry_find m W = Some U" "a \<in> topic_addrs (wo_env W, U)"
        by (rule world_wf_owner [OF wf a(1)])
      then have "m \<noteq> name" using a(2) by (auto simp: old_addrs_def)
      with U keep(3) [OF U(1)] show ?thesis by (intro exI [of _ m] exI [of _ U]) simp
    qed
  qed
  show "world_abs (set_topic name t W) = (world_abs W)(name \<mapsto> topic_abs t ! 0)"
    using keep(2) by (auto simp: world_abs_def fun_eq_iff map_option_case split: option.split)
  show "n \<noteq> name \<Longrightarrow> topic_log_of n (set_topic name t W) = topic_log_of n W"
    using files by (simp add: topic_log_of_def file_of_def)
qed

lemma world_topic_update:
  assumes wf: "world_wf W" and T: "registry_find name W = Some T"
    and t: "topic_wf t" "topic_frame (wo_env W, T) t"
  shows "world_wf (set_topic name t W)"
    and "world_abs (set_topic name t W) = (world_abs W)(name \<mapsto> topic_abs t ! 0)"
    and "n \<noteq> name \<Longrightarrow> topic_log_of n (set_topic name t W) = topic_log_of n W"
proof -
  note w = world_wfD [OF wf T]
  have "topic_path t = lit ''/tmp/'' @ name" "length (tp_storage (snd t)) = 1"
    "topic_addrs t \<subseteq> old_addrs name W \<union> {a. en_heap (wo_env W) a = None}"
    "\<And>a. a \<notin> old_addrs name W \<Longrightarrow> en_heap (wo_env W) a \<noteq> None \<Longrightarrow> en_heap (fst t) a = en_heap (wo_env W) a"
    "\<And>path. path \<noteq> lit ''/tmp/'' @ name \<Longrightarrow> en_files (fst t) path = en_files (wo_env W) path"
    "dom (en_heap (fst t)) - topic_addrs t = dom (en_heap (wo_env W)) - old_addrs name W"
    using t(2) w(2,3) T by (auto simp: topic_frame_def old_addrs_def)
  from world_set_topic [OF wf t(1) this(1,2) this(4,3,6,5)]
  show "world_wf (set_topic name t W)"
    "world_abs (set_topic name t W) = (world_abs W)(name \<mapsto> topic_abs t ! 0)"
    "n \<noteq> name \<Longrightarrow> topic_log_of n (set_topic name t W) = topic_log_of n W" by auto
qed

subsection \<open>Lookup and creation\<close>

lemma topic_ctor_fresh:
  assumes "topic_ctor can_open n name env = Inr (env', T)"
  shows "en_heap env' = en_heap env" and "en_files env' = (en_files env)(lit ''/tmp/'' @ name \<mapsto> [])"
    and "length (tp_storage T) = n" and "topic_addrs (env', T) = {}"
  using assms
  by (auto simp: topic_ctor_def result_simps topic_addrs_def storage_addrs_new dest!: wall_writer_ctor_Inr)

lemma topic_ctor_total:
  "can_open (lit ''/tmp/'' @ name) \<Longrightarrow> n < 65535 \<Longrightarrow> \<exists>env' T. topic_ctor can_open n name env = Inr (env', T)"
  by (simp add: topic_ctor_def wall_writer_ctor_def kassert_defs INVALID_TOPIC_ID_def Let_def)

lemma get_or_create_ok:
  assumes wf: "world_wf W" and can: "registry_find name W = None \<Longrightarrow> can_open (lit ''/tmp/'' @ name)"
  obtains W1 T where "get_or_create_topic can_open 1 name W = Inr W1" and "world_wf W1"
    and "registry_find name W1 = Some T" and "en_heap (wo_env W1) = en_heap (wo_env W)"
    and "world_abs W1 = (case world_abs W name of None \<Rightarrow> (world_abs W)(name \<mapsto> []) | Some q \<Rightarrow> world_abs W)"
    and "\<forall>n. topic_log_of n W1 = (if n = name \<and> registry_find name W = None then [] else topic_log_of n W)"
proof (cases "registry_find name W")
  case (Some T)
  with wf show thesis using that [of W T] by (auto simp: get_or_create_topic_def world_abs_def)
next
  case None
  then obtain env T where new: "topic_ctor can_open 1 name (wo_env W) = Inr (env, T)"
    using topic_ctor_total [of can_open name 1 "wo_env W"] can [OF None] by auto
  note c = topic_ctor_Inr [OF new] and f = topic_ctor_fresh [OF new]
  have w: "world_wf (set_topic name (env, T) W)"
    "world_abs (set_topic name (env, T) W) = (world_abs W)(name \<mapsto> topic_abs (env, T) ! 0)"
    "\<And>n. n \<noteq> name \<Longrightarrow> topic_log_of n (set_topic name (env, T) W) = topic_log_of n W"
    using world_set_topic [OF wf c(1) c(4)] f None by (simp_all add: old_addrs_def)
  have "topic_log_of name (set_topic name (env, T) W) = []"
    using f(2) by (simp add: topic_log_of_def file_of_def)
  moreover have "get_or_create_topic can_open 1 name W = Inr (set_topic name (env, T) W)"
    using None new by (simp add: get_or_create_topic_def registry_emplace_def)
  ultimately show thesis
    using w c(2) f(1) None by (intro that [of "set_topic name (env, T) W" T]) (auto simp: world_abs_def)
qed

subsection \<open>Memory use\<close>

text \<open>
  An allocator that does not fail while fewer than \<open>K\<close> messages are live; \<open>memory_left\<close> says
  that a world has room for \<open>n\<close> more.
\<close>

definition malloc_supply :: "allocator \<Rightarrow> nat \<Rightarrow> bool" where
  "malloc_supply malloc K \<longleftrightarrow>
     (\<forall>h n. finite (dom h) \<and> card (dom h) < K \<and> n < 2 ^ 17 \<longrightarrow> malloc h n \<noteq> 0)"

definition memory_left :: "nat \<Rightarrow> nat \<Rightarrow> heap \<Rightarrow> bool" where
  "memory_left K n h \<longleftrightarrow> finite (dom h) \<and> card (dom h) + n \<le> K"

lemma malloc_supplyD:
  "malloc_supply malloc K \<Longrightarrow> memory_left K (Suc n) h \<Longrightarrow> k < 2 ^ 17 \<Longrightarrow> malloc h k \<noteq> 0"
  by (simp add: malloc_supply_def memory_left_def)

lemma memory_left_grow: "memory_left K (Suc n) h \<Longrightarrow> dom h' \<subseteq> insert a (dom h) \<Longrightarrow> memory_left K n h'"
proof -
  assume m: "memory_left K (Suc n) h" and sub: "dom h' \<subseteq> insert a (dom h)"
  then have fin: "finite (insert a (dom h))" by (simp add: memory_left_def)
  have "card (dom h') \<le> Suc (card (dom h))"
    using card_mono [OF fin sub] card_insert_le_m1 [of "Suc (card (dom h))" "dom h" a] by simp
  with m finite_subset [OF sub fin] show "memory_left K n h'" by (simp add: memory_left_def)
qed

lemma memory_left_mono: "memory_left K (Suc n) h \<Longrightarrow> dom h' \<subseteq> dom h \<Longrightarrow> memory_left K n h'"
  by (rule memory_left_grow) auto

lemma mq_push_dom: "mq_push malloc h q msg = Inr (h', q', it) \<Longrightarrow> \<exists>a. dom h' \<subseteq> insert a (dom h)"
  by (auto simp: mq_push_def result_simps Let_def split: if_splits)

lemma mq_pop_dom: "mq_pop h q = Inr (h', q') \<Longrightarrow> dom h' \<subseteq> dom h"
  by (auto simp: mq_pop_def result_simps Let_def split: if_splits)

lemma topic_push_dom:
  "topic_push malloc hash pad f r s = Inr t \<Longrightarrow> \<exists>a. dom (en_heap (fst t)) \<subseteq> insert a (dom (en_heap (fst s)))"
  by (auto simp: topic_push_def partition_push_def result_simps split: prod.splits dest!: mq_push_dom) blast

lemma remove_commit_dom:
  "remove_commit pad f r s = Inr (t, b) \<Longrightarrow> dom (en_heap (fst t)) \<subseteq> dom (en_heap (fst s))"
  by (auto simp: remove_commit_def partition_pop_def result_simps Let_def split: prod.splits if_splits
      dest!: mq_pop_dom) (metis domI domD subsetD)

lemma small_malloc_supply: "malloc_supply small_malloc 4"
proof -
  have "small_malloc h n \<noteq> 0" if "finite (dom h)" "card (dom h) < 4" for h n
  proof
    assume "small_malloc h n = 0"
    then have "{8, 16, 24, 32} \<subseteq> dom h" by (auto simp: small_malloc_def split: if_splits)
    from card_mono [OF that(1) this] that(2) show False by simp
  qed
  then show ?thesis by (simp add: malloc_supply_def)
qed

end
