(* ===== verification/Protocol.thy ===== *)
theory Protocol
  imports Request
begin

section \<open>The wire protocol (\<open>src/rpc/rpc-protocol.h\<close>)\<close>

text \<open>
  Opcodes and error codes are enumerations of fixed underlying type: a field that was read
  from the network may hold any value of that type, so the headers keep the raw value and
  \<open>opcode_of\<close>, \<open>error_code_of\<close> say which enumerator it is, if any.
\<close>

definition RPC_MAGIC :: u32 where "RPC_MAGIC = 0x4E4F4355"

datatype opcode_t = PUSH | PULL | DELETE | ERROR

datatype error_code_t =
    OK | INVALID_TOPIC_NAME | INVALID_PARTITION_ID | TOPIC_NOT_FOUND | PARTITION_NOT_FOUND
  | EMPTY_PARTITION | MESSAGE_NOT_FOUND | INTERNAL_ERROR

fun opcode_value :: "opcode_t \<Rightarrow> byte" where
  "opcode_value PUSH = 0x01"
| "opcode_value PULL = 0x02"
| "opcode_value DELETE = 0x03"
| "opcode_value ERROR = 0xFF"

fun error_code_value :: "error_code_t \<Rightarrow> u16" where
  "error_code_value OK = 0x0000"
| "error_code_value INVALID_TOPIC_NAME = 0x0001"
| "error_code_value INVALID_PARTITION_ID = 0x0002"
| "error_code_value TOPIC_NOT_FOUND = 0x0003"
| "error_code_value PARTITION_NOT_FOUND = 0x0004"
| "error_code_value EMPTY_PARTITION = 0x0005"
| "error_code_value MESSAGE_NOT_FOUND = 0x0006"
| "error_code_value INTERNAL_ERROR = 0xFFFF"

definition opcode_of :: "byte \<Rightarrow> opcode_t option" where
  "opcode_of b = find (\<lambda>c. opcode_value c = b) [PUSH, PULL, DELETE, ERROR]"

definition error_code_of :: "u16 \<Rightarrow> error_code_t option" where
  "error_code_of w = find (\<lambda>c. error_code_value c = w)
     [OK, INVALID_TOPIC_NAME, INVALID_PARTITION_ID, TOPIC_NOT_FOUND, PARTITION_NOT_FOUND,
      EMPTY_PARTITION, MESSAGE_NOT_FOUND, INTERNAL_ERROR]"

lemma opcode_of_value [simp]: "opcode_of (opcode_value c) = Some c"
  by (cases c) (simp_all add: opcode_of_def)

lemma error_code_of_value [simp]: "error_code_of (error_code_value c) = Some c"
  by (cases c) (simp_all add: error_code_of_def)

lemma opcode_value_inj: "opcode_value a = opcode_value b \<longleftrightarrow> a = b"
  using opcode_of_value by (metis option.inject)

lemma error_code_value_inj: "error_code_value a = error_code_value b \<longleftrightarrow> a = b"
  using error_code_of_value by (metis option.inject)

lemma opcode_of_Some: "opcode_of b = Some c \<longleftrightarrow> b = opcode_value c"
proof
  show "b = opcode_value c" if "opcode_of b = Some c"
    using that by (auto simp: opcode_of_def split: if_splits)
qed (simp only: opcode_of_value)

lemma error_code_of_Some: "error_code_of w = Some c \<longleftrightarrow> w = error_code_value c"
proof
  show "w = error_code_value c" if "error_code_of w = Some c"
    using that by (auto simp: error_code_of_def split: if_splits)
qed (simp only: error_code_of_value)

text \<open>Scoped enumerations compare by their values.\<close>

instantiation opcode_t :: linorder
begin

definition less_eq_opcode_t :: "opcode_t \<Rightarrow> opcode_t \<Rightarrow> bool" where
  "less_eq_opcode_t a b \<longleftrightarrow> opcode_value a \<le> opcode_value b"

definition less_opcode_t :: "opcode_t \<Rightarrow> opcode_t \<Rightarrow> bool" where
  "less_opcode_t a b \<longleftrightarrow> opcode_value a < opcode_value b"

instance
  by standard (auto simp: less_eq_opcode_t_def less_opcode_t_def simp flip: opcode_value_inj)

end

instantiation error_code_t :: linorder
begin

definition less_eq_error_code_t :: "error_code_t \<Rightarrow> error_code_t \<Rightarrow> bool" where
  "less_eq_error_code_t a b \<longleftrightarrow> error_code_value a \<le> error_code_value b"

definition less_error_code_t :: "error_code_t \<Rightarrow> error_code_t \<Rightarrow> bool" where
  "less_error_code_t a b \<longleftrightarrow> error_code_value a < error_code_value b"

instance
  by standard (auto simp: less_eq_error_code_t_def less_error_code_t_def simp flip: error_code_value_inj)

end

lemma OK_least: "OK \<le> c"
  by (cases c) (simp_all add: less_eq_error_code_t_def)

subsection \<open>Headers\<close>

text \<open>
  Both headers have 12 bytes under \<open>pack(4)\<close>. A request header: the magic at 0, the opcode at
  4, a padding byte, then three 16-bit fields at 6, 8 and 10. A response header: the magic
  at 0, the opcode at 4, a padding byte, the error code at 6, the length at 8, two padding
  bytes. The values of padding bytes are indeterminate and are arguments of the images.
\<close>

record request_header_t =
  rh_magic :: u32
  rh_opcode :: byte
  rh_topic_name_len :: u16
  rh_partition_id :: u16
  rh_message_len :: u16

record response_header_t =
  sh_magic :: u32
  sh_opcode :: byte
  sh_error_code :: u16
  sh_message_len :: u16

definition sizeof_header :: nat where
  "sizeof_header = 12"

definition request_header_image :: "byte \<Rightarrow> request_header_t \<Rightarrow> byte list" where
  "request_header_image pad r = put_u32 (rh_magic r) @ [rh_opcode r, pad]
     @ put_u16 (rh_topic_name_len r) @ put_u16 (rh_partition_id r) @ put_u16 (rh_message_len r)"

definition request_header_of :: "byte list \<Rightarrow> request_header_t" where
  "request_header_of bs = \<lparr>rh_magic = get_u32 bs, rh_opcode = bs ! 4,
     rh_topic_name_len = get_u16 (drop 6 bs), rh_partition_id = get_u16 (drop 8 bs),
     rh_message_len = get_u16 (drop 10 bs)\<rparr>"

type_synonym response_pad = "byte \<times> u16"

definition response_header_image :: "response_pad \<Rightarrow> response_header_t \<Rightarrow> byte list" where
  "response_header_image pad r = put_u32 (sh_magic r) @ [sh_opcode r, fst pad]
     @ put_u16 (sh_error_code r) @ put_u16 (sh_message_len r) @ put_u16 (snd pad)"

definition response_header_of :: "byte list \<Rightarrow> response_header_t" where
  "response_header_of bs = \<lparr>sh_magic = get_u32 bs, sh_opcode = bs ! 4,
     sh_error_code = get_u16 (drop 6 bs), sh_message_len = get_u16 (drop 8 bs)\<rparr>"

lemma length_request_header_image [simp]: "length (request_header_image pad r) = 12"
  by (simp add: request_header_image_def)

lemma length_response_header_image [simp]: "length (response_header_image pad r) = 12"
  by (simp add: response_header_image_def)

lemma request_header_of_image: "request_header_of (request_header_image pad r) = r"
  by (cases r) (simp add: request_header_of_def request_header_image_def nth_append)

lemma response_header_of_image: "response_header_of (response_header_image pad r) = r"
  by (cases r) (simp add: response_header_of_def response_header_image_def nth_append)

interpretation rqh: fixed_codec 12 "request_header_image pad" request_header_of for pad
  by unfold_locales (simp_all add: request_header_of_image)

interpretation rsh: fixed_codec 12 "response_header_image pad" response_header_of for pad
  by unfold_locales (simp_all add: response_header_of_image)

subsection \<open>Names\<close>

definition opcode_to_string :: "byte \<Rightarrow> string" where
  "opcode_to_string b =
     (case opcode_of b of
        Some PUSH \<Rightarrow> ''PUSH''
      | Some PULL \<Rightarrow> ''PULL''
      | Some DELETE \<Rightarrow> ''DELETE''
      | Some ERROR \<Rightarrow> ''ERROR''
      | None \<Rightarrow> ''UNKNOWN'')"

definition error_code_to_string :: "u16 \<Rightarrow> string" where
  "error_code_to_string w =
     (case error_code_of w of
        Some OK \<Rightarrow> ''OK''
      | Some INVALID_TOPIC_NAME \<Rightarrow> ''INVALID_TOPIC_NAME''
      | Some INVALID_PARTITION_ID \<Rightarrow> ''INVALID_PARTITION_ID''
      | Some TOPIC_NOT_FOUND \<Rightarrow> ''TOPIC_NOT_FOUND''
      | Some PARTITION_NOT_FOUND \<Rightarrow> ''PARTITION_NOT_FOUND''
      | Some EMPTY_PARTITION \<Rightarrow> ''EMPTY_PARTITION''
      | Some MESSAGE_NOT_FOUND \<Rightarrow> ''MESSAGE_NOT_FOUND''
      | Some INTERNAL_ERROR \<Rightarrow> ''INTERNAL_ERROR''
      | None \<Rightarrow> ''UNKNOWN'')"

text \<open>
  The header image and the reading of its fields agree: a header in the stream, whatever its padding
  bytes hold, is read field by field as it was written, and the rest of the stream is what
  follows it; this holds for request and for response headers.
\<close>

lemma headers_round_trip:
  "take_block sizeof_header request_header_of (request_header_image pad rq @ rest) = Some (rq, rest)
   \<and> take_block sizeof_header response_header_of (response_header_image pads rs @ rest) = Some (rs, rest)"
  using rqh.take_block_put rsh.take_block_put by (simp add: sizeof_header_def)

text \<open>
  Names are unambiguous. Different opcodes and different error codes have different
  values and different printed names, and a value that is no enumerator prints as UNKNOWN.
\<close>

lemma protocol_names_unambiguous:
  "(opcode_to_string (opcode_value a) = opcode_to_string (opcode_value b) \<longleftrightarrow> a = b)
   \<and> (error_code_to_string (error_code_value c) = error_code_to_string (error_code_value d) \<longleftrightarrow> c = d)
   \<and> (opcode_to_string v = ''UNKNOWN'' \<longleftrightarrow> v \<notin> range opcode_value)
   \<and> (error_code_to_string w = ''UNKNOWN'' \<longleftrightarrow> w \<notin> range error_code_value)"
proof (intro conjI)
  show "opcode_to_string (opcode_value a) = opcode_to_string (opcode_value b) \<longleftrightarrow> a = b"
    by (simp only: opcode_to_string_def opcode_of_value option.case) (cases a; cases b; simp)
  show "error_code_to_string (error_code_value c) = error_code_to_string (error_code_value d) \<longleftrightarrow> c = d"
    by (simp only: error_code_to_string_def error_code_of_value option.case) (cases c; cases d; simp)
  have "opcode_of v = None \<longleftrightarrow> v \<notin> range opcode_value"
    using opcode_of_Some [of v] by (cases "opcode_of v") auto
  moreover have "opcode_to_string v = ''UNKNOWN'' \<longleftrightarrow> opcode_of v = None"
    by (simp add: opcode_to_string_def split: option.split opcode_t.split)
  ultimately show "opcode_to_string v = ''UNKNOWN'' \<longleftrightarrow> v \<notin> range opcode_value" by simp
  have "error_code_of w = None \<longleftrightarrow> w \<notin> range error_code_value"
    using error_code_of_Some [of w] by (cases "error_code_of w") auto
  moreover have "error_code_to_string w = ''UNKNOWN'' \<longleftrightarrow> error_code_of w = None"
    by (simp add: error_code_to_string_def split: option.split error_code_t.split)
  ultimately show "error_code_to_string w = ''UNKNOWN'' \<longleftrightarrow> w \<notin> range error_code_value" by simp
qed

end
