(* ===== verification/Session.thy ===== *)
theory Session
  imports Registry Protocol
begin

section \<open>Sessions (\<open>src/rpc/rpc-session.h\<close>)\<close>

text \<open>
  A session reads request headers and bodies from a socket and answers each request with
  one write. The handlers are modelled as functions from the request and the world to the
  new world and the bytes of their single \<open>async_write\<close>, which is in each of them the last
  statement to run; \<open>session_round\<close> performs the writes.
\<close>

subsection \<open>What the platform decides\<close>

text \<open>
  The allocator, whether a file can be opened, \<open>std::hash<char>\<close>, the address and the
  indeterminate contents of the request buffer on the stack, padding bytes, and the name of
  the running fiber.
\<close>

record platform_t =
  pf_malloc :: allocator
  pf_can_open :: "byte list \<Rightarrow> bool"
  pf_hash_char :: "byte \<Rightarrow> u64"
  pf_buffer :: ptr
  pf_garbage :: "byte list"
  pf_wall_pad :: nat
  pf_response_pad :: response_pad
  pf_fiber :: fiber

subsection \<open>Responses\<close>

definition response_image :: "response_pad \<Rightarrow> byte \<Rightarrow> error_code_t \<Rightarrow> byte list \<Rightarrow> byte list" where
  "response_image pad opcode code payload =
     response_header_image pad \<lparr>sh_magic = RPC_MAGIC, sh_opcode = opcode,
       sh_error_code = error_code_value code, sh_message_len = of_nat (length payload)\<rparr> @ payload"

definition ok_response :: "platform_t \<Rightarrow> byte \<Rightarrow> byte list" where
  "ok_response pf opcode = response_header_image (pf_response_pad pf)
     \<lparr>sh_magic = RPC_MAGIC, sh_opcode = opcode, sh_error_code = error_code_value OK, sh_message_len = 0\<rparr>"

definition data_response :: "platform_t \<Rightarrow> byte \<Rightarrow> byte list \<Rightarrow> byte list" where
  "data_response pf opcode data = response_image (pf_response_pad pf) opcode OK data"

definition error_response :: "platform_t \<Rightarrow> byte \<Rightarrow> error_code_t \<Rightarrow> string \<Rightarrow> byte list" where
  "error_response pf opcode code message = response_image (pf_response_pad pf) opcode code (lit message)"

subsection \<open>Building the request block\<close>

text \<open>\<open>memcpy\<close> into the 1024 bytes of the caller's \<open>request_buffer\<close>.\<close>

definition memcpy :: "nat \<Rightarrow> byte list \<Rightarrow> byte list \<Rightarrow> fault + byte list" where
  "memcpy off data buf =
     (if off + length data \<le> length buf then Inr (take off buf @ data @ drop (off + length data) buf)
      else Inl Buffer_overflow)"

definition create_request :: "request_t \<Rightarrow> byte list \<Rightarrow> u16 \<Rightarrow> byte list \<Rightarrow> fault + request_t" where
  "create_request buffer topic pid message =
     rbind (memcpy 0 (put_u16 (of_nat (length topic))) (rq_bytes buffer)) (\<lambda>b1.
     rbind (memcpy 2 (put_u16 pid) b1) (\<lambda>b2.
     rbind (memcpy 4 (put_u16 (of_nat (length message))) b2) (\<lambda>b3.
     rbind (memcpy 6 topic b3) (\<lambda>b4.
     rbind (memcpy (6 + length topic) message b4) (\<lambda>b5.
       Inr (buffer\<lparr>rq_bytes := b5\<rparr>))))))"

definition request_buffer :: "platform_t \<Rightarrow> request_t" where
  "request_buffer pf = \<lparr>rq_base = pf_buffer pf, rq_bytes = take 1024 (pf_garbage pf @ replicate 1024 0)\<rparr>"

subsection \<open>Handlers\<close>

definition handle_push :: "platform_t \<Rightarrow> request_header_t \<Rightarrow> byte list \<Rightarrow> byte list \<Rightarrow> world_t
    \<Rightarrow> fault + world_t \<times> byte list" where
  "handle_push pf hdr topic message W =
     (if topic = [] then
        Inr (W, error_response pf (opcode_value PUSH) INVALID_TOPIC_NAME ''Empty topic name'')
      else
        rbind (get_or_create_topic (pf_can_open pf) 1 topic W) (\<lambda>W1.
        rbind (create_request (request_buffer pf) topic (rh_partition_id hdr) message) (\<lambda>r.
        rbind (on_topic topic (\<lambda>s. rbind (topic_push (pf_malloc pf) (request_hash (pf_hash_char pf))
                 (pf_wall_pad pf) (pf_fiber pf) r s) (\<lambda>t. Inr (t, ()))) W1) (\<lambda>(W2, _).
          Inr (W2, ok_response pf (opcode_value PUSH))))))"

definition handle_pull :: "platform_t \<Rightarrow> request_header_t \<Rightarrow> byte list \<Rightarrow> world_t
    \<Rightarrow> fault + world_t \<times> byte list" where
  "handle_pull pf hdr topic W =
     (if topic = [] then
        Inr (W, error_response pf (opcode_value PULL) INVALID_TOPIC_NAME ''Empty topic name'')
      else if get_topic topic W = None then
        Inr (W, error_response pf (opcode_value PULL) TOPIC_NOT_FOUND ''Topic not found'')
      else if rh_partition_id hdr = INVALID_TOPIC_ID then
        Inr (W, error_response pf (opcode_value PULL) INVALID_PARTITION_ID ''Partition ID required for PULL'')
      else if rh_partition_id hdr \<ge> 3 then
        Inr (W, error_response pf (opcode_value PULL) PARTITION_NOT_FOUND ''Invalid partition ID'')
      else
        rbind (on_topic topic (topic_read (pf_fiber pf) (rh_partition_id hdr)) W) (\<lambda>(W1, result).
          Inr (W1, case result of
              None \<Rightarrow> error_response pf (opcode_value PULL) EMPTY_PARTITION ''No messages in partition''
            | Some data \<Rightarrow> data_response pf (opcode_value PULL) data)))"

definition handle_delete :: "platform_t \<Rightarrow> request_header_t \<Rightarrow> byte list \<Rightarrow> byte list \<Rightarrow> world_t
    \<Rightarrow> fault + world_t \<times> byte list" where
  "handle_delete pf hdr topic message W =
     (if topic = [] then
        Inr (W, error_response pf (opcode_value DELETE) INVALID_TOPIC_NAME ''Empty topic name'')
      else if get_topic topic W = None then
        Inr (W, error_response pf (opcode_value DELETE) TOPIC_NOT_FOUND ''Topic not found'')
      else if rh_partition_id hdr = INVALID_TOPIC_ID then
        Inr (W, error_response pf (opcode_value DELETE) INVALID_PARTITION_ID ''Partition ID required for DELETE'')
      else
        rbind (create_request (request_buffer pf) topic (rh_partition_id hdr) message) (\<lambda>r.
        rbind (on_topic topic (topic_remove (pf_wall_pad pf) (pf_fiber pf) r) W) (\<lambda>(W1, removed).
          Inr (W1, ok_response pf (opcode_value DELETE)))))"

definition handle_request :: "platform_t \<Rightarrow> request_header_t \<Rightarrow> byte list \<Rightarrow> byte list \<Rightarrow> world_t
    \<Rightarrow> fault + world_t \<times> byte list" where
  "handle_request pf hdr topic message W =
     (case opcode_of (rh_opcode hdr) of
        Some PUSH \<Rightarrow> handle_push pf hdr topic message W
      | Some PULL \<Rightarrow> handle_pull pf hdr topic W
      | Some DELETE \<Rightarrow> handle_delete pf hdr topic message W
      | _ \<Rightarrow> Inr (W, error_response pf (rh_opcode hdr) INTERNAL_ERROR ''Unknown opcode''))"

subsection \<open>The request block\<close>

lemma length_request_buffer [simp]: "length (rq_bytes (request_buffer pf)) = 1024"
  by (simp add: request_buffer_def)

text \<open>The five copies fit together or the last two overflow.\<close>

lemma memcpy_at: "length buf = off + length data + k \<Longrightarrow>
    memcpy off data buf = Inr (take off buf @ data @ drop (off + length data) buf)"
  by (simp add: memcpy_def)

lemma create_request_fits:
  assumes "length (rq_bytes b) = 6 + length topic + length msg + k"
  shows "create_request b topic pid msg =
     Inr (b\<lparr>rq_bytes := request_image topic pid msg @ drop (6 + length topic + length msg) (rq_bytes b)\<rparr>)"
  using assms by (simp add: create_request_def memcpy_def request_image_def add.assoc) (simp only: ac_simps)

lemma create_request_overflow:
  assumes "6 \<le> length (rq_bytes b)" and "length (rq_bytes b) < 6 + length topic + length msg"
  shows "create_request b topic pid msg = Inl Buffer_overflow"
  using assms by (simp add: create_request_def memcpy_def)

lemma create_request_ok:
  assumes "6 + length topic + length msg \<le> 1024"
  obtains r rest where "create_request (request_buffer pf) topic pid msg = Inr r"
    and "rq_bytes r = request_image topic pid msg @ rest" and "rq_base r = pf_buffer pf"
proof -
  obtain k where "length (rq_bytes (request_buffer pf)) = 6 + length topic + length msg + k"
    using assms by (metis le_iff_add length_request_buffer)
  from create_request_fits [OF this] show thesis by (intro that) (auto simp: request_buffer_def)
qed

subsection \<open>Sockets and the session loop\<close>

text \<open>
  The socket is Boost.Asio's and so a parameter: \<open>so_read n\<close> is \<open>async_read\<close> into a buffer of
  \<open>n\<close> bytes and \<open>so_write\<close> is \<open>async_write\<close>; where they throw, they return no bytes and \<open>False\<close>.
\<close>

record 'k socket_api =
  so_read :: "nat \<Rightarrow> 'k \<Rightarrow> byte list option \<times> 'k"
  so_write :: "byte list \<Rightarrow> 'k \<Rightarrow> bool \<times> 'k"

text \<open>
  How \<open>start\<close> returns: the loop was left by \<open>break\<close>, an exception of the socket was caught,
  or the process is gone.
\<close>

datatype 'k session_end =
    Closed 'k world_t
  | Io_error 'k world_t
  | Crashed fault

datatype 'k round_result =
    Next_request 'k world_t
  | Ended "'k session_end"

definition refuse :: "'k socket_api \<Rightarrow> byte list \<Rightarrow> 'k \<Rightarrow> world_t \<Rightarrow> 'k round_result" where
  "refuse api bytes k W =
     (case so_write api bytes k of
        (True, k') \<Rightarrow> Ended (Closed k' W)
      | (False, k') \<Rightarrow> Ended (Io_error k' W))"

text \<open>The body of the \<open>while\<close> loop from the views on: handle the request, write the answer.\<close>

definition answer_request :: "'k socket_api \<Rightarrow> platform_t \<Rightarrow> request_header_t \<Rightarrow> byte list \<Rightarrow> 'k \<Rightarrow> world_t \<Rightarrow> 'k round_result" where
  "answer_request api pf hdr data k W =
     (let topic = take (unat (rh_topic_name_len hdr)) data;
          message = take (unat (rh_message_len hdr)) (drop (unat (rh_topic_name_len hdr)) data)
      in case handle_request pf hdr topic message W of
           Inl f \<Rightarrow> Ended (Crashed f)
         | Inr (W', bytes) \<Rightarrow>
             (case so_write api bytes k of
                (True, k') \<Rightarrow> Next_request k' W'
              | (False, k') \<Rightarrow> Ended (Io_error k' W')))"

definition session_buffer_size :: nat where
  "session_buffer_size = 65536"

definition session_round :: "'k socket_api \<Rightarrow> platform_t \<Rightarrow> 'k \<Rightarrow> world_t \<Rightarrow> 'k round_result" where
  "session_round api pf k W =
     (case so_read api sizeof_header k of
        (None, k1) \<Rightarrow> Ended (Io_error k1 W)
      | (Some bs, k1) \<Rightarrow>
          if length bs = 0 then Ended (Closed k1 W)
          else
            let hdr = request_header_of bs;
                total_data_len = unat (rh_topic_name_len hdr) + unat (rh_message_len hdr)
            in
              if rh_magic hdr \<noteq> RPC_MAGIC then
                refuse api (error_response pf (opcode_value PUSH) INTERNAL_ERROR ''Invalid magic number'') k1 W
              else if total_data_len > session_buffer_size - sizeof_header then
                refuse api (error_response pf (rh_opcode hdr) INTERNAL_ERROR ''Data too large'') k1 W
              else if total_data_len > 0 then
                (case so_read api total_data_len k1 of
                   (None, k2) \<Rightarrow> Ended (Io_error k2 W)
                 | (Some data, k2) \<Rightarrow>
                     if length data = 0 then Ended (Closed k2 W) else answer_request api pf hdr data k2 W)
              else answer_request api pf hdr [] k1 W)"

partial_function (option) session_loop :: "'k socket_api \<Rightarrow> platform_t \<Rightarrow> 'k \<Rightarrow> world_t \<Rightarrow> 'k session_end option" where
  "session_loop api pf k W =
     (case session_round api pf k W of
        Next_request k' W' \<Rightarrow> session_loop api pf k' W'
      | Ended e \<Rightarrow> Some e)"

text \<open>
  What a connected stream socket promises: reads take the next bytes of the input, and fail
  when the peer has sent fewer; writes append to the output.
\<close>

definition socket_ok :: "'k socket_api \<Rightarrow> ('k \<Rightarrow> byte list) \<Rightarrow> ('k \<Rightarrow> byte list) \<Rightarrow> bool" where
  "socket_ok api inp out \<longleftrightarrow>
     (\<forall>n k. if n \<le> length (inp k)
        then \<exists>k'. so_read api n k = (Some (take n (inp k)), k') \<and> inp k' = drop n (inp k) \<and> out k' = out k
        else \<exists>k'. so_read api n k = (None, k') \<and> out k' = out k)
   \<and> (\<forall>bytes k. \<exists>k'. so_write api bytes k = (True, k') \<and> inp k' = inp k \<and> out k' = out k @ bytes)"

lemma socket_read:
  assumes "socket_ok api inp out" and "n \<le> length (inp k)"
  obtains k' where "so_read api n k = (Some (take n (inp k)), k')" and "inp k' = drop n (inp k)" and "out k' = out k"
  using assms(1) [unfolded socket_ok_def, THEN conjunct1, THEN spec, THEN spec, of n k] assms(2) that
  by (auto simp only: if_True)

lemma socket_read_short:
  assumes "socket_ok api inp out" and "length (inp k) < n"
  obtains k' where "so_read api n k = (None, k')" and "out k' = out k"
  using assms(1) [unfolded socket_ok_def, THEN conjunct1, THEN spec, THEN spec, of n k] assms(2) that
  by (auto simp only: not_le [symmetric] if_False)

lemma socket_write:
  assumes "socket_ok api inp out"
  obtains k' where "so_write api bytes k = (True, k')" and "inp k' = inp k" and "out k' = out k @ bytes"
  using assms [unfolded socket_ok_def, THEN conjunct2, THEN spec, THEN spec, of bytes k] that by blast

text \<open>A socket on which the hypotheses about sockets are instantiated: two byte strings.\<close>

definition pair_socket :: "(byte list \<times> byte list) socket_api" where
  "pair_socket = \<lparr>
     so_read = (\<lambda>n k. if n \<le> length (fst k) then (Some (take n (fst k)), (drop n (fst k), snd k)) else (None, k)),
     so_write = (\<lambda>bytes k. (True, (fst k, snd k @ bytes)))\<rparr>"

lemma pair_socket_ok: "socket_ok pair_socket fst snd"
  by (simp add: socket_ok_def pair_socket_def)

end
