(* ===== verification/Broker.thy ===== *)
theory Broker
  imports Session
begin

section \<open>The broker the sessions implement\<close>

text \<open>
  The abstract specification of request handling: a broker is a message list for each topic
  name, and a request changes it and is answered by a reply. \<open>broker_step\<close> is \<open>None\<close>
  exactly where the code leaves defined behaviour or aborts. The handlers refine it: they
  run to the end on every request it accepts, with its reply and its effect, and fault on
  the others.
\<close>

record broker_request =
  br_opcode :: byte
  br_topic :: "byte list"
  br_pid :: u16
  br_message :: "byte list"

record broker_reply =
  rp_opcode :: byte
  rp_code :: error_code_t
  rp_payload :: "byte list"

definition reply :: "byte \<Rightarrow> error_code_t \<Rightarrow> string \<Rightarrow> broker_reply" where
  "reply opcode code text = \<lparr>rp_opcode = opcode, rp_code = code, rp_payload = lit text\<rparr>"

definition ack :: "byte \<Rightarrow> byte list \<Rightarrow> broker_reply" where
  "ack opcode data = \<lparr>rp_opcode = opcode, rp_code = OK, rp_payload = data\<rparr>"

definition messages_of :: "broker \<Rightarrow> byte list \<Rightarrow> byte list list" where
  "messages_of B name = (case B name of None \<Rightarrow> [] | Some q \<Rightarrow> q)"

text \<open>The block built by \<open>create_request\<close> must fit into 1024 bytes.\<close>

definition fits_buffer :: "byte list \<Rightarrow> byte list \<Rightarrow> bool" where
  "fits_buffer topic msg \<longleftrightarrow> 6 + length topic + length msg \<le> 1024"

definition broker_push :: "(byte list \<Rightarrow> bool) \<Rightarrow> broker \<Rightarrow> broker_request \<Rightarrow> (broker \<times> broker_reply) option" where
  "broker_push can_open B q =
     (if br_topic q = [] then Some (B, reply (opcode_value PUSH) INVALID_TOPIC_NAME ''Empty topic name'')
      else if B (br_topic q) = None \<and> \<not> can_open (lit ''/tmp/'' @ br_topic q) then None
      else if \<not> fits_buffer (br_topic q) (br_message q) then None
      else if br_pid q \<noteq> 0 \<and> br_pid q \<noteq> INVALID_TOPIC_ID then None
      else Some (B(br_topic q \<mapsto> messages_of B (br_topic q) @ [br_message q]), ack (opcode_value PUSH) []))"

definition broker_pull :: "broker \<Rightarrow> broker_request \<Rightarrow> (broker \<times> broker_reply) option" where
  "broker_pull B q =
     (if br_topic q = [] then Some (B, reply (opcode_value PULL) INVALID_TOPIC_NAME ''Empty topic name'')
      else if B (br_topic q) = None then Some (B, reply (opcode_value PULL) TOPIC_NOT_FOUND ''Topic not found'')
      else if br_pid q = INVALID_TOPIC_ID then
        Some (B, reply (opcode_value PULL) INVALID_PARTITION_ID ''Partition ID required for PULL'')
      else if br_pid q \<ge> 3 then Some (B, reply (opcode_value PULL) PARTITION_NOT_FOUND ''Invalid partition ID'')
      else if br_pid q \<noteq> 0 then None
      else case messages_of B (br_topic q) of
          [] \<Rightarrow> Some (B, reply (opcode_value PULL) EMPTY_PARTITION ''No messages in partition'')
        | m # ms \<Rightarrow> Some (B, ack (opcode_value PULL) m))"

text \<open>A \<open>DELETE\<close> that does not match the first message is acknowledged like one that does.\<close>

definition broker_delete :: "broker \<Rightarrow> broker_request \<Rightarrow> (broker \<times> broker_reply) option" where
  "broker_delete B q =
     (if br_topic q = [] then Some (B, reply (opcode_value DELETE) INVALID_TOPIC_NAME ''Empty topic name'')
      else if B (br_topic q) = None then Some (B, reply (opcode_value DELETE) TOPIC_NOT_FOUND ''Topic not found'')
      else if br_pid q = INVALID_TOPIC_ID then
        Some (B, reply (opcode_value DELETE) INVALID_PARTITION_ID ''Partition ID required for DELETE'')
      else if \<not> fits_buffer (br_topic q) (br_message q) then None
      else if br_pid q \<noteq> 0 then None
      else case messages_of B (br_topic q) of
          [] \<Rightarrow> None
        | m # ms \<Rightarrow> Some (if m = br_message q then B(br_topic q \<mapsto> ms) else B, ack (opcode_value DELETE) []))"

definition broker_step :: "(byte list \<Rightarrow> bool) \<Rightarrow> broker \<Rightarrow> broker_request \<Rightarrow> (broker \<times> broker_reply) option" where
  "broker_step can_open B q =
     (case opcode_of (br_opcode q) of
        Some PUSH \<Rightarrow> broker_push can_open B q
      | Some PULL \<Rightarrow> broker_pull B q
      | Some DELETE \<Rightarrow> broker_delete B q
      | _ \<Rightarrow> Some (B, reply (br_opcode q) INTERNAL_ERROR ''Unknown opcode''))"

subsection \<open>Requests and replies on the wire\<close>

definition header_of :: "broker_request \<Rightarrow> request_header_t" where
  "header_of q = \<lparr>rh_magic = RPC_MAGIC, rh_opcode = br_opcode q,
     rh_topic_name_len = of_nat (length (br_topic q)), rh_partition_id = br_pid q,
     rh_message_len = of_nat (length (br_message q))\<rparr>"

definition reply_image :: "platform_t \<Rightarrow> broker_reply \<Rightarrow> byte list" where
  "reply_image pf rep = response_image (pf_response_pad pf) (rp_opcode rep) (rp_code rep) (rp_payload rep)"

definition handle :: "platform_t \<Rightarrow> broker_request \<Rightarrow> world_t \<Rightarrow> fault + world_t \<times> byte list" where
  "handle pf q W = handle_request pf (header_of q) (br_topic q) (br_message q) W"

lemma reply_image_simps [simp]:
  "reply_image pf (reply c e t) = error_response pf c e t"
  "reply_image pf (ack c d) = data_response pf c d"
  "data_response pf c [] = ok_response pf c"
  by (simp_all add: reply_image_def reply_def ack_def error_response_def data_response_def ok_response_def
      response_image_def)

lemma header_of_fields [simp]:
  "rh_opcode (header_of q) = br_opcode q" "rh_partition_id (header_of q) = br_pid q"
  "rh_magic (header_of q) = RPC_MAGIC"
  "rh_topic_name_len (header_of q) = of_nat (length (br_topic q))"
  "rh_message_len (header_of q) = of_nat (length (br_message q))"
  by (simp_all add: header_of_def)

subsection \<open>Operations on a topic with one partition\<close>

lemma less_one_iff: "unat (i :: u16) < 1 \<longleftrightarrow> i = 0"
  by (simp add: unat_eq_0)

lemma push_index_single:
  assumes "length (tp_storage T) = 1" and "partition_id r = 0 \<or> partition_id r = INVALID_TOPIC_ID"
    and "partition_id r = INVALID_TOPIC_ID \<Longrightarrow> \<exists>v. hash r = Inr v"
  shows "push_index hash r T = Inr 0"
proof (cases "partition_id r = INVALID_TOPIC_ID")
  case True
  then obtain v where "hash r = Inr v" using assms(3) by blast
  with True assms(1) show ?thesis by (auto simp: push_index_def)
next
  case False
  with assms(2) show ?thesis by (simp add: push_index_def)
qed

lemma topic_push_out_of_range:
  assumes "partition_id r \<noteq> INVALID_TOPIC_ID" and "length (tp_storage T) \<le> unat (partition_id r)"
  shows "topic_push malloc hash pad f r (env, T) = Inl Out_of_bounds"
  using assms by (simp add: topic_push_def push_index_def storage_at_def)

lemma topic_read_out_of_range:
  assumes "i \<noteq> INVALID_TOPIC_ID" and "length (tp_storage T) \<le> unat i"
  shows "topic_read f i (env, T) = Inl Out_of_bounds"
  using assms by (simp add: topic_read_def storage_at_def kassert_defs)

lemma topic_remove_out_of_range:
  assumes "partition_id r \<noteq> INVALID_TOPIC_ID" and "length (tp_storage T) \<le> unat (partition_id r)"
  shows "topic_remove pad f r (env, T) = Inl Out_of_bounds"
  using assms by (simp add: topic_remove_def remove_check_def storage_at_def kassert_defs Let_def)

subsection \<open>The handlers refine the broker\<close>

definition has_memory :: "nat \<Rightarrow> nat \<Rightarrow> world_t \<Rightarrow> bool" where
  "has_memory K n W \<longleftrightarrow> memory_left K n (en_heap (wo_env W))"

definition platform_sound :: "nat \<Rightarrow> platform_t \<Rightarrow> bool" where
  "platform_sound K pf \<longleftrightarrow> malloc_sound (pf_malloc pf) \<and> malloc_supply (pf_malloc pf) K"

text \<open>
  The result of a handler that agrees with an outcome of the broker: a fault for \<open>None\<close>,
  otherwise the reply's image and a well-formed world that stands for the new broker.
\<close>

definition agrees :: "platform_t \<Rightarrow> (broker \<times> broker_reply) option \<Rightarrow> fault + world_t \<times> byte list \<Rightarrow> bool" where
  "agrees pf spec result \<longleftrightarrow>
     (case spec of
        None \<Rightarrow> (\<exists>f. result = Inl f)
      | Some (B', rep) \<Rightarrow> (\<exists>W'. result = Inr (W', reply_image pf rep) \<and> world_wf W' \<and> world_abs W' = B'))"

lemma agrees_same:
  "world_wf W \<Longrightarrow> out = reply_image pf rep \<Longrightarrow> agrees pf (Some (world_abs W, rep)) (Inr (W, out))"
  by (simp add: agrees_def)

lemma agrees_fault [simp]: "agrees pf None (Inl f)"
  by (simp add: agrees_def)

lemma get_or_create_refused:
  "registry_find name W = None \<Longrightarrow> \<not> can_open (lit ''/tmp/'' @ name) \<Longrightarrow>
     get_or_create_topic can_open n name W = Inl Kassert_failed"
  by (simp add: get_or_create_topic_def registry_emplace_def topic_ctor_def wall_writer_ctor_def
      kassert_defs Let_def)

lemma create_request_too_long:
  "\<not> fits_buffer topic msg \<Longrightarrow> create_request (request_buffer pf) topic pid msg = Inl Buffer_overflow"
  by (rule create_request_overflow) (auto simp: fits_buffer_def)

lemma create_request_views:
  assumes "fits_buffer topic msg"
  obtains r where "create_request (request_buffer pf) topic pid msg = Inr r" and "partition_id r = pid"
    and "view_read r (message_view r) = Inr msg" and "view_read r (topic_name r) = Inr topic"
    and "rq_base r = pf_buffer pf" and "message_len r = of_nat (length msg)"
    and "topic_name_len r = of_nat (length topic)"
proof -
  have small: "length topic < 65536" "length msg < 65536" "6 + length topic + length msg \<le> 1024"
    using assms by (auto simp: fits_buffer_def)
  obtain r rest where r: "create_request (request_buffer pf) topic pid msg = Inr r"
    "rq_bytes r = request_image topic pid msg @ rest" "rq_base r = pf_buffer pf"
    by (rule create_request_ok [OF small(3)])
  show thesis
    by (rule that [OF r(1) request_image_fields(1) [OF r(2)] request_image_views(2) [OF r(2) small(1,2)]
          request_image_views(1) [OF r(2) small(1,2)] r(3) request_image_fields(3) [OF r(2)]
          request_image_fields(2) [OF r(2)]])
qed

text \<open>A push that reaches the topic: the effect on world, log and memory.\<close>

lemma handle_push_room:
  assumes wf: "world_wf W" and snd: "malloc_sound (pf_malloc pf)"
    and room: "pf_malloc pf (en_heap (wo_env W)) (8 + length msg) \<noteq> 0"
    and topic: "topic \<noteq> []" "registry_find topic W = None \<Longrightarrow> pf_can_open pf (lit ''/tmp/'' @ topic)"
    and fits: "fits_buffer topic msg" and pid: "rh_partition_id hdr = 0 \<or> rh_partition_id hdr = INVALID_TOPIC_ID"
  obtains W' r where "handle_push pf hdr topic msg W = Inr (W', ok_response pf (opcode_value PUSH))"
    and "world_wf W'" and "\<exists>a. dom (en_heap (wo_env W')) \<subseteq> insert a (dom (en_heap (wo_env W)))"
    and "world_abs W' = (world_abs W)(topic \<mapsto> messages_of (world_abs W) topic @ [msg])"
    and "topic_log_of topic W' =
      (if registry_find topic W = None then [] else topic_log_of topic W)
        @ wall_data_image (pf_wall_pad pf) (wall_data_for 0 True r)"
    and "\<forall>other. other \<noteq> topic \<longrightarrow> topic_log_of other W' = topic_log_of other W"
    and "create_request (request_buffer pf) topic (rh_partition_id hdr) msg = Inr r"
proof -
  obtain W1 T where W1: "get_or_create_topic (pf_can_open pf) 1 topic W = Inr W1" "world_wf W1"
    "registry_find topic W1 = Some T" "en_heap (wo_env W1) = en_heap (wo_env W)"
    "world_abs W1 = (case world_abs W topic of None \<Rightarrow> (world_abs W)(topic \<mapsto> []) | Some q \<Rightarrow> world_abs W)"
    "\<forall>n. topic_log_of n W1 = (if n = topic \<and> registry_find topic W = None then [] else topic_log_of n W)"
    by (rule get_or_create_ok [OF wf, of topic "pf_can_open pf", OF topic(2)])
  obtain r where r: "create_request (request_buffer pf) topic (rh_partition_id hdr) msg = Inr r"
    "partition_id r = rh_partition_id hdr" "view_read r (message_view r) = Inr msg"
    "view_read r (topic_name r) = Inr topic"
    by (rule create_request_views [OF fits])
  note w = world_wfD [OF W1(2,3)]
  let ?malloc = "pf_malloc pf" and ?hash = "request_hash (pf_hash_char pf)" and ?env = "wo_env W1"
  have idx: "push_index ?hash r T = Inr 0" "unat (0 :: u16) < length (tp_storage T)"
    using push_index_single [OF w(3)] pid r(2,4) w(3) by (auto simp: request_hash_def)
  have room1: "?malloc (en_heap ?env) (8 + length msg) \<noteq> 0" using room by (simp add: W1(4))
  obtain t where t: "topic_push ?malloc ?hash (pf_wall_pad pf) (pf_fiber pf) r (?env, T) = Inr t" "topic_wf t"
    "topic_abs t = spec_push (unat (0 :: u16)) msg (topic_abs (?env, T))"
    "topic_file t = topic_file (?env, T) @ wall_data_image (pf_wall_pad pf) (wall_data_for 0 True r)"
    "topic_frame (?env, T) t"
    by (rule topic_push_ok [OF w(1) idx r(3) snd room1])
  note u = world_topic_update [OF W1(2,3) t(2,5)]
  have memory: "\<exists>a. dom (en_heap (wo_env (set_topic topic t W1))) \<subseteq> insert a (dom (en_heap (wo_env W)))"
    using topic_push_dom [OF t(1)] by (simp add: W1(4))
  have "topic_abs t ! 0 = messages_of (world_abs W) topic @ [msg]"
    using w(4,5) W1(5)
    by (cases "world_abs W topic") (auto simp: t(3) spec_push_def messages_of_def simp del: world_abs_None)
  moreover have "(world_abs W1)(topic \<mapsto> q) = (world_abs W)(topic \<mapsto> q)" for q
    using W1(5) by (cases "world_abs W topic") (auto simp del: world_abs_None)
  ultimately have abs: "world_abs (set_topic topic t W1)
      = (world_abs W)(topic \<mapsto> messages_of (world_abs W) topic @ [msg])" by (simp add: u(2))
  have "topic_path t = lit ''/tmp/'' @ topic" using t(5) w(2) by (simp add: topic_frame_def)
  then have log: "topic_log_of topic (set_topic topic t W1) = topic_file t"
    by (cases t) (simp add: topic_log_of_def topic_file_def topic_path_def)
  have old: "topic_file (?env, T) = topic_log_of topic W1"
    using w(2) by (simp add: topic_log_of_def topic_file_def topic_path_def)
  have run: "handle_push pf hdr topic msg W = Inr (set_topic topic t W1, ok_response pf (opcode_value PUSH))"
    using topic W1(1,3) r(1) t(1) by (simp add: handle_push_def on_topic_def)
  show thesis
    by (rule that [OF run u(1) memory abs _ _ r(1)]) (use log old t(4) W1(6) u(3) in auto)
qed

lemma handle_push_accepted:
  assumes wf: "world_wf W" and pf: "platform_sound K pf" and mem: "has_memory K (Suc n) W"
    and topic: "topic \<noteq> []" "registry_find topic W = None \<Longrightarrow> pf_can_open pf (lit ''/tmp/'' @ topic)"
    and fits: "fits_buffer topic msg" and pid: "rh_partition_id hdr = 0 \<or> rh_partition_id hdr = INVALID_TOPIC_ID"
  obtains W' r where "handle_push pf hdr topic msg W = Inr (W', ok_response pf (opcode_value PUSH))"
    and "world_wf W'" and "has_memory K n W'"
    and "world_abs W' = (world_abs W)(topic \<mapsto> messages_of (world_abs W) topic @ [msg])"
    and "topic_log_of topic W' =
      (if registry_find topic W = None then [] else topic_log_of topic W)
        @ wall_data_image (pf_wall_pad pf) (wall_data_for 0 True r)"
    and "\<forall>other. other \<noteq> topic \<longrightarrow> topic_log_of other W' = topic_log_of other W"
    and "create_request (request_buffer pf) topic (rh_partition_id hdr) msg = Inr r"
proof -
  have snd: "malloc_sound (pf_malloc pf)" and "malloc_supply (pf_malloc pf) K"
    using pf by (simp_all add: platform_sound_def)
  moreover have "8 + length msg < 2 ^ 17" using fits by (simp add: fits_buffer_def)
  ultimately have room: "pf_malloc pf (en_heap (wo_env W)) (8 + length msg) \<noteq> 0"
    using mem malloc_supplyD by (auto simp: has_memory_def)
  obtain W' r where W': "handle_push pf hdr topic msg W = Inr (W', ok_response pf (opcode_value PUSH))"
    "world_wf W'" "\<exists>a. dom (en_heap (wo_env W')) \<subseteq> insert a (dom (en_heap (wo_env W)))"
    "world_abs W' = (world_abs W)(topic \<mapsto> messages_of (world_abs W) topic @ [msg])"
    "topic_log_of topic W' = (if registry_find topic W = None then [] else topic_log_of topic W)
        @ wall_data_image (pf_wall_pad pf) (wall_data_for 0 True r)"
    "\<forall>other. other \<noteq> topic \<longrightarrow> topic_log_of other W' = topic_log_of other W"
    "create_request (request_buffer pf) topic (rh_partition_id hdr) msg = Inr r"
    by (rule handle_push_room [OF wf snd room topic(1) _ fits pid], erule topic(2))
  have "has_memory K n W'"
    using W'(3) memory_left_grow mem by (auto simp: has_memory_def)
  from that [OF W'(1,2) this W'(4-7)] show thesis .
qed

lemma set_topic_same: "registry_find name W = Some T \<Longrightarrow> set_topic name (wo_env W, T) W = W"
  by (cases W) (auto simp: set_topic_def registry_find_def map_upd_triv)

lemma handle_push_agrees:
  assumes "world_wf W" and "malloc_sound (pf_malloc pf)"
    and room: "fits_buffer (br_topic q) (br_message q) \<Longrightarrow>
      pf_malloc pf (en_heap (wo_env W)) (8 + length (br_message q)) \<noteq> 0"
  shows "agrees pf (broker_push (pf_can_open pf) (world_abs W) q)
     (handle_push pf (header_of q) (br_topic q) (br_message q) W)"
proof -
  let ?topic = "br_topic q" and ?hdr = "header_of q"
  consider "?topic = []"
    | "?topic \<noteq> []" "registry_find ?topic W = None" "\<not> pf_can_open pf (lit ''/tmp/'' @ ?topic)"
    | (late) "?topic \<noteq> []" "registry_find ?topic W = None \<longrightarrow> pf_can_open pf (lit ''/tmp/'' @ ?topic)"
    by metis
  then show ?thesis
  proof cases
    case 1
    then show ?thesis using assms by (simp add: broker_push_def handle_push_def agrees_same)
  next
    case 2
    then show ?thesis by (simp add: broker_push_def handle_push_def get_or_create_refused)
  next
    case late
    then have can: "registry_find ?topic W = None \<Longrightarrow> pf_can_open pf (lit ''/tmp/'' @ ?topic)" by simp
    obtain W1 T where W1: "get_or_create_topic (pf_can_open pf) 1 ?topic W = Inr W1" "world_wf W1"
      "registry_find ?topic W1 = Some T"
      by (rule get_or_create_ok [OF assms(1), of ?topic "pf_can_open pf", OF can])
    show ?thesis
    proof (cases "fits_buffer ?topic (br_message q)")
      case False
      then show ?thesis
        using late W1(1) by (simp add: broker_push_def handle_push_def create_request_too_long)
    next
      case fits: True
      show ?thesis
      proof (cases "br_pid q = 0 \<or> br_pid q = INVALID_TOPIC_ID")
        case True
        then have pid: "rh_partition_id ?hdr = 0 \<or> rh_partition_id ?hdr = INVALID_TOPIC_ID" by simp
        obtain W' where "handle_push pf ?hdr ?topic (br_message q) W = Inr (W', ok_response pf (opcode_value PUSH))"
          "world_wf W'"
          "world_abs W' = (world_abs W)(?topic \<mapsto> messages_of (world_abs W) ?topic @ [br_message q])"
          by (rule handle_push_room [OF assms(1,2) room [OF fits] late(1) can fits pid]) blast
        with late fits True show ?thesis by (auto simp: broker_push_def agrees_def)
      next
        case False
        obtain r where r: "create_request (request_buffer pf) ?topic (br_pid q) (br_message q) = Inr r"
          "partition_id r = br_pid q"
          by (rule create_request_views [OF fits])
        have "length (tp_storage T) \<le> unat (partition_id r)"
          using world_wfD(3) [OF W1(2,3)] False less_one_iff [of "br_pid q"] by (simp add: r(2) not_less [symmetric])
        with False r late W1 show ?thesis
          by (simp add: broker_push_def handle_push_def on_topic_def topic_push_out_of_range fits)
      qed
    qed
  qed
qed

lemma handle_pull_agrees:
  assumes wf: "world_wf W"
  shows "agrees pf (broker_pull (world_abs W) q) (handle_pull pf (header_of q) (br_topic q) W)"
proof (cases "registry_find (br_topic q) W")
  case None
  then show ?thesis using assms by (simp add: broker_pull_def handle_pull_def get_topic_def agrees_same)
next
  case (Some T)
  note w = world_wfD [OF wf Some]
  have abs: "world_abs W (br_topic q) \<noteq> None" using Some by simp
  have out: "topic_read (pf_fiber pf) (br_pid q) (wo_env W, T) = Inl Out_of_bounds"
    if "br_pid q \<noteq> 0" "br_pid q \<noteq> INVALID_TOPIC_ID"
    using that w(3) less_one_iff [of "br_pid q"] by (intro topic_read_out_of_range) (auto simp: not_less [symmetric])
  have inside: "topic_read (pf_fiber pf) 0 (wo_env W, T) = Inr ((wo_env W, T),
      (case messages_of (world_abs W) (br_topic q) of [] \<Rightarrow> None | m # ms \<Rightarrow> Some m))"
    using topic_read_ok [OF w(1), of 0] w(3,5) by (simp add: messages_of_def)
  have "(0 :: u16) \<noteq> INVALID_TOPIC_ID" "\<not> 3 \<le> (0 :: u16)" by (simp_all add: INVALID_TOPIC_ID_def)
  then show ?thesis
    using Some out inside assms
    by (cases "br_pid q = 0"; cases "messages_of (world_abs W) (br_topic q)")
      (auto simp: broker_pull_def handle_pull_def get_topic_def on_topic_def set_topic_same intro!: agrees_same)
qed

lemma handle_delete_agrees:
  assumes wf: "world_wf W"
  shows "agrees pf (broker_delete (world_abs W) q)
     (handle_delete pf (header_of q) (br_topic q) (br_message q) W)"
proof (cases "registry_find (br_topic q) W = None \<or> br_topic q = [] \<or> br_pid q = INVALID_TOPIC_ID")
  case True
  then show ?thesis
    using assms by (auto simp: broker_delete_def handle_delete_def get_topic_def intro!: agrees_same)
next
  case False
  then obtain T where T: "registry_find (br_topic q) W = Some T" by auto
  from False have ne: "br_topic q \<noteq> []" "br_pid q \<noteq> INVALID_TOPIC_ID" by auto
  note w = world_wfD [OF wf T]
  show ?thesis
  proof (cases "fits_buffer (br_topic q) (br_message q)")
    case no_fit: False
    with False T show ?thesis
      by (simp add: broker_delete_def handle_delete_def get_topic_def create_request_too_long)
  next
    case fits: True
    obtain r where r: "create_request (request_buffer pf) (br_topic q) (br_pid q) (br_message q) = Inr r"
      "partition_id r = br_pid q" "view_read r (message_view r) = Inr (br_message q)"
      by (rule create_request_views [OF fits])
    let ?remove = "topic_remove (pf_wall_pad pf) (pf_fiber pf) r (wo_env W, T)"
    have run: "handle_delete pf (header_of q) (br_topic q) (br_message q) W =
        rbind ?remove (\<lambda>(t, b). Inr (set_topic (br_topic q) t W, ok_response pf (opcode_value DELETE)))"
      using False r(1) T by (cases ?remove) (auto simp: handle_delete_def get_topic_def on_topic_def split: prod.split)
    show ?thesis
    proof (cases "br_pid q = 0")
      case other: False
      then have "?remove = Inl Out_of_bounds"
        using False r(2) w(3) less_one_iff [of "br_pid q"]
        by (intro topic_remove_out_of_range) (auto simp: not_less [symmetric])
      with False T fits other run show ?thesis by (simp add: broker_delete_def)
    next
      case pid: True
      have i: "unat (partition_id r) < length (tp_storage T)" using r(2) w(3) pid by simp
      have msgs: "messages_of (world_abs W) (br_topic q) = topic_abs (wo_env W, T) ! unat (partition_id r)"
        using w(5) r(2) pid by (simp add: messages_of_def)
      note chk = remove_check_ok [OF w(1) i r(3), of "pf_fiber pf"]
      show ?thesis
      proof (cases "messages_of (world_abs W) (br_topic q)")
        case Nil
        with chk msgs have "?remove = Inl Null_dereference" by (simp add: topic_remove_def)
        with False T fits pid run Nil show ?thesis by (simp add: broker_delete_def)
      next
        case (Cons m ms)
        with msgs have front: "topic_abs (wo_env W, T) ! unat (partition_id r) = m # ms" by simp
        show ?thesis
        proof (cases "m = br_message q")
          case False
          with chk front have "?remove = Inr ((wo_env W, T), False)" by (simp add: topic_remove_def)
          with run have "handle_delete pf (header_of q) (br_topic q) (br_message q) W
              = Inr (W, ok_response pf (opcode_value DELETE))" by (simp add: set_topic_same [OF T])
          with assms False T ne fits pid Cons show ?thesis
            by (simp add: broker_delete_def agrees_same)
        next
          case same: True
          note front = front [unfolded same]
          obtain t where t: "remove_commit (pf_wall_pad pf) (pf_fiber pf) r (wo_env W, T) = Inr (t, True)" "topic_wf t"
            "topic_abs t = spec_pop (unat (partition_id r)) (topic_abs (wo_env W, T))" "topic_frame (wo_env W, T) t"
            by (rule remove_commit_match [OF w(1) i r(3) front])
          have "?remove = Inr (t, True)" using chk front same t(1) by (simp add: topic_remove_def)
          with run have out: "handle_delete pf (header_of q) (br_topic q) (br_message q) W
              = Inr (set_topic (br_topic q) t W, ok_response pf (opcode_value DELETE))" by simp
          have "topic_abs t ! 0 = ms" using t(3) front w(4) pid r(2) by (simp add: spec_pop_def)
          then show ?thesis
            using world_topic_update [OF wf T t(2,4)] out ne T fits pid Cons same
            by (simp add: broker_delete_def agrees_def)
        qed
      qed
    qed
  qed
qed

text \<open>Memory: a request adds at most one live cell.\<close>

lemma get_or_create_heap:
  "get_or_create_topic can_open n name W = Inr W1 \<Longrightarrow> en_heap (wo_env W1) = en_heap (wo_env W)"
  by (auto simp: get_or_create_topic_def registry_emplace_def result_simps split: option.splits
      dest!: topic_ctor_fresh(1))

lemma topic_read_env: "topic_read f i (env, T) = Inr ((env', T'), x) \<Longrightarrow> env' = env"
  by (auto simp: topic_read_def result_simps split: if_splits)

lemma topic_remove_dom:
  "topic_remove pad f r (env, T) = Inr ((env', T'), b) \<Longrightarrow> dom (en_heap env') \<subseteq> dom (en_heap env)"
proof -
  assume run: "topic_remove pad f r (env, T) = Inr ((env', T'), b)"
  then obtain T1 found where chk: "remove_check f r (env, T) = Inr ((env, T1), found)"
    by (auto simp: topic_remove_def remove_check_def result_simps Let_def)
  from run chk show ?thesis
    using remove_commit_dom [of pad f r "(env, T1)" "(env', T')" b] by (auto simp: topic_remove_def split: if_splits)
qed

lemma handle_dom:
  assumes "handle pf q W = Inr (W', bytes)"
  shows "\<exists>a. dom (en_heap (wo_env W')) \<subseteq> insert a (dom (en_heap (wo_env W)))"
proof -
  consider "W' = W"
    | hdr where "handle_push pf hdr (br_topic q) (br_message q) W = Inr (W', bytes)"
    | hdr where "handle_pull pf hdr (br_topic q) W = Inr (W', bytes)"
    | hdr where "handle_delete pf hdr (br_topic q) (br_message q) W = Inr (W', bytes)"
    using assms by (auto simp: handle_def handle_request_def split: option.splits opcode_t.splits)
  then show ?thesis
  proof cases
    case 1
    then show ?thesis by auto
  next
    case 2
    then show ?thesis
      by (auto simp: handle_push_def on_topic_def result_simps split: if_splits option.splits
          dest!: get_or_create_heap topic_push_dom) (metis fst_conv)
  next
    case 3
    then show ?thesis
      by (auto simp: handle_pull_def on_topic_def result_simps split: if_splits option.splits
          dest!: topic_read_env; blast)
  next
    case 4
    then show ?thesis
      by (auto simp: handle_delete_def on_topic_def result_simps split: if_splits option.splits
          dest!: topic_remove_dom; blast)
  qed
qed

text \<open>The refinement, first where memory does not run out, then for every run that returns.\<close>

lemma handle_agrees:
  assumes "world_wf W" and "malloc_sound (pf_malloc pf)"
    and "opcode_of (br_opcode q) = Some PUSH \<Longrightarrow> fits_buffer (br_topic q) (br_message q) \<Longrightarrow>
      pf_malloc pf (en_heap (wo_env W)) (8 + length (br_message q)) \<noteq> 0"
  shows "agrees pf (broker_step (pf_can_open pf) (world_abs W) q) (handle pf q W)"
  unfolding broker_step_def handle_def handle_request_def header_of_fields
  using handle_push_agrees [OF assms(1,2), of q] handle_pull_agrees [OF assms(1), of pf q]
    handle_delete_agrees [OF assms(1), of pf q] assms
  by (auto simp: agrees_same split: option.split opcode_t.split)

lemma handle_outcome:
  assumes "world_wf W" and "platform_sound K pf" and "has_memory K (Suc n) W"
  shows "case broker_step (pf_can_open pf) (world_abs W) q of
       None \<Rightarrow> \<exists>f. handle pf q W = Inl f
     | Some (B', rep) \<Rightarrow> \<exists>W'. handle pf q W = Inr (W', reply_image pf rep) \<and> world_wf W' \<and> world_abs W' = B'
         \<and> has_memory K n W'"
proof -
  have "malloc_sound (pf_malloc pf)" and sup: "malloc_supply (pf_malloc pf) K"
    using assms(2) by (simp_all add: platform_sound_def)
  moreover have "pf_malloc pf (en_heap (wo_env W)) (8 + length (br_message q)) \<noteq> 0"
    if "fits_buffer (br_topic q) (br_message q)"
    using that assms(3) malloc_supplyD [OF sup] by (simp add: has_memory_def fits_buffer_def)
  ultimately have "agrees pf (broker_step (pf_can_open pf) (world_abs W) q) (handle pf q W)"
    using handle_agrees [OF assms(1)] by blast
  moreover have "has_memory K n W'" if "handle pf q W = Inr (W', bytes)" for W' bytes
    using handle_dom [OF that] assms(3) memory_left_grow by (auto simp: has_memory_def)
  ultimately show ?thesis by (auto simp: agrees_def split: option.splits)
qed

text \<open>A handler that returns has had its memory, so it has done what the broker specifies.\<close>

lemma handle_push_room_needed:
  assumes run: "handle_push pf hdr topic msg W = Inr (W', bytes)" and "topic \<noteq> []" and "fits_buffer topic msg"
  shows "pf_malloc pf (en_heap (wo_env W)) (8 + length msg) \<noteq> 0"
proof -
  obtain r where r: "create_request (request_buffer pf) topic (rh_partition_id hdr) msg = Inr r"
    "view_read r (message_view r) = Inr msg"
    by (rule create_request_views [OF assms(3)])
  from assms(2) run r(1) obtain W1 T t where W1: "get_or_create_topic (pf_can_open pf) 1 topic W = Inr W1"
    and t: "topic_push (pf_malloc pf) (request_hash (pf_hash_char pf)) (pf_wall_pad pf) (pf_fiber pf) r (wo_env W1, T) = Inr t"
    by (auto simp: handle_push_def on_topic_def result_simps split: option.splits)
  from t obtain i m where "view_read r (message_view r) = Inr m" "pf_malloc pf (en_heap (wo_env W1)) (8 + length m) \<noteq> 0"
    by (rule topic_push_Inr)
  with r(2) get_or_create_heap [OF W1] show ?thesis by simp
qed

lemma handle_sound:
  assumes wf: "world_wf W" and snd: "malloc_sound (pf_malloc pf)" and run: "handle pf q W = Inr (W', bytes)"
  obtains rep where "broker_step (pf_can_open pf) (world_abs W) q = Some (world_abs W', rep)"
    and "bytes = reply_image pf rep" and "world_wf W'"
proof (cases "opcode_of (br_opcode q) = Some PUSH \<and> br_topic q = []")
  case True
  then have "W' = W" "bytes = reply_image pf (reply (opcode_value PUSH) INVALID_TOPIC_NAME ''Empty topic name'')"
    using run by (simp_all add: handle_def handle_request_def handle_push_def)
  with True wf that show thesis by (simp add: broker_step_def broker_push_def)
next
  case False
  have "agrees pf (broker_step (pf_can_open pf) (world_abs W) q) (handle pf q W)"
  proof (rule handle_agrees [OF wf snd])
    assume push: "opcode_of (br_opcode q) = Some PUSH" and fits: "fits_buffer (br_topic q) (br_message q)"
    then have "handle_push pf (header_of q) (br_topic q) (br_message q) W = Inr (W', bytes)"
      using run by (simp add: handle_def handle_request_def)
    from handle_push_room_needed [OF this _ fits] push False
    show "pf_malloc pf (en_heap (wo_env W)) (8 + length (br_message q)) \<noteq> 0" by simp
  qed
  with run that show thesis by (auto simp: agrees_def split: option.splits)
qed

subsection \<open>Streams of requests\<close>

fun broker_run :: "(byte list \<Rightarrow> bool) \<Rightarrow> broker \<Rightarrow> broker_request list \<Rightarrow> (broker \<times> broker_reply list) option" where
  "broker_run can_open B [] = Some (B, [])"
| "broker_run can_open B (q # qs) =
     (case broker_step can_open B q of
        None \<Rightarrow> None
      | Some (B', rep) \<Rightarrow>
          (case broker_run can_open B' qs of
             None \<Rightarrow> None
           | Some (B'', reps) \<Rightarrow> Some (B'', rep # reps)))"

definition frame_of :: "byte \<Rightarrow> broker_request \<Rightarrow> byte list" where
  "frame_of pad q = request_header_image pad (header_of q) @ br_topic q @ br_message q"

definition frame_fits :: "broker_request \<Rightarrow> bool" where
  "frame_fits q \<longleftrightarrow> length (br_topic q) + length (br_message q) \<le> session_buffer_size - sizeof_header"

lemma frame_fits_lengths:
  assumes "frame_fits q"
  shows "unat (of_nat (length (br_topic q)) :: u16) = length (br_topic q)"
    and "unat (of_nat (length (br_message q)) :: u16) = length (br_message q)"
  using assms by (simp_all add: frame_fits_def session_buffer_size_def sizeof_header_def unat_of_nat)

text \<open>One round on a whole frame hands exactly the request to its handler.\<close>

lemma session_round_frame:
  assumes sock: "socket_ok api inp out" and fits: "frame_fits q" and inp: "inp k = frame_of pad q @ rest"
  shows "case handle pf q W of
       Inl f \<Rightarrow> session_round api pf k W = Ended (Crashed f)
     | Inr (W', bytes) \<Rightarrow> \<exists>k'. session_round api pf k W = Next_request k' W' \<and> inp k' = rest \<and> out k' = out k @ bytes"
proof -
  note len = frame_fits_lengths [OF fits]
  let ?n = "length (br_topic q) + length (br_message q)"
  have "sizeof_header \<le> length (inp k)" by (simp add: inp frame_of_def sizeof_header_def)
  then obtain k1 where k1: "so_read api sizeof_header k = (Some (take sizeof_header (inp k)), k1)"
    "inp k1 = drop sizeof_header (inp k)" "out k1 = out k"
    by (rule socket_read [OF sock])
  have hdr: "take sizeof_header (inp k) = request_header_image pad (header_of q)"
    and rest: "inp k1 = br_topic q @ br_message q @ rest"
    by (simp_all add: k1(2) inp frame_of_def sizeof_header_def)
  have small: "\<not> session_buffer_size - sizeof_header < ?n" using fits by (simp add: frame_fits_def)
  have fin: "case handle pf q W of
       Inl f \<Rightarrow> answer_request api pf (header_of q) (br_topic q @ br_message q) k2 W = Ended (Crashed f)
     | Inr (W', bytes) \<Rightarrow> \<exists>k'. answer_request api pf (header_of q) (br_topic q @ br_message q) k2 W = Next_request k' W'
         \<and> inp k' = rest \<and> out k' = out k @ bytes"
    if k2: "inp k2 = rest" "out k2 = out k" for k2
  proof (cases "handle pf q W")
    case (Inl f)
    then show ?thesis by (simp add: answer_request_def len handle_def)
  next
    case (Inr r)
    obtain W' bytes where r: "r = (W', bytes)" by (cases r)
    obtain k' where "so_write api bytes k2 = (True, k')" "inp k' = inp k2" "out k' = out k2 @ bytes"
      by (rule socket_write [OF sock])
    with Inr r k2 show ?thesis by (simp add: answer_request_def len handle_def)
  qed
  show ?thesis
  proof (cases "?n = 0")
    case True
    then have empty: "br_topic q = []" "br_message q = []" by simp_all
    have eq: "session_round api pf k W = answer_request api pf (header_of q) (br_topic q @ br_message q) k1 W"
      using k1(1) hdr by (simp add: session_round_def request_header_of_image empty)
    have "inp k1 = rest" using rest by (simp add: empty)
    from fin [OF this k1(3)] show ?thesis unfolding eq .
  next
    case False
    have "?n \<le> length (inp k1)" by (simp add: rest)
    then obtain k2 where k2: "so_read api ?n k1 = (Some (take ?n (inp k1)), k2)"
      "inp k2 = drop ?n (inp k1)" "out k2 = out k1"
      by (rule socket_read [OF sock])
    have eq: "session_round api pf k W = answer_request api pf (header_of q) (br_topic q @ br_message q) k2 W"
      using k1(1) hdr k2(1) rest small False
      by (auto simp: session_round_def request_header_of_image len Let_def)
    have "inp k2 = rest" "out k2 = out k" using k2(2,3) k1(3) rest by simp_all
    from fin [OF this] show ?thesis unfolding eq .
  qed
qed

lemma session_loop_end:
  assumes "socket_ok api inp out" and "length (inp k) < sizeof_header"
  shows "\<exists>k'. session_loop api pf k W = Some (Io_error k' W) \<and> out k' = out k"
proof -
  obtain k' where "so_read api sizeof_header k = (None, k')" "out k' = out k"
    by (rule socket_read_short [OF assms])
  then have "session_round api pf k W = Ended (Io_error k' W)" by (simp add: session_round_def)
  then show ?thesis using \<open>out k' = out k\<close> by (subst session_loop.simps) simp
qed

lemma session_loop_frame:
  assumes "socket_ok api inp out" and "frame_fits q" and "inp k = frame_of pad q @ rest"
  shows "case handle pf q W of
       Inl f \<Rightarrow> session_loop api pf k W = Some (Crashed f)
     | Inr (W', bytes) \<Rightarrow> \<exists>k'. session_loop api pf k W = session_loop api pf k' W' \<and> inp k' = rest \<and> out k' = out k @ bytes"
  using session_round_frame [OF assms, of pf W]
  by (auto simp: session_loop.simps [of api pf k W] split: sum.splits)

lemma session_loop_stream:
  assumes sock: "socket_ok api inp out" and pf: "platform_sound K pf"
  shows "list_all frame_fits qs \<Longrightarrow> inp k = concat (map (frame_of pad) qs) @ rest \<Longrightarrow> world_wf W \<Longrightarrow>
     has_memory K (length qs + n) W \<Longrightarrow>
     (case broker_run (pf_can_open pf) (world_abs W) qs of
        None \<Rightarrow> \<exists>f. session_loop api pf k W = Some (Crashed f)
      | Some (B', reps) \<Rightarrow> \<exists>k' W'. session_loop api pf k W = session_loop api pf k' W' \<and> inp k' = rest
          \<and> out k' = out k @ concat (map (reply_image pf) reps) \<and> world_wf W' \<and> world_abs W' = B' \<and> has_memory K n W')"
proof (induction qs arbitrary: k W)
  case Nil
  then show ?case by auto
next
  case (Cons q qs)
  have mem: "has_memory K (Suc (length qs + n)) W" using Cons.prems(4) by simp
  note impl = handle_outcome [OF Cons.prems(3) pf mem, of q]
  have fits: "frame_fits q" and inp: "inp k = frame_of pad q @ concat (map (frame_of pad) qs) @ rest"
    using Cons.prems(1,2) by simp_all
  note round = session_loop_frame [OF sock fits inp, of pf W]
  show ?case
  proof (cases "broker_step (pf_can_open pf) (world_abs W) q")
    case None
    then show ?thesis using impl round by auto
  next
    case (Some r)
    obtain B' rep where r: "r = (B', rep)" by (cases r)
    then obtain W' where W': "handle pf q W = Inr (W', reply_image pf rep)" "world_wf W'" "world_abs W' = B'"
      "has_memory K (length qs + n) W'"
      using impl Some by auto
    then obtain k1 where k1: "session_loop api pf k W = session_loop api pf k1 W'"
      "inp k1 = concat (map (frame_of pad) qs) @ rest" "out k1 = out k @ reply_image pf rep"
      using round by auto
    show ?thesis
      using Cons.IH [OF _ k1(2) W'(2,4)] Cons.prems(1) Some r k1(1,3) W'(3)
      by (cases "broker_run (pf_can_open pf) B' qs") (auto, blast)
  qed
qed

end
