(* ===== verification/Client.thy ===== *)
theory Client
  imports Broker
begin

section \<open>The client (\<open>src/rpc/rpc-client.h\<close>)\<close>

text \<open>
  The client frames requests for the session and reads its replies. Resolving, connecting
  and closing are Boost.Asio's and so parameters; \<open>boost::asio::read\<close> and \<open>write\<close> on the
  connected socket are \<open>so_read\<close> and \<open>so_write\<close>, as for the session.
\<close>

subsection \<open>Operations\<close>

record 'k network_api =
  nw_connect :: "byte list \<Rightarrow> u16 \<Rightarrow> 'k \<Rightarrow> bool \<times> 'k"
  nw_close :: "'k \<Rightarrow> 'k"

record 'k client_t =
  cl_socket :: 'k
  cl_connected :: bool

definition client_ctor :: "'k \<Rightarrow> 'k client_t" where
  "client_ctor k = \<lparr>cl_socket = k, cl_connected = False\<rparr>"

text \<open>\<open>False\<close> stands for the exception, after which \<open>connected_\<close> is as before.\<close>

definition client_connect :: "'k network_api \<Rightarrow> byte list \<Rightarrow> u16 \<Rightarrow> 'k client_t \<Rightarrow> bool \<times> 'k client_t" where
  "client_connect net host port c =
     (case nw_connect net host port (cl_socket c) of
        (True, k) \<Rightarrow> (True, c\<lparr>cl_socket := k, cl_connected := True\<rparr>)
      | (False, k) \<Rightarrow> (False, c\<lparr>cl_socket := k\<rparr>))"

definition client_disconnect :: "'k network_api \<Rightarrow> 'k client_t \<Rightarrow> 'k client_t" where
  "client_disconnect net c =
     (if cl_connected c then c\<lparr>cl_socket := nw_close net (cl_socket c), cl_connected := False\<rparr> else c)"

definition is_connected :: "'k client_t \<Rightarrow> bool" where
  "is_connected c \<longleftrightarrow> cl_connected c"

text \<open>
  The buffer has the size that the 16-bit length fields announce; the copies have the sizes
  of the arguments.
\<close>

definition request_bytes :: "byte \<Rightarrow> byte \<Rightarrow> byte list \<Rightarrow> u16 \<Rightarrow> byte list \<Rightarrow> fault + byte list" where
  "request_bytes pad opcode topic pid message =
     (let header = \<lparr>rh_magic = RPC_MAGIC, rh_opcode = opcode,
            rh_topic_name_len = of_nat (length topic), rh_partition_id = pid,
            rh_message_len = of_nat (length message)\<rparr>;
          total_size = sizeof_header + unat (rh_topic_name_len header) + unat (rh_message_len header);
          buffer = replicate total_size 0
      in rbind (memcpy 0 (request_header_image pad header) buffer) (\<lambda>b1.
         rbind (memcpy sizeof_header topic b1) (\<lambda>b2.
           memcpy (sizeof_header + length topic) message b2)))"

definition send_request :: "'k socket_api \<Rightarrow> byte \<Rightarrow> byte \<Rightarrow> byte list \<Rightarrow> u16 \<Rightarrow> byte list \<Rightarrow> 'k client_t
    \<Rightarrow> fault + bool \<times> 'k client_t" where
  "send_request api pad opcode topic pid message c =
     rbind (request_bytes pad opcode topic pid message) (\<lambda>bytes.
       case so_write api bytes (cl_socket c) of (sent, k) \<Rightarrow> Inr (sent, c\<lparr>cl_socket := k\<rparr>))"

definition send_push :: "'k socket_api \<Rightarrow> byte \<Rightarrow> byte list \<Rightarrow> u16 \<Rightarrow> byte list \<Rightarrow> 'k client_t
    \<Rightarrow> fault + bool \<times> 'k client_t" where
  "send_push api pad topic pid message = send_request api pad (opcode_value PUSH) topic pid message"

definition send_pull :: "'k socket_api \<Rightarrow> byte \<Rightarrow> byte list \<Rightarrow> u16 \<Rightarrow> 'k client_t \<Rightarrow> fault + bool \<times> 'k client_t" where
  "send_pull api pad topic pid = send_request api pad (opcode_value PULL) topic pid []"

definition send_delete :: "'k socket_api \<Rightarrow> byte \<Rightarrow> byte list \<Rightarrow> u16 \<Rightarrow> byte list \<Rightarrow> 'k client_t
    \<Rightarrow> fault + bool \<times> 'k client_t" where
  "send_delete api pad topic pid message = send_request api pad (opcode_value DELETE) topic pid message"

text \<open>\<open>None\<close> is the exception of a failed read.\<close>

definition receive_response :: "'k socket_api \<Rightarrow> 'k client_t \<Rightarrow> response_header_t option \<times> 'k client_t" where
  "receive_response api c =
     (case so_read api sizeof_header (cl_socket c) of
        (None, k) \<Rightarrow> (None, c\<lparr>cl_socket := k\<rparr>)
      | (Some bs, k) \<Rightarrow> (Some (response_header_of bs), c\<lparr>cl_socket := k\<rparr>))"

definition receive_response_data :: "'k socket_api \<Rightarrow> response_header_t \<Rightarrow> 'k client_t
    \<Rightarrow> byte list option option \<times> 'k client_t" where
  "receive_response_data api response c =
     (if sh_message_len response = 0 then (Some None, c)
      else
        case so_read api (unat (sh_message_len response)) (cl_socket c) of
          (None, k) \<Rightarrow> (None, c\<lparr>cl_socket := k\<rparr>)
        | (Some bs, k) \<Rightarrow> (Some (Some bs), c\<lparr>cl_socket := k\<rparr>))"

subsection \<open>Framing\<close>

definition client_request :: "byte \<Rightarrow> byte list \<Rightarrow> u16 \<Rightarrow> byte list \<Rightarrow> broker_request" where
  "client_request opcode topic pid message =
     \<lparr>br_opcode = opcode, br_topic = topic, br_pid = pid, br_message = message\<rparr>"

lemma request_bytes_small:
  assumes "length topic < 65536" and "length message < 65536"
  shows "request_bytes pad opcode topic pid message = Inr (frame_of pad (client_request opcode topic pid message))"
  using assms
  by (simp add: request_bytes_def memcpy_def sizeof_header_def unat_of_nat frame_of_def client_request_def
      header_of_def)

lemma request_bytes_large:
  assumes "length topic \<ge> 65536 \<or> length message \<ge> 65536"
  shows "request_bytes pad opcode topic pid message = Inl Buffer_overflow"
proof -
  have "length topic mod 65536 + length message mod 65536 < length topic + length message"
    using assms mod_less_eq_dividend [of "length topic" 65536] mod_less_eq_dividend [of "length message" 65536]
      mod_less_divisor [of 65536 "length topic"] mod_less_divisor [of 65536 "length message"] by linarith
  then show ?thesis
    by (simp add: request_bytes_def memcpy_def sizeof_header_def unat_of_nat Let_def)
qed

text \<open>A reply that is next in the client's input is received as it was sent.\<close>

lemma receive_reply:
  assumes "socket_ok api inp out" and "inp (cl_socket c) = reply_image pf rep @ rest"
    and "length (rp_payload rep) < 65536"
  obtains c1 c2 response where "receive_response api c = (Some response, c1)"
    and "sh_opcode response = rp_opcode rep" and "error_code_of (sh_error_code response) = Some (rp_code rep)"
    and "sh_magic response = RPC_MAGIC" and "unat (sh_message_len response) = length (rp_payload rep)"
    and "receive_response_data api response c1 =
      (Some (if rp_payload rep = [] then None else Some (rp_payload rep)), c2)"
    and "inp (cl_socket c2) = rest" and "out (cl_socket c2) = out (cl_socket c)"
    and "cl_connected c2 = cl_connected c"
proof -
  let ?len = "of_nat (length (rp_payload rep)) :: u16"
  let ?h = "\<lparr>sh_magic = RPC_MAGIC, sh_opcode = rp_opcode rep,
      sh_error_code = error_code_value (rp_code rep), sh_message_len = ?len\<rparr>"
  have img: "inp (cl_socket c) = response_header_image (pf_response_pad pf) ?h @ rp_payload rep @ rest"
    by (simp add: assms(2) reply_image_def response_image_def)
  have len: "unat ?len = length (rp_payload rep)" using assms(3) by (simp add: unat_of_nat)
  have "sizeof_header \<le> length (inp (cl_socket c))" by (simp add: img sizeof_header_def)
  then obtain k1 where k1: "so_read api sizeof_header (cl_socket c) = (Some (take sizeof_header (inp (cl_socket c))), k1)"
    "inp k1 = drop sizeof_header (inp (cl_socket c))" "out k1 = out (cl_socket c)"
    by (rule socket_read [OF assms(1)])
  let ?c1 = "c\<lparr>cl_socket := k1\<rparr>"
  have recv: "receive_response api c = (Some ?h, ?c1)"
    using k1(1) by (simp add: receive_response_def img sizeof_header_def response_header_of_image)
  have rest1: "inp k1 = rp_payload rep @ rest" by (simp add: k1(2) img sizeof_header_def)
  show thesis
  proof (cases "rp_payload rep = []")
    case True
    then have data: "receive_response_data api ?h ?c1 = (Some None, ?c1)" by (simp add: receive_response_data_def)
    show thesis by (rule that [of ?h ?c1 ?c1]) (use recv data True rest1 k1(3) in simp_all)
  next
    case False
    then have "?len \<noteq> 0" using len by auto
    have "length (rp_payload rep) \<le> length (inp k1)" by (simp add: rest1)
    then obtain k2 where k2: "so_read api (length (rp_payload rep)) k1 = (Some (take (length (rp_payload rep)) (inp k1)), k2)"
      "inp k2 = drop (length (rp_payload rep)) (inp k1)" "out k2 = out k1"
      by (rule socket_read [OF assms(1)])
    then have data: "receive_response_data api ?h ?c1 = (Some (Some (rp_payload rep)), c\<lparr>cl_socket := k2\<rparr>)"
      using \<open>?len \<noteq> 0\<close> by (simp add: receive_response_data_def len rest1)
    show thesis by (rule that [of ?h ?c1 "c\<lparr>cl_socket := k2\<rparr>"]) (use recv data False k2(2,3) rest1 k1(3) len in simp_all)
  qed
qed

end
