(* ===== verification/TopicProps.thy ===== *)
theory TopicProps
  imports TopicSpec
begin

section \<open>Properties of topics\<close>

text \<open>
  The theorems about \<open>src/topic.h\<close>, each with an instance: a topic with two partitions,
  empty or with one message in partition 0, and requests for it.
\<close>

subsection \<open>Instances\<close>

definition demo_writer :: wall_writer_t where
  "demo_writer = \<lparr>ww_path = lit ''/tmp/t'', ww_pos = 0, ww_mutex = um_unlocked\<rparr>"

definition demo_files :: file_system where
  "demo_files = [lit ''/tmp/t'' \<mapsto> []]"

definition demo_topic :: "partition_t list \<Rightarrow> topic_t" where
  "demo_topic ps = \<lparr>tp_offset_id = 0, tp_wall_write = demo_writer, tp_storage = ps,
     tp_mutex = sm_unlocked, tp_wall_mutex = um_unlocked\<rparr>"

definition demo_empty :: "env_t \<times> topic_t" where
  "demo_empty = (\<lparr>en_heap = Map.empty, en_files = demo_files\<rparr>, demo_topic [partition_new, partition_new])"

definition demo_one :: "byte list \<Rightarrow> env_t \<times> topic_t" where
  "demo_one msg = (\<lparr>en_heap = one_heap msg, en_files = demo_files\<rparr>,
     demo_topic [\<lparr>pt_queue = one_queue, pt_mutex = sm_unlocked\<rparr>, partition_new])"

definition demo_request :: "u16 \<Rightarrow> byte list \<Rightarrow> request_t" where
  "demo_request i msg = \<lparr>rq_base = 4096, rq_bytes = request_image (lit ''t'') i msg\<rparr>"

lemma less_two_cases: "i < Suc (Suc 0) \<longleftrightarrow> i = 0 \<or> i = Suc 0"
  by auto

lemma demo_empty_wf: "topic_wf demo_empty"
  by (simp add: demo_empty_def topic_wf_def demo_topic_def demo_writer_def demo_files_def at_end_def
      file_of_def storage_wf_def less_two_cases partition_new_def pt_addrs_def all_conj_distrib)

lemma demo_empty_abs: "topic_abs demo_empty = [[], []]"
  by (simp add: demo_empty_def topic_abs_def demo_topic_def storage_abs_def partition_new_def)

lemma demo_one_wf: "topic_wf (demo_one msg)"
  by (simp add: demo_one_def topic_wf_def demo_topic_def demo_writer_def demo_files_def at_end_def
      file_of_def storage_wf_def less_two_cases partition_new_def pt_addrs_def all_conj_distrib)

lemma demo_one_abs: "length msg < 65536 \<Longrightarrow> topic_abs (demo_one msg) = [[msg], []]"
  by (simp add: demo_one_def topic_abs_def demo_topic_def storage_abs_def partition_new_def one_queue_abs)

lemma demo_request_fields [simp]:
  "partition_id (demo_request i msg) = i"
  "length msg < 65536 \<Longrightarrow>
     view_read (demo_request i msg) (message_view (demo_request i msg)) = Inr msg"
  using request_image_fields(1) [of "demo_request i msg" "lit ''t''" i msg "[]"]
    request_image_views(2) [of "demo_request i msg" "lit ''t''" i msg "[]"]
  by (simp_all add: demo_request_def)

lemma demo_lengths: "length (tp_storage (snd demo_empty)) = 2" "length (tp_storage (snd (demo_one msg))) = 2"
  by (simp_all add: demo_empty_def demo_one_def demo_topic_def)

subsection \<open>Functional behaviour\<close>

text \<open>
  C17: \<open>push\<close> to a partition that exists, on a well-formed topic all of whose locks are free, with
  memory available and no other fiber in between, run to its end, appends the message to that
  partition and to no other, appends exactly one push record to the topic's log, leaves the topic
  well formed with every lock free again, and touches no cell and no file outside the topic.
  The fiber suspends at both locks, as \<open>async_lock\<close> posts its handler even when the lock is free;
  here the posted handler is what runs next.
\<close>

theorem topic_push_appends:
  assumes "topic_wf s" and "partition_id r \<noteq> INVALID_TOPIC_ID"
    and "unat (partition_id r) < length (topic_abs s)"
    and "view_read r (message_view r) = Inr msg"
    and "malloc_sound malloc" and "malloc (en_heap (fst s)) (8 + length msg) \<noteq> 0"
  shows "\<exists>t. topic_push malloc hash pad h r s = Inr t \<and> topic_wf t
     \<and> topic_abs t = (topic_abs s)[unat (partition_id r) := topic_abs s ! unat (partition_id r) @ [msg]]
     \<and> topic_file t = topic_file s @ wall_data_image pad (wall_data_for (partition_id r) True r)
     \<and> topic_frame s t"
proof -
  obtain env T where s: "s = (env, T)" by (cases s)
  have idx: "push_index hash r T = Inr (partition_id r)" "unat (partition_id r) < length (tp_storage T)"
    using assms(2,3) by (simp_all add: push_index_def s length_topic_abs)
  show ?thesis
    using topic_push_ok [OF assms(1) [unfolded s] idx assms(4,5) assms(6) [unfolded s fst_conv]]
    by (metis s spec_push_def)
qed

theorem topic_push_appends_witness:
  "\<exists>t. topic_push small_malloc (\<lambda>_. Inr 0) 0 7 (demo_request 1 (lit ''m'')) demo_empty = Inr t
     \<and> topic_abs t = [[], [lit ''m'']]"
proof -
  have "small_malloc (en_heap (fst demo_empty)) (8 + length (lit ''m'')) \<noteq> 0"
    by (simp add: demo_empty_def small_malloc_def)
  with topic_push_appends [OF demo_empty_wf, of "demo_request 1 (lit ''m'')" "lit ''m''" small_malloc]
  show ?thesis
    by (force simp: demo_empty_abs small_malloc_sound INVALID_TOPIC_ID_def)
qed

text \<open>
  \<open>push\<close> does not check the partition it is given: any id other than
  \<open>INVALID_TOPIC_ID\<close> that is not below the number of partitions reads past the end of the
  vector of partitions, whatever the state of the topic.
\<close>

lemma topic_push_unchecked_partition:
  assumes "partition_id r \<noteq> INVALID_TOPIC_ID" and "length (topic_abs s) \<le> unat (partition_id r)"
  shows "topic_push malloc hash pad h r s = Inl Out_of_bounds"
  using assms by (cases s) (simp add: topic_push_def push_index_def storage_at_def length_topic_abs)

lemma topic_push_unchecked_partition_witness:
  "topic_push small_malloc (\<lambda>_. Inr 0) 0 7 (demo_request 2 (lit ''m'')) demo_empty = Inl Out_of_bounds"
  by (rule topic_push_unchecked_partition) (simp_all add: demo_empty_abs INVALID_TOPIC_ID_def)

text \<open>
  A push without a partition id is routed by the hash to a partition that exists, and
  always to the same one for the same hash value: the hash modulo the number of partitions
  survives the narrowing to 16 bits.
\<close>

lemma topic_push_hash_routing:
  assumes "topic_wf s" and "partition_id r = INVALID_TOPIC_ID" and "hash r = Inr v"
    and "topic_abs s \<noteq> []"
    and "view_read r (message_view r) = Inr msg"
    and "malloc_sound malloc" and "malloc (en_heap (fst s)) (8 + length msg) \<noteq> 0"
  shows "\<exists>t. topic_push malloc hash pad h r s = Inr t \<and> topic_wf t
     \<and> topic_abs t = (let i = unat v mod length (topic_abs s)
          in (topic_abs s)[i := topic_abs s ! i @ [msg]])"
proof -
  obtain env T where s: "s = (env, T)" by (cases s)
  have ne: "tp_storage T \<noteq> []" "length (tp_storage T) < 65535"
    using assms(1,4) by (auto simp: s topic_abs_def storage_abs_def topic_wf_def)
  obtain i where i: "push_index hash r T = Inr i" "unat i = unat v mod length (tp_storage T)"
    using push_index_hash [of r hash v T, OF assms(2,3) ne] by blast
  then have "unat i < length (tp_storage T)" using ne by simp
  from topic_push_ok [OF assms(1) [unfolded s] i(1) this assms(5,6) assms(7) [unfolded s fst_conv]]
  show ?thesis by (metis s spec_push_def i(2) length_topic_abs)
qed

lemma topic_push_hash_routing_witness:
  "\<exists>t. topic_push small_malloc (\<lambda>_. Inr 5) 0 7 (demo_request INVALID_TOPIC_ID (lit ''m'')) demo_empty = Inr t
     \<and> topic_abs t = [[], [lit ''m'']]"
proof -
  have "small_malloc (en_heap (fst demo_empty)) (8 + length (lit ''m'')) \<noteq> 0"
    by (simp add: demo_empty_def small_malloc_def)
  note topic_push_hash_routing [OF demo_empty_wf, of "demo_request INVALID_TOPIC_ID (lit ''m'')"
      "\<lambda>_. Inr 5" 5 "lit ''m''" small_malloc 0 7, OF _ _ _ _ _ this]
  moreover have "(5::nat) mod Suc (Suc 0) = Suc 0" by code_simp
  ultimately show ?thesis by (auto simp: demo_empty_abs small_malloc_sound Let_def)
qed

text \<open>
  \<open>read\<close> of an existing partition returns its oldest message, or nothing when it is
  empty, and changes nothing: reading does not consume.
\<close>

lemma topic_read_front:
  assumes "topic_wf s" and "unat i < length (topic_abs s)"
  shows "topic_read h i s =
     Inr (s, if topic_abs s ! unat i = [] then None else Some (hd (topic_abs s ! unat i)))"
proof -
  obtain env T where s: "s = (env, T)" by (cases s)
  show ?thesis
    using topic_read_ok [OF assms(1) [unfolded s], of i h] assms(2)
    by (simp add: s length_topic_abs split: list.splits)
qed

lemma topic_read_front_witness:
  "topic_read 7 0 (demo_one (lit ''m'')) = Inr (demo_one (lit ''m''), Some (lit ''m''))"
  using topic_read_front [OF demo_one_wf, of 0 "lit ''m''" 7] by (simp add: demo_one_abs)

text \<open>
  \<open>remove\<close> on a partition with messages removes the front one exactly when it equals the
  given message, then logs one pop record, and otherwise reports \<open>false\<close> and changes
  nothing; on an empty partition it dereferences the null front iterator.
\<close>

lemma topic_remove_front:
  assumes "topic_wf s" and "unat (partition_id r) < length (topic_abs s)"
    and "view_read r (message_view r) = Inr msg"
  shows "case topic_abs s ! unat (partition_id r) of
      [] \<Rightarrow> topic_remove pad h r s = Inl Null_dereference
    | m # ms \<Rightarrow>
        (if m = msg then
           \<exists>t. topic_remove pad h r s = Inr (t, True) \<and> topic_wf t
             \<and> topic_abs t = (topic_abs s)[unat (partition_id r) := ms]
             \<and> topic_file t = topic_file s @ wall_data_image pad (wall_data_for (partition_id r) False r)
             \<and> topic_frame s t
         else topic_remove pad h r s = Inr (s, False))"
proof -
  obtain env T where s: "s = (env, T)" by (cases s)
  have wf: "topic_wf (env, T)" and i: "unat (partition_id r) < length (tp_storage T)"
    using assms by (simp_all add: s length_topic_abs)
  note chk = remove_check_ok [OF wf i assms(3), of h]
  show ?thesis
  proof (cases "topic_abs s ! unat (partition_id r)")
    case Nil
    then show ?thesis using chk by (simp add: s topic_remove_def)
  next
    case (Cons m ms)
    show ?thesis
    proof (cases "m = msg")
      case True
      with Cons have front: "topic_abs (env, T) ! unat (partition_id r) = msg # ms" by (simp add: s)
      from True Cons chk have "topic_remove pad h r s = remove_commit pad h r s"
        by (simp add: s topic_remove_def)
      moreover obtain t where "remove_commit pad h r (env, T) = Inr (t, True)" "topic_wf t"
        "topic_abs t = spec_pop (unat (partition_id r)) (topic_abs (env, T))"
        "topic_file t = topic_file (env, T) @ wall_data_image pad (wall_data_for (partition_id r) False r)"
        "topic_frame (env, T) t"
        by (rule remove_commit_match [OF wf i assms(3) front])
      ultimately show ?thesis using Cons True by (simp add: s spec_pop_def)
    next
      case False
      with Cons chk show ?thesis by (simp add: s topic_remove_def)
    qed
  qed
qed

lemma topic_remove_front_witness:
  "\<exists>t. topic_remove 0 7 (demo_request 0 (lit ''m'')) (demo_one (lit ''m'')) = Inr (t, True)
     \<and> topic_abs t = [[], []]"
  using topic_remove_front [OF demo_one_wf, of "demo_request 0 (lit ''m'')" "lit ''m''" "lit ''m''" 0 7]
  by (auto simp: demo_one_abs)

text \<open>
  C31: two fibers that remove the same last message can crash the process. Both pass the
  check under the read lock; the first commits; the second then finds the partition empty
  and dereferences the null front iterator, which the second check does not guard.
\<close>

theorem topic_double_remove_crash:
  "\<exists>s1 s2 s3. remove_check 1 (demo_request 0 (lit ''m'')) (demo_one (lit ''m'')) = Inr (s1, True)
     \<and> remove_check 2 (demo_request 0 (lit ''m'')) s1 = Inr (s2, True)
     \<and> remove_commit 0 1 (demo_request 0 (lit ''m'')) s2 = Inr (s3, True)
     \<and> remove_commit 0 2 (demo_request 0 (lit ''m'')) s3 = Inl Null_dereference"
proof -
  let ?r = "demo_request 0 (lit ''m'')" and ?s = "demo_one (lit ''m'')"
  obtain env T where s: "?s = (env, T)" by (cases ?s)
  have wf: "topic_wf (env, T)" using demo_one_wf s by metis
  have abs: "topic_abs (env, T) = [[lit ''m''], []]" using demo_one_abs [of "lit ''m''"] s by simp
  have i: "unat (partition_id ?r) < length (tp_storage T)"
    using length_topic_abs [of env T] abs by auto
  have msg: "view_read ?r (message_view ?r) = Inr (lit ''m'')" by simp
  have chk: "remove_check h ?r ?s = Inr (?s, True)" for h
    using remove_check_ok [OF wf i msg, of h] abs by (simp add: s)
  have "topic_abs (env, T) ! unat (partition_id ?r) = lit ''m'' # []" by (simp add: abs)
  then obtain t where t: "remove_commit 0 1 ?r (env, T) = Inr (t, True)" "topic_wf t"
    "topic_abs t = spec_pop (unat (partition_id ?r)) (topic_abs (env, T))"
    using remove_commit_match [OF wf i msg] by metis
  obtain env' T' where t': "t = (env', T')" by (cases t)
  have abs': "topic_abs (env', T') = [[], []]" using t(3) by (simp add: t' abs spec_pop_def)
  then have i': "unat (partition_id ?r) < length (tp_storage T')"
    using length_topic_abs [of env' T'] by auto
  have "remove_commit 0 2 ?r t = Inl Null_dereference"
    using remove_commit_empty [OF t(2) [unfolded t'] i'] abs' by (simp add: t')
  with chk t(1) s show ?thesis by metis
qed

subsection \<open>The log\<close>

text \<open>
  In every state that a fresh topic reaches, whatever the interleaving of pushes, reads
  and the two halves of removals, replaying the log file gives the size of every partition:
  each record is whole, and pushes minus pops of a partition are the messages it holds.
\<close>

lemma topic_log_replays_sizes:
  assumes "reachable (topic_init can_open malloc n name) (topic_step malloc hash) s" and "unat i < n"
  shows "replay_size i (wall_records (topic_file s)) = int (length (topic_abs s ! unat i))"
proof -
  have "topic_inv malloc n s" using assms(1) by (rule tp.reachable_inv)
  then obtain es where "log_agrees es s" "length (topic_abs s) = n" by (auto simp: topic_inv_def)
  with assms(2) show ?thesis by (simp add: log_agrees_def wall_records_log)
qed

lemma replicate_two: "replicate 2 x = [x, x]"
  by (simp add: numeral_2_eq_2)

lemma demo_empty_reachable:
  "reachable (topic_init (\<lambda>_. True) small_malloc 2 (lit ''t'')) (topic_step small_malloc hash) demo_empty"
proof (rule reachable.start)
  have "topic_ctor (\<lambda>_. True) 2 (lit ''t'') \<lparr>en_heap = Map.empty, en_files = Map.empty\<rparr> = Inr demo_empty"
    by (simp add: topic_ctor_def wall_writer_ctor_def kassert_defs INVALID_TOPIC_ID_def demo_empty_def
        demo_topic_def demo_writer_def demo_files_def lit_def Let_def replicate_two)
  then show "topic_init (\<lambda>_. True) small_malloc 2 (lit ''t'') demo_empty"
    using small_malloc_sound by (auto simp: topic_init_def)
qed

lemma topic_log_replays_sizes_witness:
  "replay_size 1 (wall_records (topic_file demo_empty)) = 0"
  using topic_log_replays_sizes [OF demo_empty_reachable, of 1] by (simp add: demo_empty_abs)

lemma view_of_header:
  assumes "rq_base r = rq_base r'" and "take 6 (rq_bytes r) = take 6 (rq_bytes r')"
    and "length (rq_bytes r) \<ge> 6" and "length (rq_bytes r') \<ge> 6"
  shows "message_view r = message_view r'" and "partition_id r = partition_id r'"
proof -
  have win: "take 2 (drop k bs) = take 2 (drop k (take 6 bs))" if "k \<le> 4" for k and bs :: "byte list"
    using that by (simp add: drop_take min_absorb1)
  have same: "get_u16 (drop k (rq_bytes r)) = get_u16 (drop k (rq_bytes r'))" if "k \<le> 4" for k
    using win [OF that, of "rq_bytes r"] win [OF that, of "rq_bytes r'"] assms(2)
    by (simp only: get_u16_def)
  from same [of 0] same [of 2] same [of 4]
  show "message_view r = message_view r'" and "partition_id r = partition_id r'"
    using assms(1) by (simp_all add: message_view_def topic_name_len_def message_len_def partition_id_def)
qed

text \<open>
  The log does not hold the messages. Two requests at the same address whose length
  fields and partition agree leave the same log behind, whatever their bytes: a record
  carries the address and the length of the message only, so the log cannot restore it.
\<close>

lemma topic_log_ignores_content:
  assumes "rq_base r = rq_base r'" and "take 6 (rq_bytes r) = take 6 (rq_bytes r')"
    and "length (rq_bytes r) \<ge> 6" and "length (rq_bytes r') \<ge> 6"
    and "partition_id r \<noteq> INVALID_TOPIC_ID"
    and "topic_push malloc hash pad h r s = Inr t" and "topic_push malloc hash pad h r' s = Inr t'"
  shows "en_files (fst t) = en_files (fst t')"
proof -
  obtain env T where s: "s = (env, T)" by (cases s)
  note same = view_of_header [OF assms(1-4)]
  have "wall_data_for i b r = wall_data_for i b r'" for i b
    using same(1) by (simp add: wall_data_for_def)
  with assms(5-7) same(2) show ?thesis
    by (auto simp: s topic_push_def push_index_def result_simps)
qed

lemma topic_log_ignores_content_witness:
  "\<exists>t t'. topic_push small_malloc (\<lambda>_. Inr 0) 0 7 (demo_request 1 (lit ''a'')) demo_empty = Inr t
     \<and> topic_push small_malloc (\<lambda>_. Inr 0) 0 7 (demo_request 1 (lit ''b'')) demo_empty = Inr t'
     \<and> topic_abs t \<noteq> topic_abs t' \<and> en_files (fst t) = en_files (fst t')"
proof -
  let ?push = "\<lambda>m. topic_push small_malloc (\<lambda>_. Inr 0) 0 7 (demo_request 1 (lit m)) demo_empty"
  obtain env T where s: "demo_empty = (env, T)" by (cases demo_empty)
  have wf: "topic_wf (env, T)" using demo_empty_wf s by metis
  have abs: "topic_abs (env, T) = [[], []]" using demo_empty_abs s by simp
  have heap: "en_heap env = Map.empty" using s by (auto simp: demo_empty_def)
  have ok: "\<exists>t. ?push m = Inr t \<and> topic_abs t = [[], [lit m]]" if "length m = 1" for m
  proof -
    have "push_index (\<lambda>_. Inr 0) (demo_request 1 (lit m)) T = Inr 1"
      by (simp add: push_index_def INVALID_TOPIC_ID_def)
    moreover have "unat (1 :: u16) < length (tp_storage T)" using length_topic_abs [of env T] abs by auto
    moreover have "view_read (demo_request 1 (lit m)) (message_view (demo_request 1 (lit m))) = Inr (lit m)"
      using that by simp
    moreover have "small_malloc (en_heap env) (8 + length (lit m)) \<noteq> 0"
      by (simp add: heap small_malloc_def)
    ultimately show ?thesis
      using topic_push_ok [OF wf _ _ _ small_malloc_sound] abs s by (metis spec_push_def unsigned_1
          nth_Cons_0 nth_Cons_Suc One_nat_def list_update_code(2,3) append_Nil)
  qed
  obtain t where t: "?push ''a'' = Inr t" "topic_abs t = [[], [lit ''a'']]" using ok [of "''a''"] by auto
  obtain t' where t': "?push ''b'' = Inr t'" "topic_abs t' = [[], [lit ''b'']]" using ok [of "''b''"] by auto
  have "en_files (fst t) = en_files (fst t')"
    by (rule topic_log_ignores_content [OF _ _ _ _ _ t(1) t'(1)])
      (simp_all add: demo_request_def request_image_def INVALID_TOPIC_ID_def partition_id_def)
  moreover have "topic_abs t \<noteq> topic_abs t'" using t(2) t'(2) by (simp add: lit_def)
  ultimately show ?thesis using t(1) t'(1) by blast
qed

end
