(* ===== verification/BrokerProps.thy ===== *)
theory BrokerProps
  imports Broker TopicProps "HOL-Library.Multiset"
begin

section \<open>Properties of sessions\<close>

text \<open>
  The theorems about \<open>src/rpc/rpc-session.h\<close>, with instances: a platform with room for four
  messages, the world a server starts in, and a world after one push.
\<close>

subsection \<open>Instances\<close>

definition demo_platform :: platform_t where
  "demo_platform = \<lparr>pf_malloc = small_malloc, pf_can_open = (\<lambda>_. True), pf_hash_char = ucast,
     pf_buffer = 4096, pf_garbage = [], pf_wall_pad = 0, pf_response_pad = (0, 0), pf_fiber = 1\<rparr>"

definition demo_push :: "u16 \<Rightarrow> byte list \<Rightarrow> broker_request" where
  "demo_push pid msg = \<lparr>br_opcode = opcode_value PUSH, br_topic = lit ''t'', br_pid = pid, br_message = msg\<rparr>"

definition demo_pull :: "u16 \<Rightarrow> broker_request" where
  "demo_pull pid = \<lparr>br_opcode = opcode_value PULL, br_topic = lit ''t'', br_pid = pid, br_message = []\<rparr>"

definition demo_delete :: "u16 \<Rightarrow> byte list \<Rightarrow> broker_request" where
  "demo_delete pid msg = \<lparr>br_opcode = opcode_value DELETE, br_topic = lit ''t'', br_pid = pid, br_message = msg\<rparr>"

lemma demo_platform_sound: "platform_sound 4 demo_platform"
  by (simp add: platform_sound_def demo_platform_def small_malloc_sound small_malloc_supply)

lemma demo_platform_opens [simp]: "pf_can_open demo_platform p"
  by (simp add: demo_platform_def)

lemma world_new_memory: "has_memory K K world_new"
  by (simp add: has_memory_def memory_left_def world_new_def)

lemma demo_steps:
  "length msg \<le> 1000 \<Longrightarrow> broker_step can_open (B(lit ''t'' \<mapsto> ms)) (demo_push 0 msg) =
     Some (B(lit ''t'' \<mapsto> ms @ [msg]), ack (opcode_value PUSH) [])"
  "length msg \<le> 1000 \<Longrightarrow> can_open (lit ''/tmp/t'') \<Longrightarrow> broker_step can_open Map.empty (demo_push 0 msg) =
     Some ([lit ''t'' \<mapsto> [msg]], ack (opcode_value PUSH) [])"
  "broker_step can_open (B(lit ''t'' \<mapsto> m # ms)) (demo_pull 0) = Some (B(lit ''t'' \<mapsto> m # ms), ack (opcode_value PULL) m)"
  "length msg \<le> 1000 \<Longrightarrow> broker_step can_open (B(lit ''t'' \<mapsto> msg # ms)) (demo_delete 0 msg) =
     Some (B(lit ''t'' \<mapsto> ms), ack (opcode_value DELETE) [])"
  unfolding broker_step_def demo_push_def demo_pull_def demo_delete_def
  by (simp_all add: broker_push_def broker_pull_def broker_delete_def messages_of_def fits_buffer_def
      INVALID_TOPIC_ID_def lit_def opcode_of_def)

text \<open>The world after the first push.\<close>

lemma demo_pushed:
  assumes "length msg \<le> 1000"
  obtains W where "handle demo_platform (demo_push 0 msg) world_new = Inr (W, ok_response demo_platform (opcode_value PUSH))"
    and "world_wf W" and "world_abs W = [lit ''t'' \<mapsto> [msg]]" and "has_memory 4 3 W"
proof -
  have "has_memory 4 (Suc 3) world_new" using world_new_memory [of 4] by simp
  from handle_outcome [OF world_new_wf demo_platform_sound this, of "demo_push 0 msg"] assms
  obtain W where "handle demo_platform (demo_push 0 msg) world_new
      = Inr (W, reply_image demo_platform (ack (opcode_value PUSH) []))"
    "world_wf W" "world_abs W = [lit ''t'' \<mapsto> [msg]]" "has_memory 4 3 W"
    by (auto simp: demo_steps simp del: reply_image_simps opcode_value.simps)
  then show thesis by (intro that) simp_all
qed

lemma session_round_consumes:
  assumes sock: "socket_ok api inp out" and round: "session_round api pf k W = Next_request k' W'"
  shows "length (inp k') < length (inp k)"
proof -
  have writes: "inp k2 = inp k1" if "answer_request api pf hdr data k1 W = Next_request k2 W'" for hdr data k1 k2
  proof -
    from that obtain bytes where "so_write api bytes k1 = (True, k2)"
      by (auto simp: answer_request_def Let_def split: sum.splits prod.splits bool.splits)
    moreover obtain k3 where "so_write api bytes k1 = (True, k3)" "inp k3 = inp k1"
      by (rule socket_write [OF sock])
    ultimately show ?thesis by simp
  qed
  have reads: "n \<le> length (inp k1) \<and> inp k2 = drop n (inp k1)" if "so_read api n k1 = (Some bs, k2)" for n k1 k2 bs
  proof (cases "n \<le> length (inp k1)")
    case True
    then show ?thesis using socket_read [OF sock True] that by (metis Pair_inject)
  next
    case False
    then obtain k3 where "so_read api n k1 = (None, k3)" using socket_read_short [OF sock, of k1 n] by auto
    with that show ?thesis by simp
  qed
  obtain bs k1 where k1: "so_read api sizeof_header k = (Some bs, k1)"
    using round by (auto simp: session_round_def split: prod.splits option.splits)
  then have used: "length (inp k1) < length (inp k)" using reads [OF k1] by (auto simp: sizeof_header_def)
  consider hdr where "answer_request api pf hdr [] k1 W = Next_request k' W'"
    | n data hdr k2 where "so_read api n k1 = (Some data, k2)" "answer_request api pf hdr data k2 W = Next_request k' W'"
    using round k1
    by (auto simp: session_round_def refuse_def Let_def split: prod.splits option.splits if_splits bool.splits)
  then show ?thesis
  proof cases
    case 1
    then show ?thesis using writes used by simp
  next
    case 2
    then show ?thesis using writes [OF 2(2)] reads [OF 2(1)] used by simp
  qed
qed

subsection \<open>Refinement of the broker\<close>

text \<open>
  C2: every request is handled as the broker specifies. On a well-formed world with memory
  for one more message, the handler of a request runs to the end exactly when the
  specification has an outcome; then it writes the specified reply, the new world is well
  formed and stands for the specified new broker.
\<close>

theorem handle_refines_broker:
  assumes "world_wf W" and "platform_sound K pf" and "has_memory K 1 W"
  shows "case broker_step (pf_can_open pf) (world_abs W) q of
       None \<Rightarrow> \<exists>f. handle pf q W = Inl f
     | Some (B', rep) \<Rightarrow> \<exists>W'. handle pf q W = Inr (W', reply_image pf rep) \<and> world_wf W' \<and> world_abs W' = B'"
proof -
  have "has_memory K (Suc 0) W" using assms(3) by simp
  from handle_outcome [OF assms(1,2) this, of q] show ?thesis
    by (auto split: option.splits)
qed

theorem handle_refines_broker_witness:
  "\<exists>W'. handle demo_platform (demo_push 0 (lit ''m'')) world_new
       = Inr (W', reply_image demo_platform (ack (opcode_value PUSH) []))
     \<and> world_wf W' \<and> world_abs W' = [lit ''t'' \<mapsto> [lit ''m'']]"
proof -
  have "has_memory 4 1 world_new" by (simp add: has_memory_def memory_left_def world_new_def)
  from handle_refines_broker [OF world_new_wf demo_platform_sound this, of "demo_push 0 (lit ''m'')"]
  show ?thesis by (auto simp: demo_steps simp del: reply_image_simps opcode_value.simps)
qed

text \<open>
  A connection serves its stream. Whatever requests the peer sends, as whole frames on
  one connection, they are handled in order: if the broker accepts all of them, the output
  is the concatenation of the specified replies and the session returns when the peer is
  done; if the broker has no outcome for one of them, the process crashes.
\<close>

lemma session_serves_stream:
  assumes "socket_ok api inp out" and "platform_sound K pf" and "world_wf W" and "has_memory K (length qs) W"
    and "list_all frame_fits qs" and "inp k = concat (map (frame_of pad) qs)"
  shows "case broker_run (pf_can_open pf) (world_abs W) qs of
       None \<Rightarrow> \<exists>f. session_loop api pf k W = Some (Crashed f)
     | Some (B', reps) \<Rightarrow> \<exists>k' W'. session_loop api pf k W = Some (Io_error k' W')
         \<and> out k' = out k @ concat (map (reply_image pf) reps) \<and> world_wf W' \<and> world_abs W' = B'"
proof -
  have inp: "inp k = concat (map (frame_of pad) qs) @ []" and mem: "has_memory K (length qs + 0) W"
    using assms(4,6) by simp_all
  note stream = session_loop_stream [OF assms(1,2,5) inp assms(3) mem]
  show ?thesis
  proof (cases "broker_run (pf_can_open pf) (world_abs W) qs")
    case None
    with stream show ?thesis by simp
  next
    case (Some r)
    with stream obtain k1 W1 where s: "session_loop api pf k W = session_loop api pf k1 W1" "inp k1 = []"
      "out k1 = out k @ concat (map (reply_image pf) (snd r))" "world_wf W1" "world_abs W1 = fst r"
      by (cases r) auto
    have "length (inp k1) < sizeof_header" by (simp add: s(2) sizeof_header_def)
    then obtain k' where "session_loop api pf k1 W1 = Some (Io_error k' W1)" "out k' = out k1"
      using session_loop_end [OF assms(1)] by blast
    with s Some show ?thesis by (cases r) auto
  qed
qed

lemma session_serves_stream_witness:
  "\<exists>k' W'. session_loop pair_socket demo_platform
       (concat (map (frame_of 0) [demo_push 0 (lit ''a''), demo_pull 0, demo_delete 0 (lit ''a'')]), []) world_new
       = Some (Io_error k' W')
     \<and> snd k' = ok_response demo_platform (opcode_value PUSH)
         @ data_response demo_platform (opcode_value PULL) (lit ''a'')
         @ ok_response demo_platform (opcode_value DELETE)
     \<and> world_abs W' = [lit ''t'' \<mapsto> []]"
proof -
  let ?qs = "[demo_push 0 (lit ''a''), demo_pull 0, demo_delete 0 (lit ''a'')]"
  have mem: "has_memory 4 (length ?qs) world_new"
    by (simp add: has_memory_def memory_left_def world_new_def)
  have fits: "list_all frame_fits ?qs"
    by (simp add: frame_fits_def session_buffer_size_def sizeof_header_def demo_push_def demo_pull_def demo_delete_def)
  have run: "broker_run (pf_can_open demo_platform) (world_abs world_new) ?qs
      = Some ([lit ''t'' \<mapsto> []], [ack (opcode_value PUSH) [], ack (opcode_value PULL) (lit ''a''), ack (opcode_value DELETE) []])"
    by (simp add: demo_steps del: opcode_value.simps)
  from session_serves_stream [OF pair_socket_ok demo_platform_sound world_new_wf mem fits, of "(concat (map (frame_of 0) ?qs), [])" 0]
  show ?thesis unfolding run by (auto simp del: opcode_value.simps)
qed

text \<open>
  A session always returns. On a stream socket that has received finitely many bytes,
  whatever they are, the loop ends: every round consumes a header or is the last.
\<close>

lemma session_loop_terminates:
  assumes "socket_ok api inp out"
  shows "\<exists>e. session_loop api pf k W = Some e"
proof (induction "length (inp k)" arbitrary: k W rule: less_induct)
  case less
  show ?case
  proof (cases "session_round api pf k W")
    case (Ended e)
    then show ?thesis by (subst session_loop.simps) simp
  next
    case (Next_request k' W')
    then have "length (inp k') < length (inp k)" by (rule session_round_consumes [OF assms])
    from less [OF this, of W'] Next_request show ?thesis by (subst session_loop.simps) simp
  qed
qed

lemma session_loop_terminates_witness:
  "\<exists>e. session_loop pair_socket demo_platform (lit ''this is not a request'', []) world_new = Some e"
  by (rule session_loop_terminates [OF pair_socket_ok])

text \<open>
  C37: a malformed header ends the session and nothing else. A wrong magic number is answered
  with one error reply and an announced body of more than 65524 bytes with another; in both
  cases the session closes, no body is read and the world is unchanged.
\<close>

theorem session_refuses_malformed:
  assumes "socket_ok api inp out" and "inp k = request_header_image pad hdr @ rest"
    and "rh_magic hdr \<noteq> RPC_MAGIC
       \<or> unat (rh_topic_name_len hdr) + unat (rh_message_len hdr) > session_buffer_size - sizeof_header"
  shows "\<exists>k'. session_loop api pf k W = Some (Closed k' W) \<and> inp k' = rest
     \<and> out k' = out k @ (if rh_magic hdr \<noteq> RPC_MAGIC
          then error_response pf (opcode_value PUSH) INTERNAL_ERROR ''Invalid magic number''
          else error_response pf (rh_opcode hdr) INTERNAL_ERROR ''Data too large'')"
proof -
  let ?bytes = "if rh_magic hdr \<noteq> RPC_MAGIC
      then error_response pf (opcode_value PUSH) INTERNAL_ERROR ''Invalid magic number''
      else error_response pf (rh_opcode hdr) INTERNAL_ERROR ''Data too large''"
  have "sizeof_header \<le> length (inp k)" by (simp add: assms(2) sizeof_header_def)
  then obtain k1 where k1: "so_read api sizeof_header k = (Some (take sizeof_header (inp k)), k1)"
    "inp k1 = drop sizeof_header (inp k)" "out k1 = out k"
    by (rule socket_read [OF assms(1)])
  obtain k2 where k2: "so_write api ?bytes k1 = (True, k2)" "inp k2 = inp k1" "out k2 = out k1 @ ?bytes"
    by (rule socket_write [OF assms(1)])
  have hdr: "take sizeof_header (inp k) = request_header_image pad hdr" and rest: "inp k1 = rest"
    by (simp_all add: k1(2) assms(2) sizeof_header_def)
  have "session_round api pf k W = refuse api ?bytes k1 W"
    using k1(1) assms(3) by (auto simp: session_round_def hdr request_header_of_image Let_def
        simp del: opcode_value.simps)
  also have "\<dots> = Ended (Closed k2 W)" using k2(1) by (simp add: refuse_def)
  finally have "session_loop api pf k W = Some (Closed k2 W)" by (subst session_loop.simps) simp
  with k1(3) k2(2,3) rest show ?thesis by auto
qed

theorem session_refuses_malformed_witness:
  "\<exists>k'. session_loop pair_socket demo_platform
       (request_header_image 0 \<lparr>rh_magic = 7, rh_opcode = 1, rh_topic_name_len = 1, rh_partition_id = 0,
          rh_message_len = 1\<rparr> @ lit ''tm'', []) world_new = Some (Closed k' world_new)
     \<and> fst k' = lit ''tm''"
proof -
  let ?hdr = "\<lparr>rh_magic = 7, rh_opcode = 1, rh_topic_name_len = 1, rh_partition_id = 0, rh_message_len = 1\<rparr>"
  have "rh_magic ?hdr \<noteq> RPC_MAGIC
      \<or> unat (rh_topic_name_len ?hdr) + unat (rh_message_len ?hdr) > session_buffer_size - sizeof_header"
    by (simp add: RPC_MAGIC_def)
  from session_refuses_malformed [OF pair_socket_ok _ this, where k = "(request_header_image 0 ?hdr @ lit ''tm'', [])"
      and W = world_new and pf = demo_platform and rest = "lit ''tm''" and pad = 0]
  show ?thesis by auto
qed

text \<open>
  A request that does not arrive whole has no effect. If the peer disconnects anywhere
  inside a frame, the session ends with the world it had and has written nothing.
\<close>

lemma session_ignores_partial_frame:
  assumes "socket_ok api inp out" and "frame_fits q" and "inp k = take n (frame_of pad q)"
    and "n < length (frame_of pad q)"
  shows "\<exists>k'. session_loop api pf k W = Some (Io_error k' W) \<and> out k' = out k"
proof (cases "n < sizeof_header")
  case True
  then have "length (inp k) < sizeof_header" by (simp add: assms(3))
  then show ?thesis by (rule session_loop_end [OF assms(1)])
next
  case False
  note len = frame_fits_lengths [OF assms(2)]
  let ?n = "length (br_topic q) + length (br_message q)"
  have len_inp: "length (inp k) = n" using assms(3,4) by simp
  with False have "sizeof_header \<le> length (inp k)" by simp
  then obtain k1 where k1: "so_read api sizeof_header k = (Some (take sizeof_header (inp k)), k1)"
    "inp k1 = drop sizeof_header (inp k)" "out k1 = out k"
    by (rule socket_read [OF assms(1)])
  have hdr: "take sizeof_header (inp k) = request_header_image pad (header_of q)"
    using False by (simp add: assms(3) frame_of_def sizeof_header_def min_def)
  have total: "length (frame_of pad q) = 12 + ?n" by (simp add: frame_of_def)
  have short: "length (inp k1) < ?n" using assms(4) False len_inp total by (simp add: k1(2) sizeof_header_def)
  then obtain k2 where k2: "so_read api ?n k1 = (None, k2)" "out k2 = out k1"
    by (rule socket_read_short [OF assms(1)])
  have "\<not> session_buffer_size - sizeof_header < ?n" using assms(2) by (simp add: frame_fits_def)
  moreover have "?n \<noteq> 0" using short by auto
  ultimately have "session_round api pf k W = Ended (Io_error k2 W)"
    using k1(1) k2(1) by (auto simp: session_round_def hdr request_header_of_image len Let_def)
  then have "session_loop api pf k W = Some (Io_error k2 W)" by (subst session_loop.simps) simp
  with k1(3) k2(2) show ?thesis by simp
qed

lemma session_ignores_partial_frame_witness:
  "\<exists>k'. session_loop pair_socket demo_platform (take 13 (frame_of 0 (demo_push 0 (lit ''m''))), []) world_new
     = Some (Io_error k' world_new) \<and> snd k' = []"
  using session_ignores_partial_frame [OF pair_socket_ok, of "demo_push 0 (lit ''m'')"
      "(take 13 (frame_of 0 (demo_push 0 (lit ''m''))), [])" 13 0 demo_platform world_new]
  by (simp add: frame_of_def demo_push_def frame_fits_def session_buffer_size_def sizeof_header_def)

subsection \<open>Requests that crash the server\<close>

text \<open>
  C34: the partition guard of \<open>PULL\<close> is wrong. It admits the ids 1 and 2, while every topic is
  created with one partition: such a \<open>PULL\<close> of an existing topic reads past the end of the
  partition vector.
\<close>

theorem pull_partition_guard_unsound:
  assumes "world_wf W" and "world_abs W topic \<noteq> None" and "topic \<noteq> []"
    and "rh_partition_id hdr = 1 \<or> rh_partition_id hdr = 2"
  shows "handle_pull pf hdr topic W = Inl Out_of_bounds"
proof -
  obtain T where T: "registry_find topic W = Some T" using assms(2) by auto
  have "rh_partition_id hdr \<noteq> INVALID_TOPIC_ID" "\<not> 3 \<le> rh_partition_id hdr"
    "length (tp_storage T) \<le> unat (rh_partition_id hdr)"
    using assms(4) world_wfD(3) [OF assms(1) T] by (auto simp: INVALID_TOPIC_ID_def word_le_nat_alt)
  with T assms(3) show ?thesis
    by (simp add: handle_pull_def get_topic_def on_topic_def topic_read_out_of_range)
qed

theorem pull_partition_guard_unsound_witness:
  "\<exists>W. handle demo_platform (demo_push 0 (lit ''m'')) world_new = Inr (W, ok_response demo_platform 1)
     \<and> handle_pull demo_platform (header_of (demo_pull 2)) (lit ''t'') W = Inl Out_of_bounds"
proof -
  obtain W where W: "handle demo_platform (demo_push 0 (lit ''m'')) world_new
      = Inr (W, ok_response demo_platform (opcode_value PUSH))"
    "world_wf W" "world_abs W = [lit ''t'' \<mapsto> [lit ''m'']]"
    by (rule demo_pushed [of "lit ''m''"]) simp
  have "handle_pull demo_platform (header_of (demo_pull 2)) (lit ''t'') W = Inl Out_of_bounds"
    by (rule pull_partition_guard_unsound [OF W(2)]) (simp_all add: W(3) demo_pull_def del: world_abs_None)
  with W(1) show ?thesis by auto
qed

text \<open>
  C35: \<open>PUSH\<close> and \<open>DELETE\<close> do not check the partition id. A \<open>PUSH\<close> whose partition id is neither 0
  nor the reserved id faults, even on a fresh server, and so does such a \<open>DELETE\<close> of an
  existing topic.
\<close>

theorem push_delete_unchecked_partition:
  assumes "world_wf W" and "topic \<noteq> []" and "fits_buffer topic msg"
    and "pf_can_open pf (lit ''/tmp/'' @ topic)"
    and "rh_partition_id hdr \<noteq> 0" and "rh_partition_id hdr \<noteq> INVALID_TOPIC_ID"
  shows "handle_push pf hdr topic msg W = Inl Out_of_bounds
     \<and> (world_abs W topic = None \<or> handle_delete pf hdr topic msg W = Inl Out_of_bounds)"
proof -
  obtain r where r: "create_request (request_buffer pf) topic (rh_partition_id hdr) msg = Inr r"
    "partition_id r = rh_partition_id hdr"
    by (rule create_request_views [OF assms(3)])
  have far: "length (tp_storage T) \<le> unat (partition_id r)" if "length (tp_storage T) = 1" for T
    using that assms(5) less_one_iff [of "rh_partition_id hdr"] by (simp add: r(2) not_less [symmetric])
  obtain W1 T where W1: "get_or_create_topic (pf_can_open pf) 1 topic W = Inr W1" "world_wf W1"
    "registry_find topic W1 = Some T"
    by (rule get_or_create_ok [OF assms(1), of topic "pf_can_open pf", OF assms(4)])
  have "handle_push pf hdr topic msg W = Inl Out_of_bounds"
    using assms(2,6) W1 r far [OF world_wfD(3) [OF W1(2,3)]]
    by (simp add: handle_push_def on_topic_def topic_push_out_of_range)
  moreover have "handle_delete pf hdr topic msg W = Inl Out_of_bounds" if "registry_find topic W = Some U" for U
    using assms(2,6) that r far [OF world_wfD(3) [OF assms(1) that]]
    by (simp add: handle_delete_def get_topic_def on_topic_def topic_remove_out_of_range)
  ultimately show ?thesis by (cases "registry_find topic W") simp_all
qed

theorem push_delete_unchecked_partition_witness:
  "handle_push demo_platform (header_of (demo_push 1 (lit ''m''))) (lit ''t'') (lit ''m'') world_new = Inl Out_of_bounds"
  by (rule push_delete_unchecked_partition [OF world_new_wf, THEN conjunct1])
    (simp_all add: fits_buffer_def demo_push_def INVALID_TOPIC_ID_def)

text \<open>
  C33: the request buffer overflows. The session accepts bodies of up to 65524 bytes, but a
  \<open>PUSH\<close>, or a \<open>DELETE\<close> of an existing topic, whose name and message exceed 1018 bytes
  together writes past the 1024-byte buffer on the stack.
\<close>

theorem request_buffer_overflow:
  assumes "world_wf W" and "topic \<noteq> []" and "length topic + length msg > 1018"
    and "pf_can_open pf (lit ''/tmp/'' @ topic)"
  shows "handle_push pf hdr topic msg W = Inl Buffer_overflow
     \<and> (world_abs W topic = None \<or> rh_partition_id hdr = INVALID_TOPIC_ID
        \<or> handle_delete pf hdr topic msg W = Inl Buffer_overflow)"
proof -
  have long: "create_request (request_buffer pf) topic pid msg = Inl Buffer_overflow" for pid
    using assms(3) by (intro create_request_too_long) (simp add: fits_buffer_def)
  obtain W1 T where W1: "get_or_create_topic (pf_can_open pf) 1 topic W = Inr W1" "world_wf W1"
    "registry_find topic W1 = Some T"
    by (rule get_or_create_ok [OF assms(1), of topic "pf_can_open pf", OF assms(4)])
  then show ?thesis using assms(2) long
    by (auto simp: handle_push_def handle_delete_def get_topic_def)
qed

theorem request_buffer_overflow_witness:
  "frame_fits (demo_push 0 (replicate 2000 7))
   \<and> handle_push demo_platform (header_of (demo_push 0 (replicate 2000 7))) (lit ''t'') (replicate 2000 7) world_new
     = Inl Buffer_overflow"
  using request_buffer_overflow [OF world_new_wf, of "lit ''t''" "replicate 2000 7" demo_platform
      "header_of (demo_push 0 (replicate 2000 7))"]
  by (simp add: frame_fits_def session_buffer_size_def sizeof_header_def demo_push_def)

text \<open>
  C36: \<open>DELETE\<close> acknowledges what it did not do. If the message is not the first one of the
  topic, nothing is removed and the answer is OK all the same; if the topic is empty, the
  server dereferences a null pointer.
\<close>

theorem delete_acknowledges_mismatch:
  assumes "world_wf W" and "world_abs W topic = Some ms" and "topic \<noteq> []" and "fits_buffer topic msg"
    and "rh_partition_id hdr = 0" and "ms = [] \<or> hd ms \<noteq> msg"
  shows "handle_delete pf hdr topic msg W =
     (if ms = [] then Inl Null_dereference else Inr (W, ok_response pf (opcode_value DELETE)))"
proof -
  obtain T where T: "registry_find topic W = Some T" using assms(2) by (auto simp: world_abs_def)
  note w = world_wfD [OF assms(1) T]
  obtain r where r: "create_request (request_buffer pf) topic (rh_partition_id hdr) msg = Inr r"
    "partition_id r = rh_partition_id hdr" "view_read r (message_view r) = Inr msg"
    by (rule create_request_views [OF assms(4)])
  have i: "unat (partition_id r) < length (tp_storage T)" using r(2) w(3) assms(5) by simp
  have ms: "topic_abs (wo_env W, T) ! unat (partition_id r) = ms" using w(5) assms(2,5) r(2) by simp
  have "rh_partition_id hdr \<noteq> INVALID_TOPIC_ID" using assms(5) by (simp add: INVALID_TOPIC_ID_def)
  then show ?thesis
    using remove_check_ok [OF w(1) i r(3), of "pf_fiber pf"] ms assms(3,6) r(1) T
    by (cases ms) (simp_all add: handle_delete_def get_topic_def on_topic_def topic_remove_def set_topic_same)
qed

theorem delete_acknowledges_mismatch_witness:
  "\<exists>W. handle demo_platform (demo_push 0 (lit ''m'')) world_new = Inr (W, ok_response demo_platform 1)
     \<and> handle_delete demo_platform (header_of (demo_delete 0 (lit ''x''))) (lit ''t'') (lit ''x'') W
       = Inr (W, ok_response demo_platform 3)"
proof -
  obtain W where W: "handle demo_platform (demo_push 0 (lit ''m'')) world_new
      = Inr (W, ok_response demo_platform (opcode_value PUSH))"
    "world_wf W" "world_abs W = [lit ''t'' \<mapsto> [lit ''m'']]"
    by (rule demo_pushed [of "lit ''m''"]) simp
  have "handle_delete demo_platform (header_of (demo_delete 0 (lit ''x''))) (lit ''t'') (lit ''x'') W
      = (if [lit ''m''] = [] then Inl Null_dereference else Inr (W, ok_response demo_platform (opcode_value DELETE)))"
    by (rule delete_acknowledges_mismatch [OF W(2)])
      (simp_all add: W(3) fits_buffer_def demo_delete_def, simp add: lit_def)
  with W(1) show ?thesis by auto
qed

subsection \<open>Topics, logs and the registry\<close>

text \<open>
  An accepted \<open>PUSH\<close> appends exactly one push record, for partition 0, to the log of its
  topic and changes no other topic and no other topic's log. A topic that the \<open>PUSH\<close> creates starts
  with an empty log, whatever the file of its name held before.
\<close>

lemma push_logs_one_record:
  assumes "world_wf W" and "platform_sound K pf" and "has_memory K 1 W" and "topic \<noteq> []"
    and "pf_can_open pf (lit ''/tmp/'' @ topic)" and "fits_buffer topic msg"
    and "rh_partition_id hdr = 0 \<or> rh_partition_id hdr = INVALID_TOPIC_ID"
  shows "\<exists>W' r. handle_push pf hdr topic msg W = Inr (W', ok_response pf (opcode_value PUSH))
     \<and> create_request (request_buffer pf) topic (rh_partition_id hdr) msg = Inr r
     \<and> topic_log_of topic W' = (if world_abs W topic = None then [] else topic_log_of topic W)
         @ wall_data_image (pf_wall_pad pf) (wall_data_for 0 True r)
     \<and> (\<forall>other. other = topic \<or> topic_log_of other W' = topic_log_of other W \<and> world_abs W' other = world_abs W other)"
proof -
  have mem: "has_memory K (Suc 0) W" using assms(3) by simp
  obtain W' r where W': "handle_push pf hdr topic msg W = Inr (W', ok_response pf (opcode_value PUSH))"
    "world_abs W' = (world_abs W)(topic \<mapsto> messages_of (world_abs W) topic @ [msg])"
    "topic_log_of topic W' = (if registry_find topic W = None then [] else topic_log_of topic W)
        @ wall_data_image (pf_wall_pad pf) (wall_data_for 0 True r)"
    "\<forall>other. other \<noteq> topic \<longrightarrow> topic_log_of other W' = topic_log_of other W"
    "create_request (request_buffer pf) topic (rh_partition_id hdr) msg = Inr r"
    by (rule handle_push_accepted [OF assms(1,2) mem assms(4) assms(5) assms(6,7)])
  then show ?thesis by auto
qed

lemma push_logs_one_record_witness:
  "\<exists>W' r. handle_push demo_platform (header_of (demo_push 0 (lit ''m''))) (lit ''t'') (lit ''m'') world_new
       = Inr (W', ok_response demo_platform 1)
     \<and> topic_log_of (lit ''t'') W' = wall_data_image 0 (wall_data_for 0 True r)"
proof -
  have "has_memory 4 1 world_new" by (simp add: has_memory_def memory_left_def world_new_def)
  from push_logs_one_record [OF world_new_wf demo_platform_sound this, of "lit ''t''" "lit ''m''"
      "header_of (demo_push 0 (lit ''m''))"]
  show ?thesis by (auto simp: fits_buffer_def demo_push_def demo_platform_def)
qed

text \<open>
  Without the mutex, creating a topic races. Two sessions look the name up and both miss;
  the first registers its topic and pushes; when the second one gets to \<open>emplace\<close>, the
  topic it constructs in vain truncates the log: the message is in the topic, its record is
  gone, and the writer will go on behind the end of the file.
\<close>

lemma registry_race_truncates_log:
  assumes "world_wf W" and "platform_sound K pf" and "has_memory K 1 W" and "topic \<noteq> []"
    and "pf_can_open pf (lit ''/tmp/'' @ topic)" and "fits_buffer topic msg"
    and "get_topic topic W = None" and "rh_partition_id hdr = 0"
  shows "\<exists>W1 W2. handle_push pf hdr topic msg W = Inr (W1, ok_response pf (opcode_value PUSH))
     \<and> length (topic_log_of topic W1) = sizeof_wall_data
     \<and> registry_emplace (pf_can_open pf) 1 topic W1 = Inr W2
     \<and> world_abs W2 topic = Some [msg] \<and> topic_log_of topic W2 = [] \<and> \<not> world_wf W2"
proof -
  have mem: "has_memory K (Suc 0) W" using assms(3) by simp
  have pid: "rh_partition_id hdr = 0 \<or> rh_partition_id hdr = INVALID_TOPIC_ID" using assms(8) by simp
  obtain W1 r where W1: "handle_push pf hdr topic msg W = Inr (W1, ok_response pf (opcode_value PUSH))"
    "world_wf W1" "world_abs W1 = (world_abs W)(topic \<mapsto> messages_of (world_abs W) topic @ [msg])"
    "topic_log_of topic W1 = (if registry_find topic W = None then [] else topic_log_of topic W)
        @ wall_data_image (pf_wall_pad pf) (wall_data_for 0 True r)"
    by (rule handle_push_accepted [OF assms(1,2) mem assms(4) assms(5) assms(6) pid])
  have new: "registry_find topic W = None" using assms(7) by (simp add: get_topic_def)
  have abs: "world_abs W1 topic = Some [msg]" using new W1(3) by (simp add: messages_of_def world_abs_def)
  then obtain T where T: "registry_find topic W1 = Some T" by (auto simp: world_abs_def)
  note w = world_wfD [OF W1(2) T]
  have log: "length (topic_log_of topic W1) = 32" using W1(4) new by simp
  obtain env' U where U: "topic_ctor (pf_can_open pf) 1 topic (wo_env W1) = Inr (env', U)"
    using topic_ctor_total [of "pf_can_open pf" topic 1 "wo_env W1"] assms(5) by auto
  note f = topic_ctor_fresh [OF U]
  let ?W2 = "W1\<lparr>wo_env := env'\<rparr>"
  have emplace: "registry_emplace (pf_can_open pf) 1 topic W1 = Inr ?W2"
    using U T by (simp add: registry_emplace_def)
  have "topic_abs (env', T) = topic_abs (wo_env W1, T)" by (simp add: topic_abs_def f(1))
  then have "world_abs ?W2 topic = Some [msg]" using abs w(5) T by (simp add: world_abs_def)
  moreover have empty: "topic_log_of topic ?W2 = []" using f(2) by (simp add: topic_log_of_def file_of_def)
  moreover have "\<not> world_wf ?W2"
  proof
    assume "world_wf ?W2"
    then have "topic_wf (env', T)" using world_wfD(1) [of ?W2 topic T] T by simp
    then have "ww_pos (tp_wall_write T) = 0"
      using empty w(2) by (simp add: topic_wf_def at_end_def topic_log_of_def topic_path_def)
    moreover have "ww_pos (tp_wall_write T) = 32"
      using w(1,2) log by (simp add: topic_wf_def at_end_def topic_log_of_def topic_path_def)
    ultimately show False by simp
  qed
  ultimately show ?thesis using W1(1) emplace log by (auto simp: sizeof_wall_data_def)
qed

lemma registry_race_truncates_log_witness:
  "\<exists>W1 W2. handle_push demo_platform (header_of (demo_push 0 (lit ''m''))) (lit ''t'') (lit ''m'') world_new
       = Inr (W1, ok_response demo_platform 1)
     \<and> registry_emplace (pf_can_open demo_platform) 1 (lit ''t'') W1 = Inr W2
     \<and> world_abs W2 (lit ''t'') = Some [lit ''m''] \<and> topic_log_of (lit ''t'') W2 = []"
proof -
  have "has_memory 4 1 world_new" by (simp add: has_memory_def memory_left_def world_new_def)
  from registry_race_truncates_log [OF world_new_wf demo_platform_sound this, of "lit ''t''" "lit ''m''"
      "header_of (demo_push 0 (lit ''m''))"]
  show ?thesis by (auto simp: fits_buffer_def demo_push_def get_topic_def)
qed

text \<open>
  The routing hash depends only on the topic name, and only on which characters it has.
  So all messages of a topic that leave the partition to the server go to one and the same
  partition, and topics whose names are permutations of each other hash alike.
\<close>

lemma hash_routes_topic_to_one_partition:
  assumes "view_read r (topic_name r) = Inr name" and "view_read r' (topic_name r') = Inr name'"
    and "mset name = mset name'" and "partition_id r = INVALID_TOPIC_ID" and "partition_id r' = INVALID_TOPIC_ID"
  shows "push_index (request_hash hash_char) r T = push_index (request_hash hash_char) r' T"
proof -
  have xor_swap: "xor (xor h a) b = xor (xor h b) a" for h a b :: u64
    by (metis xor.assoc xor.commute)
  have perm: "foldl (\<lambda>h c. xor h (hash_char c)) 0 xs = foldl (\<lambda>h c. xor h (hash_char c)) 0 ys"
    if "mset xs = mset ys" for xs ys :: "byte list"
  proof -
    have "(\<lambda>h. xor h (hash_char x)) \<circ> (\<lambda>h. xor h (hash_char y))
        = (\<lambda>h. xor h (hash_char y)) \<circ> (\<lambda>h. xor h (hash_char x))" for x y
      unfolding comp_def by (rule ext, rule xor_swap)
    then have "fold (\<lambda>c h. xor h (hash_char c)) xs = fold (\<lambda>c h. xor h (hash_char c)) ys"
      by (intro fold_multiset_equiv that)
    then show ?thesis by (simp add: foldl_conv_fold)
  qed
  show ?thesis using assms(1,2,4,5) perm [OF assms(3)] by (simp add: push_index_def request_hash_def)
qed

lemma hash_routes_topic_to_one_partition_witness:
  "push_index (request_hash ucast) (demo_request 65535 (lit ''a'')) (snd demo_empty)
     = push_index (request_hash ucast) (demo_request 65535 (lit ''b'')) (snd demo_empty)"
proof -
  have "view_read (demo_request 65535 m) (topic_name (demo_request 65535 m)) = Inr (lit ''t'')"
    if "length m < 65536" for m
    using request_image_views(1) [of "demo_request 65535 m" "lit ''t''" 65535 m "[]"] that
    by (simp add: demo_request_def)
  then show ?thesis
    by (intro hash_routes_topic_to_one_partition [of _ "lit ''t''" _ "lit ''t''"])
      (simp_all add: INVALID_TOPIC_ID_def)
qed

end
