(* ===== verification/ProducerConsumer.thy ===== *)
theory ProducerConsumer
  imports Client BrokerProps
begin

section \<open>A producer and a consumer, in the broker's terms\<close>

text \<open>
  The requests of a client that pushes messages to a topic and of one that takes them off it
  again, what the broker's specification answers, and the bytes the client frames them in.
  The theorems that run these requests through the programs rest on the lemmas here.
\<close>

text \<open>An allocator with eight cells, for instances with more than one message.\<close>

definition pool_malloc :: allocator where
  "pool_malloc h n = (case find (\<lambda>a. h a = None) [8, 16, 24, 32, 40, 48, 56, 64] of None \<Rightarrow> 0 | Some a \<Rightarrow> a)"

definition pool_platform :: platform_t where
  "pool_platform = demo_platform\<lparr>pf_malloc := pool_malloc\<rparr>"

lemma pool_platform_sound: "platform_sound 8 pool_platform"
proof -
  have "malloc_sound pool_malloc"
    by (auto simp: malloc_sound_def pool_malloc_def)
  moreover have "pool_malloc h n \<noteq> 0" if "finite (dom h)" "card (dom h) < 8" for h n
  proof
    assume "pool_malloc h n = 0"
    then have "{8, 16, 24, 32, 40, 48, 56, 64} \<subseteq> dom h" by (auto simp: pool_malloc_def split: if_splits)
    from card_mono [OF that(1) this] that(2) show False by simp
  qed
  ultimately show ?thesis by (simp add: platform_sound_def malloc_supply_def pool_platform_def)
qed

definition push_request :: "byte list \<Rightarrow> byte list \<Rightarrow> broker_request" where
  "push_request topic m = client_request (opcode_value PUSH) topic 0 m"

definition take_requests :: "byte list \<Rightarrow> byte list \<Rightarrow> broker_request list" where
  "take_requests topic m =
     [client_request (opcode_value PULL) topic 0 [], client_request (opcode_value DELETE) topic 0 m]"

text \<open>What a client sends that pushes the messages and then pulls and deletes each of them.\<close>

definition producer_consumer :: "byte list \<Rightarrow> byte list list \<Rightarrow> broker_request list" where
  "producer_consumer topic ms = map (push_request topic) ms @ concat (map (take_requests topic) ms)"

definition client_bytes :: "byte \<Rightarrow> broker_request \<Rightarrow> fault + byte list" where
  "client_bytes pad q = request_bytes pad (br_opcode q) (br_topic q) (br_pid q) (br_message q)"

lemma broker_run_append:
  "broker_run can_open B (qs @ rs) =
     (case broker_run can_open B qs of None \<Rightarrow> None
      | Some (B', reps) \<Rightarrow> map_option (\<lambda>(B'', reps'). (B'', reps @ reps')) (broker_run can_open B' rs))"
  by (induction qs arbitrary: B)
    (auto split: option.splits prod.splits simp: map_option_case)

lemma broker_run_pushes:
  "topic \<noteq> [] \<Longrightarrow> list_all (fits_buffer topic) ms \<Longrightarrow> B topic \<noteq> None \<or> can_open (lit ''/tmp/'' @ topic) \<Longrightarrow> ms \<noteq> [] \<Longrightarrow>
     broker_run can_open B (map (push_request topic) ms) =
       Some (B(topic \<mapsto> messages_of B topic @ ms), replicate (length ms) (ack (opcode_value PUSH) []))"
proof (induction ms arbitrary: B)
  case Nil
  then show ?case by simp
next
  case (Cons m ms)
  define B1 where "B1 = B(topic \<mapsto> messages_of B topic @ [m])"
  have step: "broker_step can_open B (push_request topic m) = Some (B1, ack (opcode_value PUSH) [])"
    unfolding broker_step_def push_request_def client_request_def
    using Cons.prems by (auto simp: broker_push_def B1_def simp del: opcode_value.simps)
  show ?case
  proof (cases "ms = []")
    case True
    then show ?thesis using step by (simp add: B1_def fun_eq_iff)
  next
    case False
    have "B1 topic \<noteq> None" by (simp add: B1_def)
    then have "broker_run can_open B1 (map (push_request topic) ms) =
        Some (B1(topic \<mapsto> messages_of B1 topic @ ms), replicate (length ms) (ack (opcode_value PUSH) []))"
      by (intro Cons.IH) (use Cons.prems False in simp_all)
    moreover have "B1(topic \<mapsto> messages_of B1 topic @ ms) = B(topic \<mapsto> messages_of B topic @ (m # ms))"
      by (simp add: B1_def messages_of_def fun_eq_iff)
    ultimately show ?thesis using step by (simp add: fun_eq_iff del: opcode_value.simps)
  qed
qed

lemma broker_run_takes:
  "topic \<noteq> [] \<Longrightarrow> list_all (fits_buffer topic) ms \<Longrightarrow> B topic = Some ms \<Longrightarrow>
     broker_run can_open B (concat (map (take_requests topic) ms)) =
       Some (B(topic \<mapsto> []), concat (map (\<lambda>m. [ack (opcode_value PULL) m, ack (opcode_value DELETE) []]) ms))"
proof (induction ms arbitrary: B)
  case Nil
  then show ?case by (simp add: fun_upd_idem)
next
  case (Cons m ms)
  define B1 where "B1 = B(topic \<mapsto> ms)"
  have "broker_step can_open B (client_request (opcode_value PULL) topic 0 []) = Some (B, ack (opcode_value PULL) m)"
    "broker_step can_open B (client_request (opcode_value DELETE) topic 0 m) = Some (B1, ack (opcode_value DELETE) [])"
    unfolding broker_step_def client_request_def B1_def
    using Cons.prems
    by (simp_all add: broker_pull_def broker_delete_def messages_of_def INVALID_TOPIC_ID_def del: opcode_value.simps)
  moreover have "B1 topic = Some ms" by (simp add: B1_def)
  moreover have "B1(topic \<mapsto> []) = B(topic \<mapsto> [])" by (simp add: B1_def)
  ultimately show ?case
    using Cons.IH [of B1] Cons.prems(1,2) by (simp add: take_requests_def del: opcode_value.simps)
qed

lemma broker_run_producer_consumer:
  assumes "topic \<noteq> []" and "list_all (fits_buffer topic) ms" and "B topic = None" and "ms \<noteq> []"
    and "can_open (lit ''/tmp/'' @ topic)"
  shows "broker_run can_open B (producer_consumer topic ms) =
     Some (B(topic \<mapsto> []), replicate (length ms) (ack (opcode_value PUSH) [])
       @ concat (map (\<lambda>m. [ack (opcode_value PULL) m, ack (opcode_value DELETE) []]) ms))"
proof -
  have "messages_of B topic = []" using assms(3) by (simp add: messages_of_def)
  then show ?thesis
    using broker_run_pushes [of topic ms B can_open, OF assms(1,2) disjI2 [OF assms(5)] assms(4)]
      broker_run_takes [OF assms(1,2), of "B(topic \<mapsto> ms)" can_open]
    by (simp add: producer_consumer_def broker_run_append)
qed

lemma concat_map_pairs: "concat (concat (map (\<lambda>m. [f m, g m]) xs)) = concat (map (\<lambda>m. f m @ g m) xs)"
  by (induction xs) simp_all

lemma producer_consumer_frames:
  assumes "list_all (fits_buffer topic) ms"
  shows "list_all frame_fits (producer_consumer topic ms)"
    and "list_all (\<lambda>q. client_bytes pad q = Inr (frame_of pad q)) (producer_consumer topic ms)"
proof -
  have small: "length topic < 1024" "length m < 1024" if "m \<in> set ms" for m
    using assms that by (auto simp: list_all_iff fits_buffer_def)
  have "frame_fits q \<and> client_bytes pad q = Inr (frame_of pad q)" if "q \<in> set (producer_consumer topic ms)" for q
  proof -
    from that have "(\<exists>m\<in>set ms. q = push_request topic m) \<or> (\<exists>m\<in>set ms. q \<in> set (take_requests topic m))"
      by (auto simp: producer_consumer_def)
    then obtain m c where m: "m \<in> set ms" and q: "q = client_request c topic 0 m \<or> q = client_request c topic 0 []"
      by (auto simp: push_request_def take_requests_def)
    have "length (br_topic q) < 1024" "length (br_message q) < 1024"
      using q small [OF m] by (auto simp: client_request_def)
    moreover have "q = client_request (br_opcode q) (br_topic q) (br_pid q) (br_message q)"
      by (simp add: client_request_def)
    ultimately show ?thesis
      using request_bytes_small [of "br_topic q" "br_message q" pad "br_opcode q" "br_pid q"]
      by (simp add: frame_fits_def session_buffer_size_def sizeof_header_def client_bytes_def)
  qed
  then show "list_all frame_fits (producer_consumer topic ms)"
    and "list_all (\<lambda>q. client_bytes pad q = Inr (frame_of pad q)) (producer_consumer topic ms)"
    by (simp_all add: list_all_iff)
qed

end
