(* ===== verification/Iterators.thy ===== *)
theory Iterators
  imports Partition
begin

section \<open>Iterators of a queue (\<open>src/messages/message-queue.h\<close>)\<close>

text \<open>
  The class template \<open>iterator_t<IS_CONST>\<close> with its constructors, conversions and operators, the
  overloads of \<open>begin\<close>, \<open>end\<close>, \<open>front\<close> and \<open>back\<close> for constant queues and partitions, and the
  contract of a forward iterator that the file asserts for both instances.
\<close>

subsection \<open>The class\<close>

text \<open>
  The template parameter is a type parameter without a value. Both instances hold a pointer;
  an \<open>iterator\<close> converts to a \<open>const_iterator\<close> and not the other way.
\<close>

datatype mutable_tag = Mutable_tag
datatype const_tag = Const_tag

datatype 'c iterator_t = Iterator (it_message: ptr)

type_synonym iterator = "mutable_tag iterator_t"
type_synonym const_iterator = "const_tag iterator_t"

definition it_default :: "'c iterator_t" where
  "it_default = Iterator 0"

definition it_copy :: "'c iterator_t \<Rightarrow> 'c iterator_t" where
  "it_copy other = Iterator (it_message other)"

definition it_of_pointer :: "ptr \<Rightarrow> 'c iterator_t" where
  "it_of_pointer msg = Iterator msg"

definition it_const :: "iterator \<Rightarrow> const_iterator" where
  "it_const other = Iterator (it_message other)"

definition it_assign :: "'c iterator_t \<Rightarrow> 'c iterator_t \<Rightarrow> 'c iterator_t" where
  "it_assign this other = (case this of Iterator old \<Rightarrow> Iterator (it_message other))"

definition it_eq :: "'c iterator_t \<Rightarrow> 'd iterator_t \<Rightarrow> bool" where
  "it_eq this other \<longleftrightarrow> iter_eq (it_message this) (it_message other)"

definition it_ne :: "'c iterator_t \<Rightarrow> 'd iterator_t \<Rightarrow> bool" where
  "it_ne this other \<longleftrightarrow> iter_ne (it_message this) (it_message other)"

definition it_deref :: "heap \<Rightarrow> 'c iterator_t \<Rightarrow> fault + byte list" where
  "it_deref h this = iter_deref h (it_message this)"

definition it_arrow :: "'c iterator_t \<Rightarrow> ptr" where
  "it_arrow this = it_message this"

definition it_next :: "heap \<Rightarrow> 'c iterator_t \<Rightarrow> fault + 'c iterator_t" where
  "it_next h this = rbind (iter_next h (it_message this)) (\<lambda>p. Inr (Iterator p))"

definition it_post_next :: "heap \<Rightarrow> 'c iterator_t \<Rightarrow> fault + 'c iterator_t \<times> 'c iterator_t" where
  "it_post_next h this = (let old = it_copy this in rbind (it_next h this) (\<lambda>this'. Inr (old, this')))"

subsection \<open>Overloads\<close>

definition mq_cbegin :: "message_queue_t \<Rightarrow> const_iterator" where
  "mq_cbegin q = it_of_pointer (mq_head q)"

definition mq_cend :: "message_queue_t \<Rightarrow> const_iterator" where
  "mq_cend q = it_of_pointer 0"

definition mq_cfront :: "message_queue_t \<Rightarrow> const_iterator" where
  "mq_cfront q = it_of_pointer (mq_head q)"

definition mq_cback :: "message_queue_t \<Rightarrow> const_iterator" where
  "mq_cback q = it_of_pointer (mq_head q)"

definition queue_size :: "message_queue_t \<Rightarrow> nat" where
  "queue_size q = mq_size q"

definition partition_cbegin :: "partition_t \<Rightarrow> const_iterator" where
  "partition_cbegin p = mq_cbegin (pt_queue p)"

definition partition_cend :: "partition_t \<Rightarrow> const_iterator" where
  "partition_cend p = mq_cend (pt_queue p)"

definition partition_cfront :: "partition_t \<Rightarrow> const_iterator" where
  "partition_cfront p = mq_cfront (pt_queue p)"

definition partition_cback :: "partition_t \<Rightarrow> const_iterator" where
  "partition_cback p = mq_cback (pt_queue p)"

text \<open>The overloads for constant objects are the conversions of the others.\<close>

lemma const_overloads:
  "mq_cbegin q = it_const (it_of_pointer (mq_begin q))" "mq_cend q = it_const (it_of_pointer (mq_end q))"
  "mq_cfront q = it_const (it_of_pointer (mq_front q))" "mq_cback q = it_const (it_of_pointer (mq_back q))"
  "partition_cbegin p = it_const (it_of_pointer (partition_begin p))"
  "partition_cend p = it_const (it_of_pointer (partition_end p))"
  "partition_cfront p = it_const (it_of_pointer (partition_front p))"
  "partition_cback p = it_const (it_of_pointer (partition_back p))"
  by (simp_all add: mq_cbegin_def mq_cend_def mq_cfront_def mq_cback_def partition_cbegin_def partition_cend_def
      partition_cfront_def partition_cback_def partition_begin_def partition_end_def partition_front_def
      partition_back_def mq_begin_def mq_end_def mq_front_def mq_back_def it_const_def it_of_pointer_def)

subsection \<open>The contract of a forward iterator\<close>

text \<open>
  What \<open>std::forward_iterator\<close> asks beyond the syntax: equality is an equivalence, equal iterators
  read the same and stay equal when both are incremented, and \<open>it++\<close> yields the old position
  and moves like \<open>++it\<close>. So a range may be passed over more than once.
\<close>

fun walk :: "('i \<Rightarrow> fault + 'i) \<Rightarrow> nat \<Rightarrow> 'i \<Rightarrow> fault + 'i" where
  "walk incr 0 it = Inr it"
| "walk incr (Suc n) it = rbind (incr it) (walk incr n)"

fun walk_post :: "('i \<Rightarrow> fault + 'i \<times> 'i) \<Rightarrow> nat \<Rightarrow> 'i \<Rightarrow> fault + 'i" where
  "walk_post post_incr 0 it = Inr it"
| "walk_post post_incr (Suc n) it = rbind (post_incr it) (\<lambda>(old, it'). walk_post post_incr n it')"

locale forward_iterator =
  fixes deref :: "'i \<Rightarrow> fault + 'v" and incr :: "'i \<Rightarrow> fault + 'i" and post_incr :: "'i \<Rightarrow> fault + 'i \<times> 'i"
    and eq :: "'i \<Rightarrow> 'i \<Rightarrow> bool"
  assumes eq_equivalence: "equivp eq"
    and deref_cong: "eq a b \<Longrightarrow> deref a = deref b"
    and incr_cong: "eq a b \<Longrightarrow> rel_sum (=) eq (incr a) (incr b)"
    and post_incr_law: "rel_sum (=) (rel_prod eq eq) (post_incr a) (rbind (incr a) (\<lambda>b. Inr (a, b)))"
begin

lemma walk_cong: "eq a b \<Longrightarrow> rel_sum (=) eq (walk incr n a) (walk incr n b)"
proof (induction n arbitrary: a b)
  case 0
  then show ?case by simp
next
  case (Suc n)
  from incr_cong [OF Suc.prems] Suc.IH show ?case by (cases "incr a"; cases "incr b") auto
qed

lemma walk_post_walk: "rel_sum (=) eq (walk_post post_incr n a) (walk incr n a)"
proof (induction n arbitrary: a)
  case 0
  then show ?case using equivp_reflp [OF eq_equivalence] by simp
next
  case (Suc n)
  show ?case
  proof (cases "incr a")
    case (Inl f)
    with post_incr_law [of a] show ?thesis by (cases "post_incr a") auto
  next
    case (Inr b)
    with post_incr_law [of a] obtain old b' where post: "post_incr a = Inr (old, b')" "eq b' b"
      by (cases "post_incr a") auto
    from Suc.IH [of b'] walk_cong [OF post(2), of n] show ?thesis
      by (cases "walk_post post_incr n b'"; cases "walk incr n b'"; cases "walk incr n b")
        (auto simp: post(1) Inr intro: equivp_transp [OF eq_equivalence])
  qed
qed

lemma multi_pass: "eq a b \<Longrightarrow> rbind (walk incr n a) deref = rbind (walk_post post_incr n b) deref"
  using walk_cong [of a b n] walk_post_walk [of n b]
  by (cases "walk incr n a"; cases "walk incr n b"; cases "walk_post post_incr n b") (auto dest!: deref_cong)

end

interpretation itf: forward_iterator "it_deref h" "it_next h" "it_post_next h" it_eq for h
proof unfold_locales
  show "equivp (it_eq :: 'c iterator_t \<Rightarrow> 'c iterator_t \<Rightarrow> bool)"
    by (rule equivpI) (auto simp: reflp_def symp_def transp_def it_eq_def iter_eq_def)
next
  fix a b :: "'c iterator_t"
  assume "it_eq a b"
  then have "a = b" by (cases a; cases b) (simp add: it_eq_def iter_eq_def)
  then show "it_deref h a = it_deref h b" and "rel_sum (=) it_eq (it_next h a) (it_next h b)"
    by (auto simp: rel_sum_sel it_eq_def iter_eq_def)
next
  fix a :: "'c iterator_t"
  show "rel_sum (=) (rel_prod it_eq it_eq) (it_post_next h a) (rbind (it_next h a) (\<lambda>b. Inr (a, b)))"
    by (cases "it_next h a") (auto simp: it_post_next_def it_copy_def it_eq_def iter_eq_def)
qed

subsection \<open>Range-based loops\<close>

text \<open>
  \<open>for (auto& m : queue)\<close>, collecting what the body sees. Whether it ends is not clear from the
  text of the loop: it stops where the iterator equals the end iterator.
\<close>

partial_function (option) range_for :: "heap \<Rightarrow> 'c iterator_t \<Rightarrow> 'd iterator_t \<Rightarrow> (fault + byte list list) option" where
  "range_for h it stop =
     (if it_ne it stop then
        case it_deref h it of
          Inl f \<Rightarrow> Some (Inl f)
        | Inr m \<Rightarrow>
            (case it_next h it of
               Inl f \<Rightarrow> Some (Inl f)
             | Inr it' \<Rightarrow> Option.bind (range_for h it' stop) (\<lambda>r. Some (rbind r (\<lambda>ms. Inr (m # ms)))))
      else Some (Inr []))"

lemma range_for_chain:
  "chain h p as \<Longrightarrow> range_for h (Iterator p :: 'c iterator_t) (Iterator 0 :: 'd iterator_t) = Some (Inr (map (cell_data h) as))"
proof (induction as arbitrary: p)
  case Nil
  then show ?case by (simp add: range_for.simps it_ne_def iter_ne_def)
next
  case (Cons a as)
  then obtain m where m: "h a = Some m" "a \<noteq> 0" "p = a" "chain h (msg_next m) as"
    by (auto simp: chain_Cons)
  have "it_deref h (Iterator a :: 'c iterator_t) = Inr (get_data m)"
    "it_next h (Iterator a :: 'c iterator_t) = Inr (Iterator (msg_next m))"
    using m by (simp_all add: it_deref_def it_next_def iter_deref_def iter_next_def load_def get_next_def)
  with Cons.IH [OF m(4)] m show ?case
    by (simp add: range_for.simps [of h "Iterator a"] it_ne_def iter_ne_def cell_data_def)
qed

lemma range_for_pointers:
  assumes "mq_wf h q"
  shows "range_for h (Iterator (mq_head q) :: 'c iterator_t) (Iterator 0 :: 'd iterator_t) = Some (Inr (mq_abs h q))"
proof -
  have "mq_rel h q (mq_addrs h q)" using assms by blast
  then have "chain h (mq_head q) (mq_addrs h q)" by (simp add: mq_rel_def)
  from range_for_chain [OF this] show ?thesis by (simp add: mq_abs_def)
qed

subsection \<open>Properties\<close>

text \<open>
  C26: a loop over a queue is a loop over its messages. From \<open>begin\<close> to \<open>end\<close>, and from \<open>cbegin\<close> to
  either end of a constant queue, the iterators terminate, read every message once in queue
  order and meet no fault; moving by \<open>it++\<close> instead of \<open>++it\<close> reads the same, and the loop sees
  as many messages as \<open>size()\<close> says.
\<close>

theorem iteration_equals_contents:
  assumes "mq_wf h q"
  shows "range_for h (it_of_pointer (mq_begin q) :: iterator) (it_of_pointer (mq_end q) :: iterator) = Some (Inr (mq_abs h q))
     \<and> range_for h (mq_cbegin q) (mq_cend q) = Some (Inr (mq_abs h q))
     \<and> range_for h (mq_cbegin q) (it_of_pointer (mq_end q) :: iterator) = Some (Inr (mq_abs h q))
     \<and> length (mq_abs h q) = queue_size q
     \<and> rbind (walk (it_next h) n (mq_cbegin q)) (it_deref h) = rbind (walk_post (it_post_next h) n (mq_cbegin q)) (it_deref h)"
proof -
  have "length (mq_abs h q) = queue_size q"
    using assms by (auto simp: mq_wf_def mq_rel_def queue_size_def mq_abs_def)
  moreover
  have "it_eq (mq_cbegin q) (mq_cbegin q)" by (simp add: it_eq_def iter_eq_def)
  from itf.multi_pass [OF this]
  have "rbind (walk (it_next h) n (mq_cbegin q)) (it_deref h) = rbind (walk_post (it_post_next h) n (mq_cbegin q)) (it_deref h)" .
  ultimately show ?thesis
    by (simp add: range_for_pointers [OF assms] mq_begin_def mq_end_def mq_cbegin_def mq_cend_def it_of_pointer_def)
qed

theorem iteration_equals_contents_witness:
  "range_for (one_heap (lit ''x'')) (mq_cbegin one_queue) (mq_cend one_queue) = Some (Inr [lit ''x''])"
  using iteration_equals_contents [OF one_queue_wf, of "lit ''x''" 0] by (simp add: one_queue_abs)

end
