(* ===== verification/Terminal.thy ===== *)
theory Terminal
  imports Prelude
begin

section \<open>What the programs print\<close>

text \<open>
  Both executables report on the terminal through \<open>fmt::println(stream, format, args...)\<close>. A call
  is a value of the model, with its stream, its format string and its arguments; what the
  library makes of the format is its own matter. The texts of exceptions come from libraries
  and are opaque.
\<close>

datatype stream = Stdout | Stderr

datatype print_arg =
    Text "byte list"
  | Number int
  | Address
  | Exception_text

record line =
  ln_stream :: stream
  ln_format :: string
  ln_args :: "print_arg list"

definition println :: "string \<Rightarrow> print_arg list \<Rightarrow> line" where
  "println fmt args = \<lparr>ln_stream = Stdout, ln_format = fmt, ln_args = args\<rparr>"

definition eprintln :: "string \<Rightarrow> print_arg list \<Rightarrow> line" where
  "eprintln fmt args = \<lparr>ln_stream = Stderr, ln_format = fmt, ln_args = args\<rparr>"

end
