(* ===== verification/ClientMain.thy ===== *)
theory ClientMain
  imports Client BrokerProps Terminal
begin

section \<open>The command line client (\<open>src/rpc-client.cpp\<close>)\<close>

text \<open>
  \<open>main\<close> from the argument vector to the exit code and the lines it prints.
\<close>

subsection \<open>Reading numbers\<close>

definition is_space :: "byte \<Rightarrow> bool" where
  "is_space c \<longleftrightarrow> c = 32 \<or> 9 \<le> c \<and> c \<le> 13"

definition is_digit :: "byte \<Rightarrow> bool" where
  "is_digit c \<longleftrightarrow> 48 \<le> c \<and> c \<le> 57"

definition digits_value :: "byte list \<Rightarrow> int" where
  "digits_value ds = foldl (\<lambda>a d. 10 * a + uint (d - 48)) 0 ds"

text \<open>
  \<open>std::atoi\<close>: white space, a sign, digits, and no error reporting; a value outside the
  range of \<open>int\<close> is undefined behaviour.
\<close>

definition atoi :: "byte list \<Rightarrow> fault + int" where
  "atoi s =
     (let s1 = dropWhile is_space s;
          negative = (s1 \<noteq> [] \<and> hd s1 = 45);
          s2 = (if s1 \<noteq> [] \<and> (hd s1 = 45 \<or> hd s1 = 43) then tl s1 else s1);
          v = digits_value (takeWhile is_digit s2);
          n = (if negative then - v else v)
      in if - (2 ^ 31) \<le> n \<and> n < 2 ^ 31 then Inr n else Inl Undefined_conversion)"

definition to_u16 :: "fault + int \<Rightarrow> fault + u16" where
  "to_u16 r = rbind r (\<lambda>n. Inr (word_of_int n))"

subsection \<open>Options\<close>

text \<open>The loop over \<open>argv\<close> from index 2 on; the state is the host and the port.\<close>

fun parse_options :: "byte list list \<Rightarrow> byte list \<times> u16 \<Rightarrow> fault + byte list \<times> u16" where
  "parse_options [] cfg = Inr cfg"
| "parse_options [arg] cfg = Inr cfg"
| "parse_options (arg # val # rest) (host, port) =
     (if arg = lit ''--host'' then parse_options rest (val, port)
      else if arg = lit ''--port'' then
        rbind (to_u16 (atoi val)) (\<lambda>p. parse_options rest (host, p))
      else parse_options (val # rest) (host, port))"

subsection \<open>Lines\<close>

definition quoted :: "string \<Rightarrow> string" where
  "quoted s = [CHR 0x22] @ s @ [CHR 0x22]"

definition print_help :: "line list" where
  "print_help =
     [println ''Usage: ./noctua-client <command> [options]'' [],
      println [] [],
      println ''Commands:'' [],
      println ''  push <topic> <partition> <message>    - Push message to topic'' [],
      println ''  pull <topic> <partition>               - Pull message from topic partition'' [],
      println ''  delete <topic> <partition> <message>   - Delete message from topic'' [],
      println [] [],
      println ''Options:'' [],
      println ''  --host <host>   - Server host (default: 127.0.0.1)'' [],
      println ''  --port <port>   - Server port (default: 8080)'' [],
      println [] [],
      println ''Examples:'' [],
      println (''  ./noctua-client push my-topic 0 '' @ quoted ''Hello World'') [],
      println ''  ./noctua-client pull my-topic 0'' [],
      println (''  ./noctua-client --port 9090 push test 1 '' @ quoted ''data'') []]"

definition connecting_lines :: "byte list \<Rightarrow> u16 \<Rightarrow> line list" where
  "connecting_lines host port = [println ''[CLIENT] Connecting to {}:{}...'' [Text host, Number (uint port)]]"

definition connected_lines :: "byte list \<Rightarrow> u16 \<Rightarrow> line list" where
  "connected_lines host port = connecting_lines host port @ [println ''[CLIENT] Connected!'' []]"

text \<open>The handler of exceptions.\<close>

definition caught_line :: line where
  "caught_line = eprintln ''[CLIENT] Error: {}'' [Exception_text]"

definition response_line :: "response_header_t \<Rightarrow> line" where
  "response_line response = println ''[CLIENT] Response: opcode={}, error_code={}, message_len={}''
     [Text (lit (opcode_to_string (sh_opcode response))), Text (lit (error_code_to_string (sh_error_code response))),
      Number (uint (sh_message_len response))]"

definition payload_lines :: "string \<Rightarrow> byte list option \<Rightarrow> line list" where
  "payload_lines fmt data = (case data of None \<Rightarrow> [] | Some d \<Rightarrow> [println fmt [Text d]])"

subsection \<open>The main function\<close>

text \<open>
  The exit code, the lines, the reply that was received with its data, and the socket at the
  end, which the destructor of the client has closed.
\<close>

record 'k client_run =
  cr_exit_code :: int
  cr_output :: "line list"
  cr_answer :: "(response_header_t \<times> byte list option) option"
  cr_socket :: 'k

definition client_exit :: "'k network_api \<Rightarrow> int \<Rightarrow> line list \<Rightarrow> (response_header_t \<times> byte list option) option
    \<Rightarrow> 'k client_t \<Rightarrow> fault + 'k client_run" where
  "client_exit net code output answer c =
     Inr \<lparr>cr_exit_code = code, cr_output = output, cr_answer = answer, cr_socket = cl_socket (client_disconnect net c)\<rparr>"

definition client_done :: "'k network_api \<Rightarrow> line list \<Rightarrow> (response_header_t \<times> byte list option) option
    \<Rightarrow> 'k client_t \<Rightarrow> fault + 'k client_run" where
  "client_done net output answer c =
     client_exit net 0 (output @ [println ''[CLIENT] Disconnected'' []]) answer (client_disconnect net c)"

text \<open>Reading and printing the reply. An exception ends the program with code 1.\<close>

definition client_finish :: "'k network_api \<Rightarrow> 'k socket_api \<Rightarrow> line list \<Rightarrow> bool \<times> 'k client_t \<Rightarrow> fault + 'k client_run" where
  "client_finish net api output sent =
     (case sent of
        (False, c) \<Rightarrow> client_exit net 1 (output @ [caught_line]) None c
      | (True, c) \<Rightarrow>
          (case receive_response api c of
             (None, c1) \<Rightarrow> client_exit net 1 (output @ [caught_line]) None c1
           | (Some response, c1) \<Rightarrow>
               let output1 = output @ [response_line response] in
               if sh_error_code response \<noteq> error_code_value OK then
                 (case receive_response_data api response c1 of
                    (None, c2) \<Rightarrow> client_exit net 1 (output1 @ [caught_line]) (Some (response, None)) c2
                  | (Some error_msg, c2) \<Rightarrow>
                      client_done net (output1 @ payload_lines ''[CLIENT] Error: {}'' error_msg) (Some (response, error_msg)) c2)
               else if sh_message_len response > 0 then
                 (case receive_response_data api response c1 of
                    (None, c2) \<Rightarrow> client_exit net 1 (output1 @ [caught_line]) (Some (response, None)) c2
                  | (Some data, c2) \<Rightarrow>
                      client_done net (output1 @ payload_lines ''[CLIENT] Data: {}'' data) (Some (response, data)) c2)
               else client_done net output1 (Some (response, None)) c1))"

definition usage_error :: "'k network_api \<Rightarrow> line list \<Rightarrow> line \<Rightarrow> 'k client_t \<Rightarrow> fault + 'k client_run" where
  "usage_error net output message c = client_exit net 1 (output @ [message] @ print_help) None c"

definition client_dispatch :: "'k network_api \<Rightarrow> 'k socket_api \<Rightarrow> byte \<Rightarrow> byte list list \<Rightarrow> line list \<Rightarrow> 'k client_t
    \<Rightarrow> fault + 'k client_run" where
  "client_dispatch net api pad argv output c =
     (let argc = length argv; command = argv ! 1
      in if command = lit ''push'' then
           (if argc < 6 then
              usage_error net output (eprintln ''Error: push requires <topic> <partition> <message>'' []) c
            else rbind (to_u16 (atoi (argv ! 3))) (\<lambda>partition.
                 let output1 = output @ [println ''[CLIENT] Sending PUSH: topic={}, partition={}, message={}''
                       [Text (argv ! 2), Number (uint partition), Text (argv ! 4)]]
                 in rbind (send_push api pad (argv ! 2) partition (argv ! 4) c) (client_finish net api output1)))
         else if command = lit ''pull'' then
           (if argc < 5 then usage_error net output (eprintln ''Error: pull requires <topic> <partition>'' []) c
            else rbind (to_u16 (atoi (argv ! 3))) (\<lambda>partition.
                 let output1 = output @ [println ''[CLIENT] Sending PULL: topic={}, partition={}''
                       [Text (argv ! 2), Number (uint partition)]]
                 in rbind (send_pull api pad (argv ! 2) partition c) (client_finish net api output1)))
         else if command = lit ''delete'' then
           (if argc < 6 then
              usage_error net output (eprintln ''Error: delete requires <topic> <partition> <message>'' []) c
            else rbind (to_u16 (atoi (argv ! 3))) (\<lambda>partition.
                 let output1 = output @ [println ''[CLIENT] Sending DELETE: topic={}, partition={}, message={}''
                       [Text (argv ! 2), Number (uint partition), Text (argv ! 4)]]
                 in rbind (send_delete api pad (argv ! 2) partition (argv ! 4) c) (client_finish net api output1)))
         else usage_error net output
           (eprintln (''Error: Unknown command '' @ [CHR 0x27] @ ''{}'' @ [CHR 0x27]) [Text command]) c)"

definition client_main :: "'k network_api \<Rightarrow> 'k socket_api \<Rightarrow> byte \<Rightarrow> byte list list \<Rightarrow> 'k \<Rightarrow> fault + 'k client_run" where
  "client_main net api pad argv k =
     (if length argv < 3 then Inr \<lparr>cr_exit_code = 1, cr_output = print_help, cr_answer = None, cr_socket = k\<rparr>
      else
        rbind (parse_options (drop 2 argv) (lit ''127.0.0.1'', 8080)) (\<lambda>(host, port).
          case client_connect net host port (client_ctor k) of
            (False, c) \<Rightarrow> client_exit net 1 (connecting_lines host port @ [caught_line]) None c
          | (True, c) \<Rightarrow> client_dispatch net api pad argv (connected_lines host port) c))"

subsection \<open>Lemmas\<close>

text \<open>\<open>atoi\<close> of the characters of a number.\<close>

lemma digits_value_snoc: "digits_value (ds @ [d]) = 10 * digits_value ds + uint (d - 48)"
  by (simp add: digits_value_def)

lemma is_digit_not_sign: "is_digit c \<Longrightarrow> c \<noteq> 45 \<and> c \<noteq> 43 \<and> \<not> is_space c"
  by (auto simp: is_digit_def is_space_def word_le_nat_alt)

lemma atoi_digits:
  assumes "list_all is_digit ds" and "digits_value ds < 2 ^ 31" and "0 \<le> digits_value ds"
  shows "atoi ds = Inr (digits_value ds)"
proof -
  have "dropWhile is_space ds = ds" and "\<not> (ds \<noteq> [] \<and> (hd ds = 45 \<or> hd ds = 43))"
    using assms(1) is_digit_not_sign by (cases ds; auto)+
  moreover have digits: "takeWhile is_digit ds = ds"
    using assms(1) by (simp add: takeWhile_eq_all_conv list_all_iff)
  ultimately show ?thesis using assms(2,3) by (auto simp: atoi_def Let_def digits)
qed

lemma digits_value_nonneg: "0 \<le> digits_value ds"
  by (induction ds rule: rev_induct) (simp_all add: digits_value_def)

lemma client_connect_ok:
  "nw_connect net host port k = (True, k1) \<Longrightarrow>
     client_connect net host port (client_ctor k) = (True, \<lparr>cl_socket = k1, cl_connected = True\<rparr>)"
  by (simp add: client_connect_def client_ctor_def)

lemma lit_inj: "lit a = lit b \<longleftrightarrow> map (of_char :: char \<Rightarrow> byte) a = map of_char b"
  by (simp add: lit_def)

lemma command_words [simp]:
  "lit ''push'' \<noteq> lit ''pull''" "lit ''push'' \<noteq> lit ''delete''" "lit ''pull'' \<noteq> lit ''push''"
  "lit ''pull'' \<noteq> lit ''delete''" "lit ''delete'' \<noteq> lit ''push''" "lit ''delete'' \<noteq> lit ''pull''"
  by (simp_all add: lit_def)

lemma client_exit_connected:
  "client_exit net code output answer \<lparr>cl_socket = k, cl_connected = True\<rparr> =
     Inr \<lparr>cr_exit_code = code, cr_output = output, cr_answer = answer, cr_socket = nw_close net k\<rparr>"
  by (simp add: client_exit_def client_disconnect_def)

lemma client_done_connected:
  "client_done net output answer \<lparr>cl_socket = k, cl_connected = True\<rparr> =
     Inr \<lparr>cr_exit_code = 0, cr_output = output @ [println ''[CLIENT] Disconnected'' []], cr_answer = answer,
          cr_socket = nw_close net k\<rparr>"
  by (simp add: client_done_def client_exit_def client_disconnect_def)

lemma client_main_connected:
  assumes "3 \<le> length argv" and "parse_options (drop 2 argv) (lit ''127.0.0.1'', 8080) = Inr (host, port)"
    and "nw_connect net host port k = (True, k1)"
  shows "client_main net api pad argv k =
     client_dispatch net api pad argv (connected_lines host port) \<lparr>cl_socket = k1, cl_connected = True\<rparr>"
  using assms by (simp add: client_main_def client_connect_ok)

text \<open>The request that an accepted command line stands for, and the line that announces it.\<close>

definition command_request :: "byte list list \<Rightarrow> (broker_request \<times> line) option" where
  "command_request argv =
     (case to_u16 (atoi (argv ! 3)) of
        Inl f \<Rightarrow> None
      | Inr pid \<Rightarrow>
          if argv ! 1 = lit ''push'' \<and> 6 \<le> length argv then
            Some (client_request (opcode_value PUSH) (argv ! 2) pid (argv ! 4),
              println ''[CLIENT] Sending PUSH: topic={}, partition={}, message={}''
                [Text (argv ! 2), Number (uint pid), Text (argv ! 4)])
          else if argv ! 1 = lit ''pull'' \<and> 5 \<le> length argv then
            Some (client_request (opcode_value PULL) (argv ! 2) pid [],
              println ''[CLIENT] Sending PULL: topic={}, partition={}'' [Text (argv ! 2), Number (uint pid)])
          else if argv ! 1 = lit ''delete'' \<and> 6 \<le> length argv then
            Some (client_request (opcode_value DELETE) (argv ! 2) pid (argv ! 4),
              println ''[CLIENT] Sending DELETE: topic={}, partition={}, message={}''
                [Text (argv ! 2), Number (uint pid), Text (argv ! 4)])
          else None)"

definition send_broker_request :: "'k socket_api \<Rightarrow> byte \<Rightarrow> broker_request \<Rightarrow> 'k client_t \<Rightarrow> fault + bool \<times> 'k client_t" where
  "send_broker_request api pad q = send_request api pad (br_opcode q) (br_topic q) (br_pid q) (br_message q)"

lemma client_dispatch_command:
  "command_request argv = Some (q, announce) \<Longrightarrow>
     client_dispatch net api pad argv output c =
       rbind (send_broker_request api pad q c) (client_finish net api (output @ [announce]))"
  by (auto simp: command_request_def client_dispatch_def send_push_def send_pull_def send_delete_def Let_def
      send_broker_request_def client_request_def split: sum.splits if_splits)

text \<open>What the client prints for a reply.\<close>

definition reply_header :: "broker_reply \<Rightarrow> response_header_t" where
  "reply_header rep = \<lparr>sh_magic = RPC_MAGIC, sh_opcode = rp_opcode rep,
     sh_error_code = error_code_value (rp_code rep), sh_message_len = of_nat (length (rp_payload rep))\<rparr>"

definition reply_data :: "broker_reply \<Rightarrow> byte list option" where
  "reply_data rep = (if rp_payload rep = [] then None else Some (rp_payload rep))"

definition reply_lines :: "broker_reply \<Rightarrow> line list" where
  "reply_lines rep = response_line (reply_header rep)
     # payload_lines (if rp_code rep = OK then ''[CLIENT] Data: {}'' else ''[CLIENT] Error: {}'') (reply_data rep)
     @ [println ''[CLIENT] Disconnected'' []]"

lemma client_finish_reply:
  assumes "so_read api sizeof_header k2 = (Some (take sizeof_header (reply_image pf rep)), k3)"
    and "if rp_payload rep = [] then k4 = k3
      else so_read api (length (rp_payload rep)) k3 = (Some (rp_payload rep), k4)"
    and len: "length (rp_payload rep) < 65536"
  shows "client_finish net api output (True, \<lparr>cl_socket = k2, cl_connected = True\<rparr>) =
     Inr \<lparr>cr_exit_code = 0, cr_output = output @ reply_lines rep,
          cr_answer = Some (reply_header rep, reply_data rep), cr_socket = nw_close net k4\<rparr>"
proof -
  have n: "unat (of_nat (length (rp_payload rep)) :: u16) = length (rp_payload rep)" using len by (simp add: unat_of_nat)
  have "take sizeof_header (reply_image pf rep) = response_header_image (pf_response_pad pf) (reply_header rep)"
    by (simp add: reply_image_def response_image_def reply_header_def sizeof_header_def)
  then have recv: "receive_response api \<lparr>cl_socket = k2, cl_connected = True\<rparr> =
      (Some (reply_header rep), \<lparr>cl_socket = k3, cl_connected = True\<rparr>)"
    using assms(1) by (simp add: receive_response_def response_header_of_image)
  have zero: "sh_message_len (reply_header rep) = 0 \<longleftrightarrow> rp_payload rep = []"
    using n by (auto simp: reply_header_def unat_eq_0 [symmetric])
  have data: "receive_response_data api (reply_header rep) \<lparr>cl_socket = k3, cl_connected = True\<rparr> =
      (Some (reply_data rep), \<lparr>cl_socket = k4, cl_connected = True\<rparr>)"
    using assms(2) zero n by (auto simp: receive_response_data_def reply_data_def reply_header_def split: if_splits)
  have code: "sh_error_code (reply_header rep) = error_code_value OK \<longleftrightarrow> rp_code rep = OK"
    using error_code_value_inj [of "rp_code rep" OK] by (simp add: reply_header_def del: error_code_value.simps)
  have quiet: "reply_data rep = None" "k4 = k3" if "rp_payload rep = []" using that assms(2) by (simp_all add: reply_data_def)
  show ?thesis
    using recv data quiet zero
    by (auto simp: client_finish_def Let_def code client_done_connected reply_lines_def payload_lines_def
        word_neq_0_conv [symmetric] simp del: error_code_value.simps)
qed

subsection \<open>Properties\<close>

text \<open>
  C39: what the client sends. For a topic name and a message of less than 65536 bytes each, the
  client writes exactly the frame of the request; with a longer one, the buffer has the
  size of the truncated lengths and the copies overflow it.
\<close>

theorem client_sends_frame_or_overflows:
  "request_bytes pad opcode topic pid message =
     (if length topic < 65536 \<and> length message < 65536
      then Inr (frame_of pad (client_request opcode topic pid message)) else Inl Buffer_overflow)"
  using request_bytes_small [of topic message pad opcode pid] request_bytes_large [of topic message pad opcode pid]
  by (auto simp: not_less)

text \<open>
  A reply of the session is received as it was sent: the client reads the opcode, the error
  code and the payload of the reply, and what follows it stays in the socket.
\<close>

lemma client_receives_reply:
  assumes "socket_ok api inp out" and "inp (cl_socket c) = reply_image pf rep @ rest"
    and "length (rp_payload rep) < 65536"
  shows "\<exists>c1 c2 response. receive_response api c = (Some response, c1)
     \<and> sh_opcode response = rp_opcode rep \<and> error_code_of (sh_error_code response) = Some (rp_code rep)
     \<and> receive_response_data api response c1 = (Some (if rp_payload rep = [] then None else Some (rp_payload rep)), c2)
     \<and> inp (cl_socket c2) = rest \<and> out (cl_socket c2) = out (cl_socket c)"
  using receive_reply [OF assms] by metis

lemma client_receives_reply_witness:
  "\<exists>c1 c2 response.
       receive_response pair_socket \<lparr>cl_socket = (reply_image demo_platform (ack 2 (lit ''m'')) @ [7], []), cl_connected = True\<rparr>
         = (Some response, c1)
     \<and> error_code_of (sh_error_code response) = Some OK
     \<and> receive_response_data pair_socket response c1 = (Some (Some (lit ''m'')), c2) \<and> fst (cl_socket c2) = [7]"
proof -
  let ?c = "\<lparr>cl_socket = (reply_image demo_platform (ack 2 (lit ''m'')) @ [7], []), cl_connected = True\<rparr>"
  have "fst (cl_socket ?c) = reply_image demo_platform (ack 2 (lit ''m'')) @ [7]" by simp
  from client_receives_reply [OF pair_socket_ok this]
  obtain c1 c2 response where "receive_response pair_socket ?c = (Some response, c1)"
    "error_code_of (sh_error_code response) = Some (rp_code (ack 2 (lit ''m'')))"
    "receive_response_data pair_socket response c1
      = (Some (if rp_payload (ack 2 (lit ''m'')) = [] then None else Some (rp_payload (ack 2 (lit ''m'')))), c2)"
    "fst (cl_socket c2) = [7]"
    by (auto simp: ack_def)
  then show ?thesis by (intro exI [of _ c1] exI [of _ c2] exI [of _ response]) (simp add: ack_def)
qed

definition usage_message :: "byte list \<Rightarrow> line" where
  "usage_message command = eprintln
     (if command = lit ''push'' then ''Error: push requires <topic> <partition> <message>''
      else if command = lit ''pull'' then ''Error: pull requires <topic> <partition>''
      else ''Error: delete requires <topic> <partition> <message>'') []"

text \<open>
  C40: the documented command lines do not work. \<open>push <topic> <partition> <message>\<close>,
  \<open>delete <topic> <partition> <message>\<close> and \<open>pull <topic> <partition>\<close> connect, send nothing,
  print the usage, disconnect and exit with code 1: the argument counts are checked against one
  more.
\<close>

theorem client_documented_usage_fails:
  assumes "(argv ! 1 = lit ''push'' \<or> argv ! 1 = lit ''delete'') \<and> length argv = 5
      \<or> argv ! 1 = lit ''pull'' \<and> length argv = 4"
    and "parse_options (drop 2 argv) (lit ''127.0.0.1'', 8080) = Inr (host, port)"
    and "nw_connect net host port k = (True, k1)"
  shows "client_main net api pad argv k =
     Inr \<lparr>cr_exit_code = 1, cr_output = connected_lines host port @ [usage_message (argv ! 1)] @ print_help,
          cr_answer = None, cr_socket = nw_close net k1\<rparr>"
proof -
  have "3 \<le> length argv" using assms(1) by auto
  from client_main_connected [OF this assms(2,3)] assms(1) show ?thesis
    by (auto simp: client_dispatch_def client_exit_connected usage_error_def usage_message_def Let_def)
qed

theorem client_documented_usage_fails_witness:
  "client_main \<lparr>nw_connect = (\<lambda>_ _ k. (True, k)), nw_close = id\<rparr> pair_socket 0
     (map lit [''noctua-client'', ''push'', ''my-topic'', ''0'', ''Hello World'']) ([], []) =
   Inr \<lparr>cr_exit_code = 1, cr_output = connected_lines (lit ''127.0.0.1'') 8080
          @ [eprintln ''Error: push requires <topic> <partition> <message>'' []] @ print_help,
        cr_answer = None, cr_socket = ([], [])\<rparr>"
  using client_documented_usage_fails [of "map lit [''noctua-client'', ''push'', ''my-topic'', ''0'', ''Hello World'']"
      "lit ''127.0.0.1''" 8080 "\<lparr>nw_connect = (\<lambda>_ _ k. (True, k)), nw_close = id\<rparr>" "([], [])" "([], [])" pair_socket 0]
  by (simp add: usage_message_def) (simp add: lit_def)

text \<open>
  Options before the command are not read. The documented example
  \<open>--port 9090 push test 1 data\<close> connects to the default port, takes \<open>--port\<close> for the command
  and exits with code 1.
\<close>

lemma client_leading_option_fails:
  assumes "nw_connect net (lit ''127.0.0.1'') 8080 k = (True, k1)"
  shows "client_main net api pad
       (map lit [''noctua-client'', ''--port'', ''9090'', ''push'', ''test'', ''1'', ''data'']) k =
     Inr \<lparr>cr_exit_code = 1, cr_output = connected_lines (lit ''127.0.0.1'') 8080
            @ [eprintln (''Error: Unknown command '' @ [CHR 0x27] @ ''{}'' @ [CHR 0x27]) [Text (lit ''--port'')]] @ print_help,
          cr_answer = None, cr_socket = nw_close net k1\<rparr>"
proof -
  let ?argv = "map lit [''noctua-client'', ''--port'', ''9090'', ''push'', ''test'', ''1'', ''data'']"
  have "parse_options (drop 2 ?argv) (lit ''127.0.0.1'', 8080) = Inr (lit ''127.0.0.1'', 8080)"
    by (simp add: lit_def)
  from client_main_connected [OF _ this, of net k k1 api pad] assms show ?thesis
    by (simp add: client_dispatch_def client_exit_connected usage_error_def Let_def) (simp add: lit_def)
qed

end
