(* ===== verification/Server.thy ===== *)
theory Server
  imports BrokerProps ClientMain
begin

section \<open>The server (\<open>src/rpc/rpc-server.h\<close>)\<close>

text \<open>
  The server's state: its acceptor, whether the accept loop is running, its sessions, and the
  world with the registry; and what the constructor, \<open>start\<close>, \<open>stop\<close> and a turn of the accept loop
  do to it. What the sessions do, and how all of it interleaves, is in \<open>Fibers\<close>, \<open>Interleaving\<close> and
  \<open>LockedServer\<close>.
\<close>

subsection \<open>Operations\<close>

record 'k server_t =
  sv_open :: bool
  sv_accepting :: bool
  sv_sessions :: "'k option list"
  sv_world :: world_t

text \<open>A new server has an empty registry and no messages, on whatever files it finds.\<close>

definition server_ctor :: "file_system \<Rightarrow> 'k server_t" where
  "server_ctor files = \<lparr>sv_open = True, sv_accepting = False, sv_sessions = [],
     sv_world = \<lparr>wo_env = \<lparr>en_heap = Map.empty, en_files = files\<rparr>, wo_registry = registry_new\<rparr>\<rparr>"

definition server_start :: "'k server_t \<Rightarrow> 'k server_t" where
  "server_start S = S\<lparr>sv_accepting := True\<rparr>"

definition server_stop :: "'k server_t \<Rightarrow> 'k server_t" where
  "server_stop S = S\<lparr>sv_open := False\<rparr>"

text \<open>
  The outcomes of one turn of \<open>accept_loop\<close>: a connection whose remote endpoint is known, one
  for which \<open>remote_endpoint()\<close> throws because the peer is gone, \<open>operation_aborted\<close>, or
  another error. All but the first leave the loop by \<open>break\<close>.
\<close>

datatype 'k accept_result =
    Connected 'k
  | Connected_no_endpoint 'k
  | Accept_aborted
  | Accept_failed

fun accept_turn :: "'k accept_result \<Rightarrow> 'k server_t \<Rightarrow> 'k server_t" where
  "accept_turn (Connected k) S = S\<lparr>sv_sessions := sv_sessions S @ [Some k]\<rparr>"
| "accept_turn (Connected_no_endpoint k) S = S\<lparr>sv_accepting := False\<rparr>"
| "accept_turn Accept_aborted S = S\<lparr>sv_accepting := False\<rparr>"
| "accept_turn Accept_failed S = S\<lparr>sv_accepting := False\<rparr>"

lemma topic_addrs_of_message:
  assumes "length (tp_storage T) = 1" and "topic_abs (env, T) ! 0 \<noteq> []"
  shows "topic_addrs (env, T) \<noteq> {}"
  using assms
  by (cases "tp_storage T") (auto simp: topic_abs_def storage_abs_def topic_addrs_def storage_addrs_def pt_addrs_def mq_abs_def)

subsection \<open>Facts about requests and new servers\<close>

lemma handle_request_header:
  "handle_request pf hdr topic message W =
     handle pf \<lparr>br_opcode = rh_opcode hdr, br_topic = topic, br_pid = rh_partition_id hdr, br_message = message\<rparr> W"
  by (simp add: handle_def handle_request_def handle_push_def handle_pull_def handle_delete_def
      split: option.split opcode_t.split)

lemma accept_turn_world [simp]: "sv_world (accept_turn r S) = sv_world S"
  by (cases r) simp_all

lemma server_world_new:
  "world_wf \<lparr>wo_env = \<lparr>en_heap = Map.empty, en_files = files\<rparr>, wo_registry = registry_new\<rparr>"
  "world_abs \<lparr>wo_env = env, wo_registry = registry_new\<rparr> = Map.empty"
  unfolding world_wf_def by (simp_all add: world_abs_def registry_find_def registry_new_def)

end
