(* ===== verification/Fibers.thy ===== *)
theory Fibers
  imports Server
begin

section \<open>Sessions as fibers (\<open>src/rpc/rpc-session.h\<close> between its suspensions)\<close>

text \<open>
  \<open>session_round\<close> runs one round of a session to its end. In the program a session suspends inside
  a round: before it reads a header or a body, before it takes the lock of a partition, and
  before it writes its answer. Here a session is a fiber that stands at one of these points
  (\<open>activity\<close>), \<open>fiber_step\<close> is the code from there to the next one, and the fibers of all
  connections interleave step by step. Every step reports what it did as events.
\<close>

subsection \<open>Events and activities\<close>

datatype event =
    Created "byte list"
  | Pushed "byte list" "byte list"
  | Fetched "byte list" "byte list option"
  | Compared "byte list" "byte list" bool
  | Removed "byte list" "byte list" bool
  | Rejected broker_reply

text \<open>
  Where a session is suspended: at a read of a header or of a body, at the lock of the
  partition in \<open>push\<close>, \<open>read\<close>, the first and the second half of \<open>remove\<close>, at the write of an
  answer after which the loop goes on or is left, or it has returned.
\<close>

datatype 'k activity =
    Reading (sock: 'k)
  | Reading_body (sock: 'k) request_header_t
  | Pushing (sock: 'k) "byte list" request_t
  | Pulling (sock: 'k) "byte list" u16
  | Checking (sock: 'k) "byte list" request_t
  | Committing (sock: 'k) "byte list" request_t
  | Answering (sock: 'k) "byte list"
  | Refusing (sock: 'k) "byte list"
  | Finished (sock: 'k) bool

type_synonym 'k fiber_result = "fault + 'k activity \<times> world_t \<times> event list"

subsection \<open>From one suspension to the next\<close>

definition request_message :: "request_t \<Rightarrow> byte list" where
  "request_message r = (case view_read r (message_view r) of Inl f \<Rightarrow> [] | Inr m \<Rightarrow> m)"

definition reject :: "platform_t \<Rightarrow> 'k \<Rightarrow> byte \<Rightarrow> error_code_t \<Rightarrow> string \<Rightarrow> world_t \<Rightarrow> 'k fiber_result" where
  "reject pf k opcode code text W =
     Inr (Answering k (error_response pf opcode code text), W, [Rejected (reply opcode code text)])"

text \<open>\<open>handle_push\<close>, \<open>handle_pull\<close> and \<open>handle_delete\<close> up to the lock of the partition.\<close>

definition start_push :: "platform_t \<Rightarrow> request_header_t \<Rightarrow> byte list \<Rightarrow> byte list \<Rightarrow> 'k \<Rightarrow> world_t \<Rightarrow> 'k fiber_result" where
  "start_push pf hdr topic message k W =
     (if topic = [] then reject pf k (opcode_value PUSH) INVALID_TOPIC_NAME ''Empty topic name'' W
      else
        rbind (get_or_create_topic (pf_can_open pf) 1 topic W) (\<lambda>W1.
        rbind (create_request (request_buffer pf) topic (rh_partition_id hdr) message) (\<lambda>r.
          Inr (Pushing k topic r, W1, if get_topic topic W = None then [Created topic] else []))))"

definition start_pull :: "platform_t \<Rightarrow> request_header_t \<Rightarrow> byte list \<Rightarrow> 'k \<Rightarrow> world_t \<Rightarrow> 'k fiber_result" where
  "start_pull pf hdr topic k W =
     (if topic = [] then reject pf k (opcode_value PULL) INVALID_TOPIC_NAME ''Empty topic name'' W
      else if get_topic topic W = None then reject pf k (opcode_value PULL) TOPIC_NOT_FOUND ''Topic not found'' W
      else if rh_partition_id hdr = INVALID_TOPIC_ID then
        reject pf k (opcode_value PULL) INVALID_PARTITION_ID ''Partition ID required for PULL'' W
      else if rh_partition_id hdr \<ge> 3 then
        reject pf k (opcode_value PULL) PARTITION_NOT_FOUND ''Invalid partition ID'' W
      else Inr (Pulling k topic (rh_partition_id hdr), W, []))"

definition start_delete :: "platform_t \<Rightarrow> request_header_t \<Rightarrow> byte list \<Rightarrow> byte list \<Rightarrow> 'k \<Rightarrow> world_t \<Rightarrow> 'k fiber_result" where
  "start_delete pf hdr topic message k W =
     (if topic = [] then reject pf k (opcode_value DELETE) INVALID_TOPIC_NAME ''Empty topic name'' W
      else if get_topic topic W = None then reject pf k (opcode_value DELETE) TOPIC_NOT_FOUND ''Topic not found'' W
      else if rh_partition_id hdr = INVALID_TOPIC_ID then
        reject pf k (opcode_value DELETE) INVALID_PARTITION_ID ''Partition ID required for DELETE'' W
      else
        rbind (create_request (request_buffer pf) topic (rh_partition_id hdr) message) (\<lambda>r.
          Inr (Checking k topic r, W, [])))"

definition dispatch :: "platform_t \<Rightarrow> request_header_t \<Rightarrow> byte list \<Rightarrow> 'k \<Rightarrow> world_t \<Rightarrow> 'k fiber_result" where
  "dispatch pf hdr data k W =
     (let topic = take (unat (rh_topic_name_len hdr)) data;
          message = take (unat (rh_message_len hdr)) (drop (unat (rh_topic_name_len hdr)) data)
      in case opcode_of (rh_opcode hdr) of
           Some PUSH \<Rightarrow> start_push pf hdr topic message k W
         | Some PULL \<Rightarrow> start_pull pf hdr topic k W
         | Some DELETE \<Rightarrow> start_delete pf hdr topic message k W
         | _ \<Rightarrow> reject pf k (rh_opcode hdr) INTERNAL_ERROR ''Unknown opcode'' W)"

text \<open>The head of the loop in \<open>handle_requests\<close>, up to the read of the body.\<close>

definition read_header :: "'k socket_api \<Rightarrow> platform_t \<Rightarrow> 'k \<Rightarrow> world_t \<Rightarrow> 'k fiber_result" where
  "read_header api pf k W =
     (case so_read api sizeof_header k of
        (None, k1) \<Rightarrow> Inr (Finished k1 False, W, [])
      | (Some bs, k1) \<Rightarrow>
          if length bs = 0 then Inr (Finished k1 True, W, [])
          else
            let hdr = request_header_of bs;
                total_data_len = unat (rh_topic_name_len hdr) + unat (rh_message_len hdr)
            in
              if rh_magic hdr \<noteq> RPC_MAGIC then
                Inr (Refusing k1 (error_response pf (opcode_value PUSH) INTERNAL_ERROR ''Invalid magic number''), W,
                     [Rejected (reply (opcode_value PUSH) INTERNAL_ERROR ''Invalid magic number'')])
              else if total_data_len > session_buffer_size - sizeof_header then
                Inr (Refusing k1 (error_response pf (rh_opcode hdr) INTERNAL_ERROR ''Data too large''), W,
                     [Rejected (reply (rh_opcode hdr) INTERNAL_ERROR ''Data too large'')])
              else if total_data_len > 0 then Inr (Reading_body k1 hdr, W, [])
              else dispatch pf hdr [] k1 W)"

definition read_body :: "'k socket_api \<Rightarrow> platform_t \<Rightarrow> request_header_t \<Rightarrow> 'k \<Rightarrow> world_t \<Rightarrow> 'k fiber_result" where
  "read_body api pf hdr k W =
     (case so_read api (unat (rh_topic_name_len hdr) + unat (rh_message_len hdr)) k of
        (None, k1) \<Rightarrow> Inr (Finished k1 False, W, [])
      | (Some data, k1) \<Rightarrow> if length data = 0 then Inr (Finished k1 True, W, []) else dispatch pf hdr data k1 W)"

fun fiber_step :: "'k socket_api \<Rightarrow> platform_t \<Rightarrow> 'k activity \<Rightarrow> world_t \<Rightarrow> 'k fiber_result" where
  "fiber_step api pf (Reading k) W = read_header api pf k W"
| "fiber_step api pf (Reading_body k hdr) W = read_body api pf hdr k W"
| "fiber_step api pf (Pushing k topic r) W =
     rbind (on_topic topic (\<lambda>s. rbind (topic_push (pf_malloc pf) (request_hash (pf_hash_char pf))
              (pf_wall_pad pf) (pf_fiber pf) r s) (\<lambda>t. Inr (t, ()))) W) (\<lambda>(W1, _).
       Inr (Answering k (ok_response pf (opcode_value PUSH)), W1, [Pushed topic (request_message r)]))"
| "fiber_step api pf (Pulling k topic pid) W =
     rbind (on_topic topic (topic_read (pf_fiber pf) pid) W) (\<lambda>(W1, result).
       Inr (Answering k (case result of
              None \<Rightarrow> error_response pf (opcode_value PULL) EMPTY_PARTITION ''No messages in partition''
            | Some data \<Rightarrow> data_response pf (opcode_value PULL) data), W1, [Fetched topic result]))"
| "fiber_step api pf (Checking k topic r) W =
     rbind (on_topic topic (remove_check (pf_fiber pf) r) W) (\<lambda>(W1, found).
       Inr (if found then Committing k topic r else Answering k (ok_response pf (opcode_value DELETE)), W1,
            [Compared topic (request_message r) found]))"
| "fiber_step api pf (Committing k topic r) W =
     rbind (on_topic topic (remove_commit (pf_wall_pad pf) (pf_fiber pf) r) W) (\<lambda>(W1, removed).
       Inr (Answering k (ok_response pf (opcode_value DELETE)), W1, [Removed topic (request_message r) removed]))"
| "fiber_step api pf (Answering k bytes) W =
     (case so_write api bytes k of
        (True, k') \<Rightarrow> Inr (Reading k', W, [])
      | (False, k') \<Rightarrow> Inr (Finished k' False, W, []))"
| "fiber_step api pf (Refusing k bytes) W =
     (case so_write api bytes k of (sent, k') \<Rightarrow> Inr (Finished k' sent, W, []))"
| "fiber_step api pf (Finished k closed) W = Inr (Finished k closed, W, [])"

subsection \<open>A round is a run of steps\<close>

fun at_rest :: "'k activity \<Rightarrow> bool" where
  "at_rest (Reading k) = True"
| "at_rest (Finished k b) = True"
| "at_rest a = False"

text \<open>One session driven alone until it waits for the next request or has returned.\<close>

fun drive :: "'k socket_api \<Rightarrow> platform_t \<Rightarrow> nat \<Rightarrow> 'k activity \<Rightarrow> world_t \<Rightarrow> (fault + 'k activity \<times> world_t) option" where
  "drive api pf 0 a W = None"
| "drive api pf (Suc n) a W =
     (case fiber_step api pf a W of
        Inl f \<Rightarrow> Some (Inl f)
      | Inr (a', W', es) \<Rightarrow> if at_rest a' then Some (Inr (a', W')) else drive api pf n a' W')"

fun round_outcome :: "fault + 'k activity \<times> world_t \<Rightarrow> 'k round_result" where
  "round_outcome (Inl f) = Ended (Crashed f)"
| "round_outcome (Inr (Finished k True, W)) = Ended (Closed k W)"
| "round_outcome (Inr (Finished k False, W)) = Ended (Io_error k W)"
| "round_outcome (Inr (a, W)) = Next_request (sock a) W"

definition drive_on :: "'k socket_api \<Rightarrow> platform_t \<Rightarrow> nat \<Rightarrow> 'k fiber_result \<Rightarrow> (fault + 'k activity \<times> world_t) option" where
  "drive_on api pf n r =
     (case r of
        Inl f \<Rightarrow> Some (Inl f)
      | Inr (a', W', es) \<Rightarrow> if at_rest a' then Some (Inr (a', W')) else drive api pf n a' W')"

lemma drive_Suc: "drive api pf (Suc n) a W = drive_on api pf n (fiber_step api pf a W)"
  by (simp add: drive_on_def)

declare drive.simps(2) [simp del] map_option_eq_Some [iff del]

lemma drive_on_simps [simp]:
  "drive_on api pf n (Inl f) = Some (Inl f)"
  "drive_on api pf n (Inr (Finished k b, W, es)) = Some (Inr (Finished k b, W))"
  "drive_on api pf n (Inr (Reading k, W, es)) = Some (Inr (Reading k, W))"
  "drive_on api pf n (Inr (Reading_body k hdr, W, es)) = drive api pf n (Reading_body k hdr) W"
  "drive_on api pf n (Inr (Pushing k topic r, W, es)) = drive api pf n (Pushing k topic r) W"
  "drive_on api pf n (Inr (Pulling k topic i, W, es)) = drive api pf n (Pulling k topic i) W"
  "drive_on api pf n (Inr (Checking k topic r, W, es)) = drive api pf n (Checking k topic r) W"
  "drive_on api pf n (Inr (Committing k topic r, W, es)) = drive api pf n (Committing k topic r) W"
  "drive_on api pf n (Inr (Answering k bytes, W, es)) = drive api pf n (Answering k bytes) W"
  "drive_on api pf n (Inr (Refusing k bytes, W, es)) = drive api pf n (Refusing k bytes) W"
  by (simp_all add: drive_on_def)

text \<open>What remains of a round once the answer is known.\<close>

definition finish_round :: "'k socket_api \<Rightarrow> 'k \<Rightarrow> fault + world_t \<times> byte list \<Rightarrow> 'k round_result" where
  "finish_round api k r =
     (case r of
        Inl f \<Rightarrow> Ended (Crashed f)
      | Inr (W', bytes) \<Rightarrow>
          (case so_write api bytes k of
             (True, k') \<Rightarrow> Next_request k' W'
           | (False, k') \<Rightarrow> Ended (Io_error k' W')))"

lemma finish_round_simps [simp]:
  "finish_round api k (Inl f) = Ended (Crashed f)"
  by (simp add: finish_round_def)

lemma drive_answering:
  "map_option round_outcome (drive api pf (Suc n) (Answering k bytes) W) = Some (finish_round api k (Inr (W, bytes)))"
  by (simp add: drive_Suc finish_round_def split: prod.split bool.split)

lemma drive_refusing:
  "map_option round_outcome (drive api pf (Suc n) (Refusing k bytes) W) = Some (refuse api bytes k W)"
  by (simp add: drive_Suc refuse_def split: prod.split bool.split)

lemma drive_reject:
  "map_option round_outcome (drive_on api pf (Suc n) (reject pf k c e t W)) =
     Some (finish_round api k (Inr (W, error_response pf c e t)))"
  by (simp add: reject_def drive_answering)

lemma drive_push:
  "map_option round_outcome (drive_on api pf (Suc (Suc (Suc n))) (start_push pf hdr topic message k W)) =
     Some (finish_round api k (handle_push pf hdr topic message W))"
proof (cases "topic = []")
  case True
  then show ?thesis by (simp add: start_push_def handle_push_def drive_reject)
next
  case False
  show ?thesis
  proof (cases "get_or_create_topic (pf_can_open pf) 1 topic W")
    case (Inr W1)
    show ?thesis
    proof (cases "create_request (request_buffer pf) topic (rh_partition_id hdr) message")
      case r: (Inr r)
      let ?op = "on_topic topic (\<lambda>s. rbind (topic_push (pf_malloc pf) (request_hash (pf_hash_char pf))
              (pf_wall_pad pf) (pf_fiber pf) r s) (\<lambda>t. Inr (t, ()))) W1"
      show ?thesis using False Inr r
        by (cases ?op) (auto simp: start_push_def handle_push_def drive_Suc [where a = "Pushing _ _ _"] drive_answering)
    qed (use False Inr in \<open>simp add: start_push_def handle_push_def\<close>)
  qed (use False in \<open>simp add: start_push_def handle_push_def\<close>)
qed

lemma drive_pull:
  "map_option round_outcome (drive_on api pf (Suc (Suc (Suc n))) (start_pull pf hdr topic k W)) =
     Some (finish_round api k (handle_pull pf hdr topic W))"
proof -
  let ?op = "on_topic topic (topic_read (pf_fiber pf) (rh_partition_id hdr)) W"
  show ?thesis
    by (cases ?op) (auto simp: start_pull_def handle_pull_def drive_reject drive_Suc [where a = "Pulling _ _ _"] drive_answering)
qed

lemma set_topic_twice [simp]: "set_topic n t (set_topic n s W) = set_topic n t W"
  by (simp add: set_topic_def)

lemma drive_delete:
  "map_option round_outcome (drive_on api pf (Suc (Suc (Suc n))) (start_delete pf hdr topic message k W)) =
     Some (finish_round api k (handle_delete pf hdr topic message W))"
proof (cases "topic = [] \<or> get_topic topic W = None \<or> rh_partition_id hdr = INVALID_TOPIC_ID")
  case True
  then show ?thesis by (auto simp: start_delete_def handle_delete_def drive_reject)
next
  case False
  then obtain T where T: "registry_find topic W = Some T" by (auto simp: get_topic_def)
  show ?thesis
  proof (cases "create_request (request_buffer pf) topic (rh_partition_id hdr) message")
    case (Inl f)
    with False T show ?thesis by (simp add: start_delete_def handle_delete_def get_topic_def)
  next
    case (Inr r)
    let ?f = "pf_fiber pf" and ?pad = "pf_wall_pad pf"
    have start: "start_delete pf hdr topic message k W = Inr (Checking k topic r, W, [])"
      using False Inr T by (simp add: start_delete_def get_topic_def)
    have run: "handle_delete pf hdr topic message W =
        rbind (topic_remove ?pad ?f r (wo_env W, T)) (\<lambda>(t, b). Inr (set_topic topic t W, ok_response pf (opcode_value DELETE)))"
      using False Inr T by (cases "topic_remove ?pad ?f r (wo_env W, T)") (auto simp: handle_delete_def get_topic_def on_topic_def split: prod.split)
    show ?thesis
    proof (cases "remove_check ?f r (wo_env W, T)")
      case (Inl f)
      then show ?thesis using T by (simp add: start run drive_Suc [where a = "Checking _ _ _"] on_topic_def topic_remove_def)
    next
      case (Inr q)
      obtain t found where q: "q = (t, found)" by (cases q)
      show ?thesis
        using T Inr q
        by (cases found; cases "remove_commit ?pad ?f r t")
          (auto simp: start run drive_Suc [where a = "Checking _ _ _"] drive_Suc [where a = "Committing _ _ _"]
            on_topic_def topic_remove_def drive_answering split: prod.split)
    qed
  qed
qed

lemma drive_dispatch:
  "map_option round_outcome (drive_on api pf (Suc (Suc (Suc n))) (dispatch pf hdr data k W)) =
     Some (answer_request api pf hdr data k W)"
proof -
  have "answer_request api pf hdr data k W =
      finish_round api k (handle_request pf hdr (take (unat (rh_topic_name_len hdr)) data)
        (take (unat (rh_message_len hdr)) (drop (unat (rh_topic_name_len hdr)) data)) W)"
    by (simp add: answer_request_def finish_round_def Let_def)
  then show ?thesis
    by (simp add: dispatch_def Let_def handle_request_def drive_push drive_pull drive_delete drive_reject
        split: option.split opcode_t.split)
qed

lemma drive_body:
  "map_option round_outcome (drive api pf (Suc (Suc (Suc (Suc n)))) (Reading_body k hdr) W) =
     Some (case so_read api (unat (rh_topic_name_len hdr) + unat (rh_message_len hdr)) k of
         (None, k2) \<Rightarrow> Ended (Io_error k2 W)
       | (Some data, k2) \<Rightarrow>
           if length data = 0 then Ended (Closed k2 W) else answer_request api pf hdr data k2 W)"
  by (auto simp: drive_Suc [where a = "Reading_body _ _"] read_body_def drive_dispatch
      split: prod.split option.split)

text \<open>
  The rounds of a session are the undisturbed runs of its fiber: driving it from the head of its
  loop through at most five suspensions gives the result of \<open>session_round\<close>.
\<close>

lemma round_fiber_steps:
  "map_option round_outcome (drive api pf 5 (Reading k) W) = Some (session_round api pf k W)"
proof -
  have five: "(5 :: nat) = Suc (Suc (Suc (Suc (Suc 0))))" by simp
  show ?thesis
    unfolding five drive_Suc [where a = "Reading k"] fiber_step.simps read_header_def session_round_def Let_def
    by (auto simp: drive_body drive_refusing drive_dispatch split: prod.split option.split)
qed

lemma drive_at_rest: "drive api pf n a W = Some (Inr (a', W')) \<Longrightarrow> at_rest a'"
  by (induction n arbitrary: a W) (auto simp: drive_Suc drive_on_def split: sum.splits if_splits)

end
