(* ===== verification/Histories.thy ===== *)
theory Histories
  imports Fibers
begin

section \<open>What interleaved sessions do: histories\<close>

text \<open>
  The events of the fibers, in the order in which their steps happen, are a sequential
  history of an abstract broker whose operations are the critical sections. \<open>effect\<close> is that
  broker, \<open>run_history\<close> its runs, \<open>answers\<close> the reply that an event obliges its session to
  give. In this file every step of a fiber is shown to be its events.
\<close>

subsection \<open>The abstract broker of critical sections\<close>

fun effect :: "broker \<Rightarrow> event \<Rightarrow> broker option" where
  "effect B (Created n) = (if B n = None then Some (B(n \<mapsto> [])) else None)"
| "effect B (Pushed n m) = (case B n of None \<Rightarrow> None | Some q \<Rightarrow> Some (B(n \<mapsto> q @ [m])))"
| "effect B (Fetched n x) =
     (case B n of None \<Rightarrow> None
      | Some q \<Rightarrow> if x = (case q of [] \<Rightarrow> None | m # ms \<Rightarrow> Some m) then Some B else None)"
| "effect B (Compared n m b) =
     (case B n of Some (m' # ms) \<Rightarrow> if b = (m' = m) then Some B else None | _ \<Rightarrow> None)"
| "effect B (Removed n m b) =
     (case B n of
        Some (m' # ms) \<Rightarrow> if b = (m' = m) then Some (if b then B(n \<mapsto> ms) else B) else None
      | _ \<Rightarrow> None)"
| "effect B (Rejected rep) = Some B"

fun run_history :: "broker \<Rightarrow> event list \<Rightarrow> broker option" where
  "run_history B [] = Some B"
| "run_history B (e # es) = (case effect B e of None \<Rightarrow> None | Some B' \<Rightarrow> run_history B' es)"

fun answers :: "event \<Rightarrow> broker_reply list" where
  "answers (Created n) = []"
| "answers (Pushed n m) = [ack (opcode_value PUSH) []]"
| "answers (Fetched n x) =
     [case x of None \<Rightarrow> reply (opcode_value PULL) EMPTY_PARTITION ''No messages in partition''
      | Some m \<Rightarrow> ack (opcode_value PULL) m]"
| "answers (Compared n m b) = (if b then [] else [ack (opcode_value DELETE) []])"
| "answers (Removed n m b) = [ack (opcode_value DELETE) []]"
| "answers (Rejected rep) = [rep]"

lemma run_history_append:
  "run_history B (es @ fs) = (case run_history B es of None \<Rightarrow> None | Some B' \<Rightarrow> run_history B' fs)"
  by (induction es arbitrary: B) (auto split: option.split)

lemma run_history_single [simp]: "run_history B [e] = effect B e"
  by (simp split: option.split)

text \<open>What a history pushes to a topic, and what it removes from it.\<close>

fun pushed_by :: "byte list \<Rightarrow> event \<Rightarrow> byte list list" where
  "pushed_by n (Pushed n' m) = (if n' = n then [m] else [])"
| "pushed_by n e = []"

fun removed_by :: "byte list \<Rightarrow> event \<Rightarrow> byte list list" where
  "removed_by n (Removed n' m b) = (if n' = n \<and> b then [m] else [])"
| "removed_by n e = []"

definition pushes :: "byte list \<Rightarrow> event list \<Rightarrow> byte list list" where
  "pushes n es = concat (map (pushed_by n) es)"

definition removals :: "byte list \<Rightarrow> event list \<Rightarrow> byte list list" where
  "removals n es = concat (map (removed_by n) es)"

lemma history_simps [simp]:
  "pushes n [] = []" "pushes n (es @ fs) = pushes n es @ pushes n fs" "pushes n (e # es) = pushed_by n e @ pushes n es"
  "removals n [] = []" "removals n (es @ fs) = removals n es @ removals n fs"
  "removals n (e # es) = removed_by n e @ removals n es"
  by (simp_all add: pushes_def removals_def)

text \<open>One event keeps the balance of a topic: what was in it and what is pushed is what is removed and left.\<close>

lemma effect_balance:
  "effect B e = Some B' \<Longrightarrow>
     messages_of B n @ pushed_by n e = removed_by n e @ messages_of B' n"
  by (cases e) (auto simp: messages_of_def split: option.splits if_splits list.splits)

lemma run_history_balance:
  "run_history B es = Some B' \<Longrightarrow> messages_of B n @ pushes n es = removals n es @ messages_of B' n"
proof (induction es arbitrary: B)
  case Nil
  then show ?case by simp
next
  case (Cons e es)
  then obtain B1 where B1: "effect B e = Some B1" "run_history B1 es = Some B'" by (auto split: option.splits)
  have "messages_of B n @ pushes n (e # es) = removed_by n e @ messages_of B1 n @ pushes n es"
    using effect_balance [OF B1(1), of n] by simp
  then show ?case using Cons.IH [OF B1(2)] by simp
qed

subsection \<open>Operations on a registered topic\<close>

lemma request_message_view [simp]: "view_read r (message_view r) = Inr m \<Longrightarrow> request_message r = m"
  by (simp add: request_message_def)

lemma on_topic_Inr:
  assumes "on_topic name f W = Inr (W', x)"
  obtains T t where "registry_find name W = Some T" and "f (wo_env W, T) = Inr (t, x)" and "W' = set_topic name t W"
  using assms by (auto simp: on_topic_def result_simps split: option.splits)

lemma push_section:
  assumes wf: "world_wf W" and snd: "malloc_sound malloc"
    and run: "on_topic n (\<lambda>s. rbind (topic_push malloc hash pad f r s) (\<lambda>t. Inr (t, ()))) W = Inr (W', u)"
  shows "world_wf W' \<and> effect (world_abs W) (Pushed n (request_message r)) = Some (world_abs W')"
proof -
  from run obtain T t where T: "registry_find n W = Some T" and push: "topic_push malloc hash pad f r (wo_env W, T) = Inr t"
    and W': "W' = set_topic n t W"
    by (auto elim!: on_topic_Inr simp: result_simps)
  note w = world_wfD [OF wf T]
  obtain i m where a: "push_index hash r T = Inr i" "unat i < length (tp_storage T)"
    "view_read r (message_view r) = Inr m" "malloc (en_heap (wo_env W)) (8 + length m) \<noteq> 0"
    by (rule topic_push_Inr [OF push])
  obtain t' where t': "topic_push malloc hash pad f r (wo_env W, T) = Inr t'" "topic_wf t'"
    "topic_abs t' = spec_push (unat i) m (topic_abs (wo_env W, T))" "topic_frame (wo_env W, T) t'"
    by (rule topic_push_ok [OF wf [THEN world_wfD(1), OF T] a(1-3) snd a(4)])
  have t: "t' = t" using push t'(1) by simp
  have "i = 0" using a(2) w(3) by (simp add: unat_eq_0)
  then have "topic_abs t ! 0 = topic_abs (wo_env W, T) ! 0 @ [m]"
    using t'(3) w(4) by (simp add: t spec_push_def)
  then show ?thesis
    using world_topic_update [OF wf T t'(2,4)] w(5) a(3) by (simp add: t W')
qed

lemma pull_section:
  assumes wf: "world_wf W" and run: "on_topic n (topic_read f i) W = Inr (W', x)"
  shows "W' = W \<and> effect (world_abs W) (Fetched n x) = Some (world_abs W)"
proof -
  obtain T t where T: "registry_find n W = Some T" and rd: "topic_read f i (wo_env W, T) = Inr (t, x)"
    and W': "W' = set_topic n t W"
    by (rule on_topic_Inr [OF run])
  note w = world_wfD [OF wf T]
  have "unat i < length (tp_storage T)"
    using rd by (auto simp: topic_read_def result_simps storage_at_def split: if_splits)
  moreover from this have "i = 0" using w(3) by (simp add: unat_eq_0)
  ultimately show ?thesis
    using topic_read_ok [OF w(1), of i f] rd w(5) by (auto simp: W' set_topic_same [OF T])
qed

lemma check_section:
  assumes wf: "world_wf W" and run: "on_topic n (remove_check f r) W = Inr (W', b)"
  shows "W' = W \<and> effect (world_abs W) (Compared n (request_message r) b) = Some (world_abs W)"
proof -
  obtain T t where T: "registry_find n W = Some T" and chk: "remove_check f r (wo_env W, T) = Inr (t, b)"
    and W': "W' = set_topic n t W"
    by (rule on_topic_Inr [OF run])
  note w = world_wfD [OF wf T]
  from chk obtain m where i: "unat (partition_id r) < length (tp_storage T)" and m: "view_read r (message_view r) = Inr m"
    by (auto simp: remove_check_def result_simps storage_at_def Let_def split: if_splits)
  have "partition_id r = 0" using i w(3) by (simp add: unat_eq_0)
  then show ?thesis
    using remove_check_ok [OF w(1) i m, of f] chk w(5) m
    by (auto simp: W' set_topic_same [OF T] split: list.splits)
qed

lemma commit_section:
  assumes wf: "world_wf W" and run: "on_topic n (remove_commit pad f r) W = Inr (W', b)"
  shows "world_wf W' \<and> effect (world_abs W) (Removed n (request_message r) b) = Some (world_abs W')"
proof -
  obtain T t where T: "registry_find n W = Some T" and com: "remove_commit pad f r (wo_env W, T) = Inr (t, b)"
    and W': "W' = set_topic n t W"
    by (rule on_topic_Inr [OF run])
  note w = world_wfD [OF wf T]
  obtain m ms msg where a: "unat (partition_id r) < length (tp_storage T)" "view_read r (message_view r) = Inr msg"
    "topic_abs (wo_env W, T) ! unat (partition_id r) = m # ms" "b \<longleftrightarrow> m = msg"
    by (rule remove_commit_Inr [OF w(1) com])
  have pid: "partition_id r = 0" using a(1) w(3) by (simp add: unat_eq_0)
  show ?thesis
  proof (cases "m = msg")
    case False
    then have "t = (wo_env W, T)" using remove_commit_other [OF w(1) a(1-3) False, of pad f] com by simp
    then show ?thesis using wf w(5) a pid False by (simp add: W' set_topic_same [OF T])
  next
    case True
    with a(3) have front: "topic_abs (wo_env W, T) ! unat (partition_id r) = msg # ms" by simp
    obtain t' where t': "remove_commit pad f r (wo_env W, T) = Inr (t', True)" "topic_wf t'"
      "topic_abs t' = spec_pop (unat (partition_id r)) (topic_abs (wo_env W, T))" "topic_frame (wo_env W, T) t'"
      by (rule remove_commit_match [OF w(1) a(1,2) front])
    have t: "t' = t" using com t'(1) by simp
    have "topic_abs t ! 0 = ms" using t'(3) w(4) front pid by (simp add: t spec_pop_def)
    then show ?thesis
      using world_topic_update [OF wf T t'(2,4)] w(5) a True pid by (simp add: t W')
  qed
qed

subsection \<open>Every step of a fiber is its events\<close>

fun waiting_bytes :: "'k activity \<Rightarrow> byte list" where
  "waiting_bytes (Answering k bytes) = bytes"
| "waiting_bytes (Refusing k bytes) = bytes"
| "waiting_bytes a = []"

text \<open>What a session has written, and what it has ready to be written.\<close>

definition spoken :: "('k \<Rightarrow> byte list) \<Rightarrow> 'k activity \<Rightarrow> byte list" where
  "spoken out a = out (sock a) @ waiting_bytes a"

definition answer_bytes :: "platform_t \<Rightarrow> event list \<Rightarrow> byte list" where
  "answer_bytes pf es = concat (map (reply_image pf) (concat (map answers es)))"

lemma answer_bytes_simps [simp]:
  "answer_bytes pf [] = []" "answer_bytes pf (es @ fs) = answer_bytes pf es @ answer_bytes pf fs"
  "answer_bytes pf [e] = concat (map (reply_image pf) (answers e))"
  by (simp_all add: answer_bytes_def)

text \<open>
  A step from \<open>a\<close> is sound if the world stays well formed and changes as the events say, and
  the session gets ready to answer what they oblige it to.
\<close>

definition sound_step :: "platform_t \<Rightarrow> ('k \<Rightarrow> byte list) \<Rightarrow> byte list \<Rightarrow> world_t \<Rightarrow> 'k activity \<times> world_t \<times> event list \<Rightarrow> bool" where
  "sound_step pf out before W res \<longleftrightarrow> (case res of (a', W', es) \<Rightarrow>
     world_wf W' \<and> run_history (world_abs W) es = Some (world_abs W')
     \<and> spoken out a' = before @ answer_bytes pf es)"

lemma sound_reject:
  "world_wf W \<Longrightarrow> reject pf k c e t W = Inr res \<Longrightarrow> sound_step pf out (out k) W res"
  by (auto simp: reject_def sound_step_def spoken_def)

lemma start_push_sound:
  assumes wf: "world_wf W" and run: "start_push pf hdr topic message k W = Inr res"
  shows "sound_step pf out (out k) W res"
proof (cases "topic = []")
  case True
  with run wf show ?thesis by (simp add: start_push_def sound_reject)
next
  case False
  with run obtain W1 r where W1: "get_or_create_topic (pf_can_open pf) 1 topic W = Inr W1"
    and res: "res = (Pushing k topic r, W1, if get_topic topic W = None then [Created topic] else [])"
    by (auto simp: start_push_def result_simps)
  have can: "registry_find topic W = None \<Longrightarrow> pf_can_open pf (lit ''/tmp/'' @ topic)"
    using W1 get_or_create_refused [of topic W "pf_can_open pf" 1] by auto
  obtain W2 where W2: "get_or_create_topic (pf_can_open pf) 1 topic W = Inr W2" "world_wf W2"
    "world_abs W2 = (case world_abs W topic of None \<Rightarrow> (world_abs W)(topic \<mapsto> []) | Some q \<Rightarrow> world_abs W)"
    by (rule get_or_create_ok [OF wf, of topic "pf_can_open pf", OF can])
  then have W: "world_wf W1" "world_abs W1 = (case world_abs W topic of None \<Rightarrow> (world_abs W)(topic \<mapsto> []) | Some q \<Rightarrow> world_abs W)"
    using W1 by simp_all
  show ?thesis
  proof (cases "registry_find topic W")
    case None
    then have "world_abs W topic = None" by simp
    with None W show ?thesis
      by (simp add: res sound_step_def spoken_def get_topic_def answer_bytes_def del: world_abs_None)
  next
    case (Some T)
    then have "world_abs W topic \<noteq> None" by simp
    with Some W show ?thesis
      by (auto simp add: res sound_step_def spoken_def get_topic_def simp del: world_abs_None)
  qed
qed

lemma start_pull_sound:
  assumes "world_wf W" and "start_pull pf hdr topic k W = Inr res"
  shows "sound_step pf out (out k) W res"
  using assms
  by (auto simp: start_pull_def sound_step_def spoken_def split: if_splits dest!: sound_reject [where out = out, rotated])

lemma start_delete_sound:
  assumes "world_wf W" and "start_delete pf hdr topic message k W = Inr res"
  shows "sound_step pf out (out k) W res"
  using assms
  by (auto simp: start_delete_def sound_step_def spoken_def result_simps split: if_splits
      dest!: sound_reject [where out = out, rotated])

lemma dispatch_sound:
  assumes "world_wf W" and "dispatch pf hdr data k W = Inr res"
  shows "sound_step pf out (out k) W res"
  using assms
  by (auto simp: dispatch_def Let_def intro: start_push_sound start_pull_sound start_delete_sound sound_reject
      split: option.splits opcode_t.splits)

lemma socket_read_out:
  "socket_ok api inp out \<Longrightarrow> so_read api n k = (x, k') \<Longrightarrow> out k' = out k"
  unfolding socket_ok_def by (metis prod.inject)

lemma read_header_sound:
  assumes sok: "socket_ok api inp out" and wf: "world_wf W" and run: "read_header api pf k W = Inr res"
  shows "sound_step pf out (out k) W res"
proof -
  obtain x k1 where rd: "so_read api sizeof_header k = (x, k1)" by (cases "so_read api sizeof_header k")
  note out = socket_read_out [OF sok rd]
  have quiet: "sound_step pf out (out k) W (Finished k1 b, W, [])" "sound_step pf out (out k) W (Reading_body k1 hdr, W, [])" for b hdr
    using wf out by (simp_all add: sound_step_def spoken_def)
  have refused: "sound_step pf out (out k) W (Refusing k1 (error_response pf c e t), W, [Rejected (reply c e t)])" for c e t
    using wf out by (simp add: sound_step_def spoken_def)
  have disp: "dispatch pf hdr data k1 W = Inr res \<Longrightarrow> sound_step pf out (out k) W res" for hdr data
    using dispatch_sound [OF wf, of pf hdr data k1 res out] out by simp
  show ?thesis
    using run quiet refused by (auto simp: read_header_def rd Let_def intro: disp split: option.splits if_splits)
qed

lemma read_body_sound:
  assumes sok: "socket_ok api inp out" and wf: "world_wf W" and run: "read_body api pf hdr k W = Inr res"
  shows "sound_step pf out (out k) W res"
proof -
  let ?n = "unat (rh_topic_name_len hdr) + unat (rh_message_len hdr)"
  obtain x k1 where rd: "so_read api ?n k = (x, k1)" by (cases "so_read api ?n k")
  note out = socket_read_out [OF sok rd]
  have quiet: "sound_step pf out (out k) W (Finished k1 b, W, [])" for b
    using wf out by (simp add: sound_step_def spoken_def)
  have disp: "dispatch pf hdr data k1 W = Inr res \<Longrightarrow> sound_step pf out (out k) W res" for data
    using dispatch_sound [OF wf, of pf hdr data k1 res out] out by simp
  show ?thesis
    using run quiet by (auto simp: read_body_def rd intro: disp split: option.splits if_splits)
qed

lemma socket_write_out:
  "socket_ok api inp out \<Longrightarrow> so_write api bytes k = (b, k') \<Longrightarrow> b \<and> out k' = out k @ bytes"
  unfolding socket_ok_def by (metis prod.inject)

lemma fiber_step_sound:
  assumes sok: "socket_ok api inp out" and wf: "world_wf W" and snd: "malloc_sound (pf_malloc pf)"
    and run: "fiber_step api pf a W = Inr res"
  shows "sound_step pf out (spoken out a) W res"
proof (cases a)
  case (Reading k)
  with run show ?thesis using read_header_sound [OF sok wf, of pf k res] by (simp add: spoken_def)
next
  case (Reading_body k hdr)
  with run show ?thesis using read_body_sound [OF sok wf, of pf hdr k res] by (simp add: spoken_def)
next
  case (Pushing k topic r)
  with run show ?thesis
    by (auto simp: result_simps sound_step_def spoken_def simp del: effect.simps opcode_value.simps dest!: push_section [OF wf snd])
next
  case (Pulling k topic pid)
  with run wf show ?thesis
    by (auto simp: result_simps sound_step_def spoken_def simp del: effect.simps opcode_value.simps
        dest!: pull_section [OF wf] split: option.splits)
next
  case (Checking k topic r)
  with run wf show ?thesis
    by (auto simp: result_simps sound_step_def spoken_def simp del: effect.simps opcode_value.simps
        dest!: check_section [OF wf] split: if_splits)
next
  case (Committing k topic r)
  with run show ?thesis
    by (auto simp: result_simps sound_step_def spoken_def simp del: effect.simps opcode_value.simps dest!: commit_section [OF wf])
next
  case (Answering k bytes)
  with run wf show ?thesis
    using socket_write_out [OF sok, of bytes k] by (auto simp: sound_step_def spoken_def split: prod.splits bool.splits)
next
  case (Refusing k bytes)
  with run wf show ?thesis
    using socket_write_out [OF sok, of bytes k] by (auto simp: sound_step_def spoken_def split: prod.splits)
next
  case (Finished k b)
  with run wf show ?thesis by (auto simp: sound_step_def spoken_def)
qed

end
