(* ===== verification/Interleaving.thy ===== *)
theory Interleaving
  imports Histories
begin

section \<open>The server with all sessions as interleaved fibers\<close>

text \<open>
  The state is that of \<open>Server\<close>, with an activity for each session, beside the history of
  events, each with the number of its session. New connections have an empty output, which
  \<open>fresh\<close> says. A critical section of a partition is one step here, suspensions at
  \<open>wall_mutex_\<close> inside it included; for which runs this is exact is shown in \<open>LockedServerProps\<close>.
\<close>

subsection \<open>The steps\<close>

type_synonym 'k run_state = "'k activity server_t \<times> (nat \<times> event) list"

definition fiber_turn :: "'k socket_api \<Rightarrow> platform_t \<Rightarrow> nat \<Rightarrow> 'k run_state \<Rightarrow> fault + 'k run_state" where
  "fiber_turn api pf i s = (case s of (S, h) \<Rightarrow>
     (case sv_sessions S ! i of
        None \<Rightarrow> Inr (S, h)
      | Some a \<Rightarrow>
          rbind (fiber_step api pf a (sv_world S)) (\<lambda>(a', W', es).
            Inr (S\<lparr>sv_sessions := (sv_sessions S)[i := Some a'], sv_world := W'\<rparr>, h @ map (Pair i) es))))"

inductive interleaved_step :: "'k socket_api \<Rightarrow> platform_t \<Rightarrow> ('k \<Rightarrow> bool) \<Rightarrow> 'k run_state \<Rightarrow> 'k run_state \<Rightarrow> bool"
  for api pf fresh where
  fiber_accepted: "sv_accepting S \<Longrightarrow> sv_open S \<Longrightarrow> \<forall>k\<in>set_accept_result r. fresh k \<Longrightarrow>
     interleaved_step api pf fresh (S, h) (accept_turn (map_accept_result Reading r) S, h)"
| fiber_aborted: "sv_accepting S \<Longrightarrow> \<not> sv_open S \<Longrightarrow>
     interleaved_step api pf fresh (S, h) (accept_turn Accept_aborted S, h)"
| fiber_served: "i < length (sv_sessions S) \<Longrightarrow> fiber_turn api pf i (S, h) = Inr t \<Longrightarrow>
     interleaved_step api pf fresh (S, h) t"
| fiber_stopped: "interleaved_step api pf fresh (S, h) (server_stop S, h)"

inductive_cases interleaved_stepE: "interleaved_step api pf fresh (S, h) t"

definition interleaved_init :: "'k socket_api \<Rightarrow> ('k \<Rightarrow> byte list) \<Rightarrow> ('k \<Rightarrow> byte list) \<Rightarrow> platform_t \<Rightarrow> ('k \<Rightarrow> bool)
    \<Rightarrow> 'k run_state \<Rightarrow> bool" where
  "interleaved_init api inp out pf fresh s \<longleftrightarrow>
     malloc_sound (pf_malloc pf) \<and> socket_ok api inp out \<and> (\<forall>k. fresh k \<longrightarrow> out k = [])
     \<and> (\<exists>files. s = (server_start (server_ctor files), []))"

subsection \<open>The invariant\<close>

definition events_of :: "nat \<Rightarrow> (nat \<times> event) list \<Rightarrow> event list" where
  "events_of i h = map snd (filter (\<lambda>p. fst p = i) h)"

lemma events_of_simps [simp]:
  "events_of i [] = []" "events_of i (h @ h') = events_of i h @ events_of i h'"
  "events_of i (map (Pair j) es) = (if i = j then es else [])"
proof -
  show "events_of i (map (Pair j) es) = (if i = j then es else [])"
    by (induction es) (auto simp: events_of_def)
qed (simp_all add: events_of_def)

definition interleaved_inv :: "'k socket_api \<Rightarrow> ('k \<Rightarrow> byte list) \<Rightarrow> ('k \<Rightarrow> byte list) \<Rightarrow> platform_t \<Rightarrow> ('k \<Rightarrow> bool)
    \<Rightarrow> 'k run_state \<Rightarrow> bool" where
  "interleaved_inv api inp out pf fresh s \<longleftrightarrow> (case s of (S, h) \<Rightarrow>
     malloc_sound (pf_malloc pf) \<and> socket_ok api inp out \<and> (\<forall>k. fresh k \<longrightarrow> out k = [])
     \<and> world_wf (sv_world S) \<and> run_history Map.empty (map snd h) = Some (world_abs (sv_world S))
     \<and> (\<forall>(i, e)\<in>set h. i < length (sv_sessions S))
     \<and> (\<forall>i a. i < length (sv_sessions S) \<longrightarrow> sv_sessions S ! i = Some a \<longrightarrow>
          spoken out a = answer_bytes pf (events_of i h)))"

lemma interleaved_inv_init:
  "interleaved_init api inp out pf fresh s \<Longrightarrow> interleaved_inv api inp out pf fresh s"
  by (auto simp: interleaved_init_def interleaved_inv_def server_start_def server_ctor_def server_world_new)

lemma events_of_new:
  "\<forall>(i, e)\<in>set h. i < n \<Longrightarrow> events_of n h = []"
  by (auto simp: events_of_def filter_empty_conv)

lemma interleaved_inv_accept:
  assumes "interleaved_inv api inp out pf fresh (S, h)" and "\<forall>k\<in>set_accept_result r. fresh k"
  shows "interleaved_inv api inp out pf fresh (accept_turn (map_accept_result Reading r) S, h)"
proof (cases r)
  case (Connected k)
  with assms have new: "spoken out (Reading k) = answer_bytes pf (events_of (length (sv_sessions S)) h)"
    using events_of_new [of h "length (sv_sessions S)"] by (auto simp: interleaved_inv_def spoken_def)
  with assms Connected show ?thesis
    by (fastforce simp: interleaved_inv_def nth_append less_Suc_eq split: if_splits)
qed (use assms in \<open>simp_all add: interleaved_inv_def\<close>)

lemma interleaved_inv_turn:
  assumes inv: "interleaved_inv api inp out pf fresh (S, h)" and i: "i < length (sv_sessions S)"
    and run: "fiber_turn api pf i (S, h) = Inr t"
  shows "interleaved_inv api inp out pf fresh t"
proof (cases "sv_sessions S ! i")
  case None
  with run inv show ?thesis by (simp add: fiber_turn_def)
next
  case (Some a)
  with run obtain a' W' es where st: "fiber_step api pf a (sv_world S) = Inr (a', W', es)"
    and t: "t = (S\<lparr>sv_sessions := (sv_sessions S)[i := Some a'], sv_world := W'\<rparr>, h @ map (Pair i) es)"
    by (auto simp: fiber_turn_def result_simps)
  from inv have sok: "socket_ok api inp out" and wf: "world_wf (sv_world S)" and snd: "malloc_sound (pf_malloc pf)"
    and before: "spoken out a = answer_bytes pf (events_of i h)"
    using i Some by (auto simp: interleaved_inv_def)
  note sound = fiber_step_sound [OF sok wf snd st, unfolded sound_step_def, simplified]
  have past: "\<forall>(j, e)\<in>set (h @ map (Pair i) es). j < length (sv_sessions S)"
    using inv i by (auto simp: interleaved_inv_def)
  have spoken: "spoken out b = answer_bytes pf (events_of j (h @ map (Pair i) es))"
    if "j < length (sv_sessions S)" "(sv_sessions S)[i := Some a'] ! j = Some b" for j b
  proof (cases "j = i")
    case True
    with that i sound before show ?thesis by simp
  next
    case False
    with that inv show ?thesis by (simp add: interleaved_inv_def)
  qed
  have hist: "run_history Map.empty (map snd (h @ map (Pair i) es)) = Some (world_abs W')"
    using inv sound by (simp add: interleaved_inv_def run_history_append comp_def)
  show ?thesis
    using inv sound past spoken hist by (auto simp: t interleaved_inv_def)
qed

lemma interleaved_inv_step:
  assumes "interleaved_inv api inp out pf fresh s" and "interleaved_step api pf fresh s t"
  shows "interleaved_inv api inp out pf fresh t"
  using assms(2,1)
proof (cases rule: interleaved_step.cases)
  case (fiber_accepted S r h)
  then show ?thesis using interleaved_inv_accept assms(1) by blast
next
  case (fiber_aborted S h)
  with assms(1) show ?thesis by (simp add: interleaved_inv_def)
next
  case (fiber_served i S h)
  then show ?thesis using interleaved_inv_turn assms(1) by blast
next
  case (fiber_stopped S h)
  with assms(1) show ?thesis by (simp add: interleaved_inv_def server_stop_def)
qed

interpretation il: invariant_system "interleaved_init api inp out pf fresh" "interleaved_step api pf fresh"
    "interleaved_inv api inp out pf fresh" for api inp out pf fresh
  by unfold_locales (erule interleaved_inv_init, erule (1) interleaved_inv_step)

subsection \<open>Whole rounds are among the interleavings\<close>

lemma drive_runs:
  "drive api pf n a W = Some (Inr (a', W')) \<Longrightarrow> sv_sessions S ! i = Some a \<Longrightarrow> i < length (sv_sessions S) \<Longrightarrow>
     sv_world S = W \<Longrightarrow>
     \<exists>h'. (interleaved_step api pf fresh)\<^sup>*\<^sup>* (S, h) (S\<lparr>sv_sessions := (sv_sessions S)[i := Some a'], sv_world := W'\<rparr>, h')"
proof (induction n arbitrary: a W S h)
  case 0
  then show ?case by simp
next
  case (Suc n)
  then obtain b W1 es where b: "fiber_step api pf a (sv_world S) = Inr (b, W1, es)"
    and rest: "at_rest b \<and> b = a' \<and> W1 = W' \<or> drive api pf n b W1 = Some (Inr (a', W'))"
    by (auto simp: drive_Suc drive_on_def split: sum.splits if_splits)
  let ?S1 = "S\<lparr>sv_sessions := (sv_sessions S)[i := Some b], sv_world := W1\<rparr>"
  have "fiber_turn api pf i (S, h) = Inr (?S1, h @ map (Pair i) es)"
    using b Suc.prems(2) by (simp add: fiber_turn_def)
  with Suc.prems(3) have step: "interleaved_step api pf fresh (S, h) (?S1, h @ map (Pair i) es)"
    by (rule fiber_served)
  show ?case
  proof (cases "at_rest b \<and> b = a' \<and> W1 = W'")
    case True
    with step show ?thesis by blast
  next
    case False
    with rest have "drive api pf n b W1 = Some (Inr (a', W'))" by blast
    from Suc.IH [OF this, of ?S1 "h @ map (Pair i) es"] Suc.prems(3)
    obtain h' where "(interleaved_step api pf fresh)\<^sup>*\<^sup>* (?S1, h @ map (Pair i) es)
        (?S1\<lparr>sv_sessions := (sv_sessions ?S1)[i := Some a'], sv_world := W'\<rparr>, h')" by auto
    with step show ?thesis by (auto intro: converse_rtranclp_into_rtranclp)
  qed
qed

lemma round_runs:
  assumes "sv_sessions S ! i = Some (Reading k)" and "i < length (sv_sessions S)"
  shows "session_round api pf k (sv_world S) = Next_request k' W' \<Longrightarrow>
      \<exists>h'. (interleaved_step api pf fresh)\<^sup>*\<^sup>* (S, h) (S\<lparr>sv_sessions := (sv_sessions S)[i := Some (Reading k')], sv_world := W'\<rparr>, h')"
    and "session_round api pf k (sv_world S) = Ended (Closed k' W') \<or> session_round api pf k (sv_world S) = Ended (Io_error k' W') \<Longrightarrow>
      \<exists>h' b. (interleaved_step api pf fresh)\<^sup>*\<^sup>* (S, h) (S\<lparr>sv_sessions := (sv_sessions S)[i := Some (Finished k' b)], sv_world := W'\<rparr>, h')"
proof -
  obtain r where r: "drive api pf 5 (Reading k) (sv_world S) = Some r" "round_outcome r = session_round api pf k (sv_world S)"
    using round_fiber_steps [of api pf k "sv_world S"] by (cases "drive api pf 5 (Reading k) (sv_world S)") auto
  show "session_round api pf k (sv_world S) = Next_request k' W' \<Longrightarrow>
      \<exists>h'. (interleaved_step api pf fresh)\<^sup>*\<^sup>* (S, h) (S\<lparr>sv_sessions := (sv_sessions S)[i := Some (Reading k')], sv_world := W'\<rparr>, h')"
  proof -
    assume "session_round api pf k (sv_world S) = Next_request k' W'"
    with r have "r = Inr (Reading k', W')"
      using drive_at_rest [of api pf 5 "Reading k" "sv_world S"] r(1) by (cases r rule: round_outcome.cases) auto
    with drive_runs [OF r(1) [unfolded this] assms refl] show ?thesis by simp
  qed
  show "session_round api pf k (sv_world S) = Ended (Closed k' W') \<or> session_round api pf k (sv_world S) = Ended (Io_error k' W') \<Longrightarrow>
      \<exists>h' b. (interleaved_step api pf fresh)\<^sup>*\<^sup>* (S, h) (S\<lparr>sv_sessions := (sv_sessions S)[i := Some (Finished k' b)], sv_world := W'\<rparr>, h')"
  proof -
    assume "session_round api pf k (sv_world S) = Ended (Closed k' W') \<or> session_round api pf k (sv_world S) = Ended (Io_error k' W')"
    with r have "r = Inr (Finished k' True, W') \<or> r = Inr (Finished k' False, W')"
      by (cases r rule: round_outcome.cases) auto
    then obtain b where "r = Inr (Finished k' b, W')" by blast
    with drive_runs [OF r(1) [unfolded this] assms refl] show ?thesis by blast
  qed
qed

end
