(* ===== verification/InterleavingProps.thy ===== *)
theory InterleavingProps
  imports Interleaving
begin

section \<open>Properties of interleaved sessions\<close>

subsection \<open>Reading a request, step by step\<close>

lemma dispatch_request:
  assumes "frame_fits q"
  shows "dispatch pf (header_of q) (br_topic q @ br_message q) k W =
     (case opcode_of (br_opcode q) of
        Some PUSH \<Rightarrow> start_push pf (header_of q) (br_topic q) (br_message q) k W
      | Some PULL \<Rightarrow> start_pull pf (header_of q) (br_topic q) k W
      | Some DELETE \<Rightarrow> start_delete pf (header_of q) (br_topic q) (br_message q) k W
      | _ \<Rightarrow> reject pf k (br_opcode q) INTERNAL_ERROR ''Unknown opcode'' W)"
  by (simp add: dispatch_def frame_fits_lengths [OF assms] Let_def split: option.split opcode_t.split)

lemma fiber_reads:
  assumes sok: "socket_ok api inp out" and fits: "frame_fits q" and inp: "inp k = frame_of pad q @ rest"
    and ne: "br_topic q \<noteq> []"
  obtains k1 k2 where "\<And>W. fiber_step api pf (Reading k) W = Inr (Reading_body k1 (header_of q), W, [])"
    and "\<And>W. fiber_step api pf (Reading_body k1 (header_of q)) W =
        dispatch pf (header_of q) (br_topic q @ br_message q) k2 W"
    and "inp k2 = rest" and "out k2 = out k"
proof -
  note len = frame_fits_lengths [OF fits]
  let ?n = "length (br_topic q) + length (br_message q)"
  have "sizeof_header \<le> length (inp k)" by (simp add: inp frame_of_def sizeof_header_def)
  then obtain k1 where k1: "so_read api sizeof_header k = (Some (take sizeof_header (inp k)), k1)"
    "inp k1 = drop sizeof_header (inp k)" "out k1 = out k"
    by (rule socket_read [OF sok])
  have hdr: "take sizeof_header (inp k) = request_header_image pad (header_of q)"
    and rest: "inp k1 = br_topic q @ br_message q @ rest"
    by (simp_all add: k1(2) inp frame_of_def sizeof_header_def)
  have small: "\<not> session_buffer_size - sizeof_header < ?n" using fits by (simp add: frame_fits_def)
  have pos: "0 < ?n" using ne by simp
  have "?n \<le> length (inp k1)" by (simp add: rest)
  then obtain k2 where k2: "so_read api ?n k1 = (Some (take ?n (inp k1)), k2)"
    "inp k2 = drop ?n (inp k1)" "out k2 = out k1"
    by (rule socket_read [OF sok])
  show thesis
  proof (rule that)
    show "fiber_step api pf (Reading k) W = Inr (Reading_body k1 (header_of q), W, [])" for W
      using k1(1) hdr small pos by (simp add: read_header_def request_header_of_image len Let_def)
    show "fiber_step api pf (Reading_body k1 (header_of q)) W =
        dispatch pf (header_of q) (br_topic q @ br_message q) k2 W" for W
      using k2(1) pos ne by (simp add: read_body_def len rest)
    show "inp k2 = rest" "out k2 = out k" using k2(2,3) k1(3) rest by simp_all
  qed
qed

text \<open>
  The request that a session is about to carry out, read out of what it holds: for PUSH and DELETE
  the buffer that it has built, whose views must name the topic that it has looked up.
\<close>

definition request_asked :: "byte \<Rightarrow> byte list \<Rightarrow> request_t \<Rightarrow> broker_request option" where
  "request_asked opcode n r =
     (case (view_read r (topic_name r), view_read r (message_view r)) of
        (Inr t, Inr m) \<Rightarrow>
          if t = n then Some \<lparr>br_opcode = opcode, br_topic = t, br_pid = partition_id r, br_message = m\<rparr> else None
      | _ \<Rightarrow> None)"

fun asked :: "'k activity \<Rightarrow> broker_request option" where
  "asked (Pushing k n r) = request_asked (opcode_value PUSH) n r"
| "asked (Pulling k n pid) = Some \<lparr>br_opcode = opcode_value PULL, br_topic = n, br_pid = pid, br_message = []\<rparr>"
| "asked (Checking k n r) = request_asked (opcode_value DELETE) n r"
| "asked a = None"

lemma dispatch_asks:
  assumes fits: "fits_buffer (br_topic q) (br_message q)" and found: "registry_find (br_topic q) W = Some T"
    and ne: "br_topic q \<noteq> []" and pid: "br_pid q < 3"
    and op: "br_opcode q = opcode_value op" "op \<in> {PUSH, PULL, DELETE}" "op = PULL \<longrightarrow> br_message q = []"
  shows "\<exists>a. dispatch pf (header_of q) (br_topic q @ br_message q) k W = Inr (a, W, []) \<and> asked a = Some q \<and> sock a = k"
proof -
  have frame: "frame_fits q" using fits by (simp add: frame_fits_def fits_buffer_def session_buffer_size_def sizeof_header_def)
  obtain r where r: "create_request (request_buffer pf) (br_topic q) (br_pid q) (br_message q) = Inr r"
    "\<And>c. request_asked c (br_topic q) r = Some \<lparr>br_opcode = c, br_topic = br_topic q, br_pid = br_pid q, br_message = br_message q\<rparr>"
    by (rule create_request_views [OF fits, of pf "br_pid q"]) (auto simp: request_asked_def)
  have q: "q = \<lparr>br_opcode = opcode_value op, br_topic = br_topic q, br_pid = br_pid q, br_message = br_message q\<rparr>"
    using op(1) by simp
  have pid': "br_pid q \<noteq> INVALID_TOPIC_ID" "\<not> 3 \<le> br_pid q" using pid by (auto simp: INVALID_TOPIC_ID_def)
  have code: "opcode_of (br_opcode q) = Some op" by (simp add: op(1) del: opcode_value.simps)
  note disp = dispatch_request [OF frame, of pf k W, unfolded code option.case]
  from op(2) consider "op = PUSH" | "op = PULL" | "op = DELETE" by blast
  then show ?thesis
  proof cases
    case 1
    then have "dispatch pf (header_of q) (br_topic q @ br_message q) k W = Inr (Pushing k (br_topic q) r, W, [])"
      using disp found ne r(1) by (simp add: start_push_def get_or_create_topic_def get_topic_def)
    with q r(2) 1 show ?thesis by (intro exI conjI) (auto simp del: opcode_value.simps)
  next
    case 2
    then have "dispatch pf (header_of q) (br_topic q @ br_message q) k W = Inr (Pulling k (br_topic q) (br_pid q), W, [])"
      using disp found ne pid' by (simp add: start_pull_def get_topic_def)
    moreover have "br_message q = []" using op(3) 2 by simp
    ultimately show ?thesis using q 2 by (intro exI conjI) (auto simp del: opcode_value.simps)
  next
    case 3
    then have "dispatch pf (header_of q) (br_topic q @ br_message q) k W = Inr (Checking k (br_topic q) r, W, [])"
      using disp found ne r(1) pid' by (simp add: start_delete_def get_topic_def)
    with q r(2) 3 show ?thesis by (intro exI conjI) (auto simp del: opcode_value.simps)
  qed
qed

text \<open>One turn of a fiber, as a step of the server.\<close>

lemma turn_step:
  assumes "sv_sessions S ! i = Some a" and "i < length (sv_sessions S)"
    and "fiber_step api pf a (sv_world S) = Inr (a', W', es)"
  shows "interleaved_step api pf fresh (S, h)
     (S\<lparr>sv_sessions := (sv_sessions S)[i := Some a'], sv_world := W'\<rparr>, h @ map (Pair i) es)"
  using assms by (intro fiber_served [of i]) (simp_all add: fiber_turn_def)

lemma accept_step:
  assumes "sv_accepting S" and "sv_open S" and "fresh k"
  shows "interleaved_step api pf fresh (S, h) (S\<lparr>sv_sessions := sv_sessions S @ [Some (Reading k)]\<rparr>, h)"
  using fiber_accepted [OF assms(1,2), of "Connected k" fresh api pf h] assms(3) by simp

subsection \<open>Two clients on a fresh server\<close>

text \<open>
  The instances: on the demonstration platform, two clients have connected; the first has sent
  a push to a topic that does not exist yet, the second a request for the same topic.
\<close>

definition no_output :: "byte list \<times> byte list \<Rightarrow> bool" where
  "no_output k \<longleftrightarrow> snd k = []"

definition demo_reachable :: "(byte list \<times> byte list) run_state \<Rightarrow> bool" where
  "demo_reachable = reachable (interleaved_init pair_socket fst snd demo_platform no_output)
     (interleaved_step pair_socket demo_platform no_output)"

lemma demo_next:
  "demo_reachable s \<Longrightarrow> interleaved_step pair_socket demo_platform no_output s t \<Longrightarrow> demo_reachable t"
  unfolding demo_reachable_def by (rule reachable.next_state)

abbreviation two_sessions :: "'k activity \<Rightarrow> 'k activity \<Rightarrow> world_t \<Rightarrow> 'k activity server_t" where
  "two_sessions a b W \<equiv> \<lparr>sv_open = True, sv_accepting = True, sv_sessions = [Some a, Some b], sv_world = W\<rparr>"

lemma turn_first:
  "fiber_step api pf a W = Inr (a', W', es) \<Longrightarrow>
     interleaved_step api pf fresh (two_sessions a b W, h) (two_sessions a' b W', h @ map (Pair 0) es)"
  using turn_step [of "two_sessions a b W" 0 a] by simp

lemma turn_second:
  "fiber_step api pf b W = Inr (b', W', es) \<Longrightarrow>
     interleaved_step api pf fresh (two_sessions a b W, h) (two_sessions a b' W', h @ map (Pair 1) es)"
  using turn_step [of "two_sessions a b W" 1 b] by simp

text \<open>
  The first client's push has registered the topic and waits for the partition's lock; the
  second has been accepted.
\<close>

lemma demo_window:
  obtains k r W where
    "\<forall>k'. snd k' = [] \<longrightarrow> demo_reachable (two_sessions (Pushing k (lit ''t'') r) (Reading k') W, [(0, Created (lit ''t''))])"
    and "world_wf W" and "world_abs W = [lit ''t'' \<mapsto> []]" and "en_heap (wo_env W) = Map.empty"
    and "view_read r (message_view r) = Inr (lit ''m'')" and "partition_id r = 0" and "snd k = []"
proof -
  let ?q = "demo_push 0 (lit ''m'')" and ?t = "lit ''t''"
  let ?k0 = "(frame_of 0 ?q, []) :: byte list \<times> byte list"
  let ?S = "\<lambda>ss W. \<lparr>sv_open = True, sv_accepting = True, sv_sessions = ss, sv_world = W\<rparr> :: (byte list \<times> byte list) activity server_t"
  let ?step = "interleaved_step pair_socket demo_platform no_output"
  have fits: "frame_fits ?q" by (simp add: frame_fits_def session_buffer_size_def sizeof_header_def demo_push_def)
  have q: "br_topic ?q = ?t" "br_message ?q = lit ''m''" "opcode_of (br_opcode ?q) = Some PUSH" "br_pid ?q = 0"
    by (simp_all add: demo_push_def del: opcode_value.simps)
  obtain k1 k where rd: "\<And>W. fiber_step pair_socket demo_platform (Reading ?k0) W = Inr (Reading_body k1 (header_of ?q), W, [])"
    "\<And>W. fiber_step pair_socket demo_platform (Reading_body k1 (header_of ?q)) W =
        dispatch demo_platform (header_of ?q) (br_topic ?q @ br_message ?q) k W"
    "fst k = []" "snd k = snd ?k0"
    by (rule fiber_reads [OF pair_socket_ok fits, of ?k0 0 "[]"]) (use q in auto)
  obtain W where W: "get_or_create_topic (pf_can_open demo_platform) 1 ?t world_new = Inr W" "world_wf W"
    "en_heap (wo_env W) = en_heap (wo_env world_new)"
    "world_abs W = (case world_abs world_new ?t of None \<Rightarrow> (world_abs world_new)(?t \<mapsto> []) | Some q \<Rightarrow> world_abs world_new)"
    by (rule get_or_create_ok [OF world_new_wf, of ?t "pf_can_open demo_platform"]) simp_all
  obtain r where r: "create_request (request_buffer demo_platform) ?t 0 (lit ''m'') = Inr r" "partition_id r = 0"
    "view_read r (message_view r) = Inr (lit ''m'')"
    by (rule create_request_views [of ?t "lit ''m''"]) (simp add: fits_buffer_def)
  have disp: "dispatch demo_platform (header_of ?q) (br_topic ?q @ br_message ?q) k world_new =
      Inr (Pushing k ?t r, W, [Created ?t])"
    using W(1) r(1) dispatch_request [OF fits, of demo_platform k world_new]
    by (simp only: q option.case opcode_t.case) (simp add: start_push_def get_topic_def q)
  have window: "demo_reachable (?S [Some (Pushing k ?t r), Some (Reading k')] W, [(0, Created ?t)])"
    if k': "snd k' = []" for k'
  proof -
    have s0: "demo_reachable (?S [] world_new, [])"
      unfolding demo_reachable_def
      by (rule reachable.start) (auto simp: interleaved_init_def pair_socket_ok no_output_def small_malloc_sound
          demo_platform_def server_start_def server_ctor_def world_new_def)
    have s1: "?step (?S [] world_new, []) (?S [Some (Reading ?k0)] world_new, [])"
      using accept_step [of "?S [] world_new" no_output ?k0] by (simp add: no_output_def)
    have s2: "?step (?S [Some (Reading ?k0)] world_new, []) (?S [Some (Reading ?k0), Some (Reading k')] world_new, [])"
      using accept_step [of "?S [Some (Reading ?k0)] world_new" no_output k'] k' by (simp add: no_output_def)
    have s3: "?step (?S [Some (Reading ?k0), Some (Reading k')] world_new, [])
        (?S [Some (Reading_body k1 (header_of ?q)), Some (Reading k')] world_new, [])"
      using turn_first [OF rd(1), of no_output "Reading k'" world_new "[]"] by simp
    have s4: "?step (?S [Some (Reading_body k1 (header_of ?q)), Some (Reading k')] world_new, [])
        (?S [Some (Pushing k ?t r), Some (Reading k')] W, [(0, Created ?t)])"
      using turn_first [OF trans [OF rd(2) disp], of no_output "Reading k'" "[]"] by simp
    show ?thesis by (rule demo_next [OF demo_next [OF demo_next [OF demo_next [OF s0 s1] s2] s3] s4])
  qed
  have abs: "world_abs W = [?t \<mapsto> []]" "en_heap (wo_env W) = Map.empty"
    using W(4) by (simp, simp add: W(3) world_new_def)
  have quiet: "snd k = []" using rd(4) by simp
  show thesis by (rule that [OF _ W(2) abs r(3,2) quiet]) (use window in blast)
qed

lemma push_section_runs:
  assumes wf: "world_wf W" and T: "registry_find n W = Some T" and r: "view_read r (message_view r) = Inr m" "partition_id r = 0"
    and mem: "malloc_sound malloc" "malloc (en_heap (wo_env W)) (8 + length m) \<noteq> 0"
  obtains W' where "on_topic n (\<lambda>s. rbind (topic_push malloc hash pad f r s) (\<lambda>t. Inr (t, ()))) W = Inr (W', ())"
proof -
  note w = world_wfD [OF wf T]
  have idx: "push_index hash r T = Inr 0" "unat (0 :: u16) < length (tp_storage T)"
    using r(2) w(3) by (simp_all add: push_index_def INVALID_TOPIC_ID_def)
  obtain t where "topic_push malloc hash pad f r (wo_env W, T) = Inr t"
    by (rule topic_push_ok [OF w(1) idx r(1) mem])
  then show thesis by (intro that [of "set_topic n t W"]) (simp add: on_topic_def T)
qed

lemma demo_push_turn:
  assumes "world_wf W" and "world_abs W = [lit ''t'' \<mapsto> []]" and "en_heap (wo_env W) = Map.empty"
    and "view_read r (message_view r) = Inr (lit ''m'')" and "partition_id r = 0"
  obtains W' where "fiber_step pair_socket demo_platform (Pushing k (lit ''t'') r) W =
     Inr (Answering k (ok_response demo_platform (opcode_value PUSH)), W', [Pushed (lit ''t'') (lit ''m'')])"
proof -
  have "world_abs W (lit ''t'') \<noteq> None" by (simp add: assms(2) del: world_abs_None)
  then obtain T where T: "registry_find (lit ''t'') W = Some T" by auto
  have "malloc_sound (pf_malloc demo_platform)"
    "pf_malloc demo_platform (en_heap (wo_env W)) (8 + length (lit ''m'')) \<noteq> 0"
    by (simp_all add: demo_platform_def small_malloc_sound assms(3) small_malloc_def)
  then obtain W' where "on_topic (lit ''t'') (\<lambda>s. rbind (topic_push (pf_malloc demo_platform) (request_hash (pf_hash_char demo_platform))
      (pf_wall_pad demo_platform) (pf_fiber demo_platform) r s) (\<lambda>t. Inr (t, ()))) W = Inr (W', ())"
    by (rule push_section_runs [OF assms(1) T assms(4,5)])
  with that assms(4) show thesis by simp
qed

text \<open>The second client's request, up to its critical section.\<close>

lemma demo_second_reads:
  assumes "br_topic q = lit ''t''" and "frame_fits q"
  obtains k1 k2 where "fiber_step pair_socket demo_platform (Reading (frame_of 0 q, [])) W =
      Inr (Reading_body k1 (header_of q), W, [])"
    and "fiber_step pair_socket demo_platform (Reading_body k1 (header_of q)) W =
      dispatch demo_platform (header_of q) (br_topic q @ br_message q) k2 W"
    and "snd k2 = []"
proof -
  have "fst (frame_of 0 q, [] :: byte list) = frame_of 0 q @ []" and "br_topic q \<noteq> []"
    using assms(1) by simp_all
  then show thesis
    by (rule fiber_reads [OF pair_socket_ok assms(2)]) (rule that; simp)
qed

text \<open>The state after the push: one message stored and an answer ready.\<close>

lemma demo_push_done:
  obtains k W where "demo_reachable (two_sessions (Answering k (ok_response demo_platform (opcode_value PUSH))) (Reading ([], [])) W,
      [(0, Created (lit ''t'')), (0, Pushed (lit ''t'') (lit ''m''))])"
proof -
  obtain k r W where window: "\<forall>k'. snd k' = [] \<longrightarrow>
      demo_reachable (two_sessions (Pushing k (lit ''t'') r) (Reading k') W, [(0, Created (lit ''t''))])"
    and W: "world_wf W" "world_abs W = [lit ''t'' \<mapsto> []]" "en_heap (wo_env W) = Map.empty"
    and r: "view_read r (message_view r) = Inr (lit ''m'')" "partition_id r = 0"
    by (rule demo_window)
  obtain W' where push: "fiber_step pair_socket demo_platform (Pushing k (lit ''t'') r) W =
      Inr (Answering k (ok_response demo_platform (opcode_value PUSH)), W', [Pushed (lit ''t'') (lit ''m'')])"
    by (rule demo_push_turn [OF W r])
  have "demo_reachable (two_sessions (Pushing k (lit ''t'') r) (Reading ([], [])) W, [(0, Created (lit ''t''))])"
    using window by simp
  from that [of k W'] demo_next [OF this turn_first [OF push]] show thesis by simp
qed

text \<open>The two orders in which the requests of a push and a pull can be served one after the other.\<close>

lemma demo_serial_orders:
  "map_option snd (broker_run (\<lambda>_. True) Map.empty [demo_push 0 (lit ''m''), demo_pull 0]) =
     Some [ack (opcode_value PUSH) [], ack (opcode_value PULL) (lit ''m'')]"
  "map_option snd (broker_run (\<lambda>_. True) Map.empty [demo_pull 0, demo_push 0 (lit ''m'')]) =
     Some [reply (opcode_value PULL) TOPIC_NOT_FOUND ''Topic not found'', ack (opcode_value PUSH) []]"
proof -
  have "broker_step (\<lambda>_. True) Map.empty (demo_pull 0) =
      Some (Map.empty, reply (opcode_value PULL) TOPIC_NOT_FOUND ''Topic not found'')"
    unfolding broker_step_def demo_pull_def by (simp add: broker_pull_def del: opcode_value.simps)
  then show "map_option snd (broker_run (\<lambda>_. True) Map.empty [demo_pull 0, demo_push 0 (lit ''m'')]) =
      Some [reply (opcode_value PULL) TOPIC_NOT_FOUND ''Topic not found'', ack (opcode_value PUSH) []]"
    by (simp add: demo_steps del: opcode_value.simps)
  show "map_option snd (broker_run (\<lambda>_. True) Map.empty [demo_push 0 (lit ''m''), demo_pull 0]) =
      Some [ack (opcode_value PUSH) [], ack (opcode_value PULL) (lit ''m'')]"
    by (simp add: demo_steps del: opcode_value.simps)
qed

subsection \<open>Properties\<close>

text \<open>
  C3: sessions are linearizable at the level of critical sections. In every state that a server
  reaches with its sessions interleaved at every suspension, the world is well formed and holds
  what the history of critical sections leaves of an empty broker; and every session has
  written, or has ready to write, exactly the answers that its own events in that history call
  for, in their order.
\<close>

theorem sessions_linearize:
  assumes "reachable (interleaved_init api inp out pf fresh) (interleaved_step api pf fresh) (S, h)"
  shows "world_wf (sv_world S)
     \<and> run_history Map.empty (map snd h) = Some (world_abs (sv_world S))
     \<and> (\<forall>i a. i < length (sv_sessions S) \<longrightarrow> sv_sessions S ! i = Some a \<longrightarrow>
          spoken out a = answer_bytes pf (events_of i h))"
  using il.reachable_inv [OF assms] by (simp add: interleaved_inv_def)

theorem sessions_linearize_witness:
  "\<exists>(S :: (byte list \<times> byte list) activity server_t) k. sv_sessions S ! 0 = Some (Answering k (ok_response demo_platform (opcode_value PUSH)))
     \<and> world_wf (sv_world S)
     \<and> run_history Map.empty [Created (lit ''t''), Pushed (lit ''t'') (lit ''m'')] = Some (world_abs (sv_world S))
     \<and> spoken snd (Answering k (ok_response demo_platform (opcode_value PUSH))) =
         answer_bytes demo_platform [Created (lit ''t''), Pushed (lit ''t'') (lit ''m'')]"
proof -
  obtain k W where s: "demo_reachable (two_sessions (Answering k (ok_response demo_platform (opcode_value PUSH))) (Reading ([], [])) W,
      [(0, Created (lit ''t'')), (0, Pushed (lit ''t'') (lit ''m''))])"
    by (rule demo_push_done)
  note all = sessions_linearize [OF s [unfolded demo_reachable_def]]
  have said: "spoken snd (Answering k (ok_response demo_platform (opcode_value PUSH))) =
      answer_bytes demo_platform [Created (lit ''t''), Pushed (lit ''t'') (lit ''m'')]"
    using all [THEN conjunct2, THEN conjunct2, rule_format, of 0] by (simp add: events_of_def del: opcode_value.simps)
  show ?thesis
    by (rule exI [where x = "two_sessions (Answering k (ok_response demo_platform (opcode_value PUSH))) (Reading ([], [])) W"],
        rule exI [where x = k], intro conjI)
      (use all said in \<open>simp_all del: run_history.simps opcode_value.simps\<close>)
qed

text \<open>
  Messages are neither lost nor invented nor reordered as long as critical sections are
  atomic. In every interleaving of them, what was pushed to a topic, in the order of the pushes, is what was removed from
  it, in the order of the removals, followed by what it holds; and a message that a PULL
  returned was the oldest one not yet removed at that moment.
\<close>

lemma sections_lose_nothing:
  assumes "reachable (interleaved_init api inp out pf fresh) (interleaved_step api pf fresh) (S, h)"
  shows "pushes n (map snd h) = removals n (map snd h) @ messages_of (world_abs (sv_world S)) n
     \<and> (\<forall>h1 i m h2. h = h1 @ (i, Fetched n (Some m)) # h2 \<longrightarrow>
          (\<exists>ms. pushes n (map snd h1) = removals n (map snd h1) @ m # ms))"
proof -
  have run: "run_history Map.empty (map snd h) = Some (world_abs (sv_world S))"
    using il.reachable_inv [OF assms] by (simp add: interleaved_inv_def)
  have empty: "messages_of Map.empty n = []" by (simp add: messages_of_def)
  have "\<exists>ms. pushes n (map snd h1) = removals n (map snd h1) @ m # ms"
    if "h = h1 @ (i, Fetched n (Some m)) # h2" for h1 i m h2
  proof -
    from run that obtain B where B: "run_history Map.empty (map snd h1) = Some B" "effect B (Fetched n (Some m)) \<noteq> None"
      by (auto simp: run_history_append simp del: effect.simps split: option.splits)
    from B(2) obtain ms where "B n = Some (m # ms)" by (auto split: option.splits list.splits if_splits)
    then show ?thesis using run_history_balance [OF B(1), of n] by (simp add: empty) (simp add: messages_of_def)
  qed
  then show ?thesis using run_history_balance [OF run, of n] by (simp add: empty)
qed

text \<open>
  C24: a push to a new topic is not atomic. While it waits for the lock of the partition that it
  has just created, another client's PULL is answered \<open>EMPTY_PARTITION\<close>, and then the push is
  acknowledged; no order of the two requests gives these two answers.
\<close>

theorem first_push_visible_early:
  "\<exists>S h a b. reachable (interleaved_init pair_socket fst snd demo_platform no_output)
       (interleaved_step pair_socket demo_platform no_output) (S, h)
     \<and> sv_sessions S = [Some a, Some b]
     \<and> map snd h = [Created (lit ''t''), Fetched (lit ''t'') None, Pushed (lit ''t'') (lit ''m'')]
     \<and> spoken snd a = reply_image demo_platform (ack (opcode_value PUSH) [])
     \<and> spoken snd b = reply_image demo_platform (reply (opcode_value PULL) EMPTY_PARTITION ''No messages in partition'')
     \<and> map_option snd (broker_run (\<lambda>_. True) Map.empty [demo_push 0 (lit ''m''), demo_pull 0]) =
         Some [ack (opcode_value PUSH) [], ack (opcode_value PULL) (lit ''m'')]
     \<and> map_option snd (broker_run (\<lambda>_. True) Map.empty [demo_pull 0, demo_push 0 (lit ''m'')]) =
         Some [reply (opcode_value PULL) TOPIC_NOT_FOUND ''Topic not found'', ack (opcode_value PUSH) []]"
proof -
  let ?t = "lit ''t''" and ?q = "demo_pull 0"
  obtain k r W where window: "\<forall>k'. snd k' = [] \<longrightarrow>
      demo_reachable (two_sessions (Pushing k ?t r) (Reading k') W, [(0, Created ?t)])"
    and W: "world_wf W" "world_abs W = [?t \<mapsto> []]" "en_heap (wo_env W) = Map.empty"
    and r: "view_read r (message_view r) = Inr (lit ''m'')" "partition_id r = 0" and k: "snd k = []"
    by (rule demo_window)
  have q: "br_topic ?q = ?t" "frame_fits ?q" "opcode_of (br_opcode ?q) = Some PULL" "br_pid ?q = 0"
    by (simp_all add: demo_pull_def frame_fits_def session_buffer_size_def sizeof_header_def del: opcode_value.simps)
  obtain k1 k2 where rd: "fiber_step pair_socket demo_platform (Reading (frame_of 0 ?q, [])) W =
      Inr (Reading_body k1 (header_of ?q), W, [])"
    "fiber_step pair_socket demo_platform (Reading_body k1 (header_of ?q)) W =
      dispatch demo_platform (header_of ?q) (br_topic ?q @ br_message ?q) k2 W" "snd k2 = []"
    by (rule demo_second_reads [OF q(1,2)])
  have "world_abs W ?t \<noteq> None" by (simp add: W(2) del: world_abs_None)
  then obtain T where T: "registry_find ?t W = Some T" by auto
  have disp: "dispatch demo_platform (header_of ?q) (br_topic ?q @ br_message ?q) k2 W = Inr (Pulling k2 ?t 0, W, [])"
    using T dispatch_request [OF q(2), of demo_platform k2 W]
    by (simp only: q option.case opcode_t.case) (simp add: start_pull_def get_topic_def q INVALID_TOPIC_ID_def)
  have "topic_read (pf_fiber demo_platform) 0 (wo_env W, T) = Inr ((wo_env W, T), None)"
    using topic_read_ok [OF world_wfD(1) [OF W(1) T], of 0] world_wfD(3,5) [OF W(1) T] W(2) by simp
  then have pull: "fiber_step pair_socket demo_platform (Pulling k2 ?t 0) W =
      Inr (Answering k2 (error_response demo_platform (opcode_value PULL) EMPTY_PARTITION ''No messages in partition''), W, [Fetched ?t None])"
    by (simp add: on_topic_def T set_topic_same)
  obtain W' where push: "fiber_step pair_socket demo_platform (Pushing k ?t r) W =
      Inr (Answering k (ok_response demo_platform (opcode_value PUSH)), W', [Pushed ?t (lit ''m'')])"
    by (rule demo_push_turn [OF W r])
  have "demo_reachable (two_sessions (Pushing k ?t r) (Reading (frame_of 0 ?q, [])) W, [(0, Created ?t)])"
    using window by simp
  note run = demo_next [OF demo_next [OF demo_next [OF demo_next [OF this turn_second [OF rd(1)]]
      turn_second [OF trans [OF rd(2) disp]]] turn_second [OF pull]] turn_first [OF push]]
  let ?a = "Answering k (ok_response demo_platform (opcode_value PUSH))"
    and ?b = "Answering k2 (error_response demo_platform (opcode_value PULL) EMPTY_PARTITION ''No messages in partition'')"
  have said: "spoken snd ?a = reply_image demo_platform (ack (opcode_value PUSH) [])"
    "spoken snd ?b = reply_image demo_platform (reply (opcode_value PULL) EMPTY_PARTITION ''No messages in partition'')"
    by (simp_all add: spoken_def k rd(3) del: opcode_value.simps)
  show ?thesis
    by (rule exI, rule exI, rule exI [of _ ?a], rule exI [of _ ?b], intro conjI, rule run [unfolded demo_reachable_def],
        simp, simp, (rule said demo_serial_orders)+)
qed

text \<open>
  C23: a DELETE during the first push to a topic takes the server down. In the same window, a
  DELETE from another client finds the topic without a message: its next step dereferences the
  null front of the queue, although no message was pushed or removed before.
\<close>

theorem delete_during_first_push_crashes:
  "\<exists>S. reachable (interleaved_init pair_socket fst snd demo_platform no_output)
       (interleaved_step pair_socket demo_platform no_output) (S, [(0, Created (lit ''t''))])
     \<and> length (sv_sessions S) = 2
     \<and> fiber_turn pair_socket demo_platform 1 (S, [(0, Created (lit ''t''))]) = Inl Null_dereference"
proof -
  let ?t = "lit ''t''" and ?q = "demo_delete 0 (lit ''m'')"
  obtain k r W where window: "\<forall>k'. snd k' = [] \<longrightarrow>
      demo_reachable (two_sessions (Pushing k ?t r) (Reading k') W, [(0, Created ?t)])"
    and W: "world_wf W" "world_abs W = [?t \<mapsto> []]"
    by (rule demo_window)
  have q: "br_topic ?q = ?t" "frame_fits ?q" "opcode_of (br_opcode ?q) = Some DELETE" "br_pid ?q = 0" "br_message ?q = lit ''m''"
    by (simp_all add: demo_delete_def frame_fits_def session_buffer_size_def sizeof_header_def del: opcode_value.simps)
  obtain k1 k2 where rd: "fiber_step pair_socket demo_platform (Reading (frame_of 0 ?q, [])) W =
      Inr (Reading_body k1 (header_of ?q), W, [])"
    "fiber_step pair_socket demo_platform (Reading_body k1 (header_of ?q)) W =
      dispatch demo_platform (header_of ?q) (br_topic ?q @ br_message ?q) k2 W"
    by (rule demo_second_reads [OF q(1,2)])
  have "world_abs W ?t \<noteq> None" by (simp add: W(2) del: world_abs_None)
  then obtain T where T: "registry_find ?t W = Some T" by auto
  obtain r' where r': "create_request (request_buffer demo_platform) ?t 0 (lit ''m'') = Inr r'" "partition_id r' = 0"
    "view_read r' (message_view r') = Inr (lit ''m'')"
    by (rule create_request_views [of ?t "lit ''m''"]) (simp add: fits_buffer_def)
  have disp: "dispatch demo_platform (header_of ?q) (br_topic ?q @ br_message ?q) k2 W = Inr (Checking k2 ?t r', W, [])"
    using T r'(1) dispatch_request [OF q(2), of demo_platform k2 W]
    by (simp only: q option.case opcode_t.case) (simp add: start_delete_def get_topic_def q INVALID_TOPIC_ID_def)
  have "remove_check (pf_fiber demo_platform) r' (wo_env W, T) = Inl Null_dereference"
    using remove_check_ok [OF world_wfD(1) [OF W(1) T] _ r'(3)] world_wfD(3,5) [OF W(1) T] W(2) r'(2) by simp
  then have crash: "fiber_step pair_socket demo_platform (Checking k2 ?t r') W = Inl Null_dereference"
    by (simp add: on_topic_def T)
  have "demo_reachable (two_sessions (Pushing k ?t r) (Reading (frame_of 0 ?q, [])) W, [(0, Created ?t)])"
    using window by simp
  note run = demo_next [OF demo_next [OF this turn_second [OF rd(1)]] turn_second [OF trans [OF rd(2) disp]]]
  show ?thesis
    by (rule exI, intro conjI, rule run [unfolded demo_reachable_def, simplified]) (simp_all add: fiber_turn_def crash del: fiber_step.simps)
qed

text \<open>
  C38: a request survives the wire. The bytes in which the client frames a PUSH, PULL or DELETE for a
  topic that exists, with topic and message of at most 1018 bytes together and a partition below
  3, are taken apart by the session, header and body, and packed again into its request buffer,
  so that what it is about to carry out, read back through the views of the buffer, is the
  opcode, topic, partition and message that the client was given; it has done nothing else, and
  the bytes after the request are still to be read.
\<close>

theorem request_round_trip:
  assumes "socket_ok api inp out"
    and "request_bytes pad (br_opcode q) (br_topic q) (br_pid q) (br_message q) = Inr bytes" and "inp k = bytes @ rest"
    and "fits_buffer (br_topic q) (br_message q)" and "br_topic q \<noteq> []" and "br_pid q < 3"
    and "br_opcode q = opcode_value op" and "op \<in> {PUSH, PULL, DELETE}" and "op = PULL \<longrightarrow> br_message q = []"
    and "registry_find (br_topic q) W = Some T"
  shows "\<exists>k1 hdr a. fiber_step api pf (Reading k) W = Inr (Reading_body k1 hdr, W, [])
     \<and> fiber_step api pf (Reading_body k1 hdr) W = Inr (a, W, [])
     \<and> asked a = Some q \<and> inp (sock a) = rest \<and> out (sock a) = out k"
proof -
  have frame: "frame_fits q"
    using assms(4) by (simp add: frame_fits_def fits_buffer_def session_buffer_size_def sizeof_header_def)
  have "length (br_topic q) < 65536" "length (br_message q) < 65536" using assms(4) by (simp_all add: fits_buffer_def)
  from request_bytes_small [OF this, of pad "br_opcode q" "br_pid q"] assms(2,3)
  have inp: "inp k = frame_of pad q @ rest" by (cases q) (simp add: client_request_def)
  obtain k1 k2 where rd: "fiber_step api pf (Reading k) W = Inr (Reading_body k1 (header_of q), W, [])"
    "fiber_step api pf (Reading_body k1 (header_of q)) W = dispatch pf (header_of q) (br_topic q @ br_message q) k2 W"
    "inp k2 = rest" "out k2 = out k"
    by (rule fiber_reads [OF assms(1) frame inp assms(5), of pf]) blast
  obtain a where "dispatch pf (header_of q) (br_topic q @ br_message q) k2 W = Inr (a, W, [])" "asked a = Some q" "sock a = k2"
    using dispatch_asks [OF assms(4,10,5,6,7,8,9), of pf k2] by blast
  with rd show ?thesis by (intro exI [of _ k1] exI [of _ "header_of q"] exI [of _ a]) simp
qed

theorem request_round_trip_witness:
  "\<exists>W k1 hdr a. fiber_step pair_socket demo_platform (Reading (frame_of 7 (demo_delete 2 (lit ''m'')) @ [1, 2], [])) W = Inr (Reading_body k1 hdr, W, [])
     \<and> fiber_step pair_socket demo_platform (Reading_body k1 hdr) W = Inr (a, W, [])
     \<and> asked a = Some (demo_delete 2 (lit ''m'')) \<and> fst (sock a) = [1, 2]"
proof -
  let ?q = "demo_delete 2 (lit ''m'')"
  obtain W where "world_abs W = [lit ''t'' \<mapsto> []]" by (rule demo_window) blast
  then have "world_abs W (lit ''t'') \<noteq> None" by (simp del: world_abs_None)
  then obtain T where T: "registry_find (lit ''t'') W = Some T" by auto
  have q: "br_topic ?q = lit ''t''" "br_message ?q = lit ''m''" "br_pid ?q = 2" "br_opcode ?q = opcode_value DELETE"
    by (simp_all add: demo_delete_def del: opcode_value.simps)
  have bytes: "request_bytes 7 (br_opcode ?q) (br_topic ?q) (br_pid ?q) (br_message ?q) = Inr (frame_of 7 ?q)"
    using request_bytes_small [of "br_topic ?q" "br_message ?q" 7 "br_opcode ?q" "br_pid ?q"]
    by (simp add: q client_request_def) (simp add: demo_delete_def)
  from request_round_trip [OF pair_socket_ok bytes, of "(frame_of 7 ?q @ [1, 2], [])" "[1, 2]" DELETE W T demo_platform] T
  show ?thesis by (simp add: q fits_buffer_def del: fiber_step.simps opcode_value.simps) metis
qed

end
