(* ===== verification/LockedPartition.thy ===== *)
theory LockedPartition
  imports Histories
begin

section \<open>A partition under its real locks (\<open>src/topic.h\<close>)\<close>

text \<open>
  \<open>push\<close>, \<open>read\<close> and \<open>remove\<close> on one partition, with the state of the reader-writer mutex and of
  \<open>wall_mutex_\<close> explicit. A fiber stands at a location between two of its atomic pieces: before it
  asks for the lock, with the lock asked for, with \<open>wall_mutex_\<close> asked for inside the critical
  section, and before its guard is destroyed. The lock operations are those of the mutexes'
  own theories, the wake-up loop of a releasing writer included. This is the view in which the
  critical sections that the coarser models take as one step have to be shown to be one.
\<close>

subsection \<open>Locations\<close>

datatype location =
    Asking_push request_t
  | At_push request_t
  | Logging_push request_t
  | Asking_read
  | At_read
  | Asking_check request_t
  | At_check request_t
  | Asking_commit request_t
  | At_commit request_t
  | Logging_commit request_t
  | Leaving_write
  | Leaving_read "request_t option"
  | Idle

text \<open>
  \<open>lt_lock\<close>: the partition's mutex with its holders and threads in the wake-up loop; \<open>lt_wall\<close>:
  \<open>wall_mutex_\<close>, and \<open>lt_logging\<close> the fibers that were given it.
\<close>

record locked_t =
  lt_lock :: sm_sys
  lt_wall :: unique_mutex_t
  lt_logging :: "fiber list"
  lt_writer :: wall_writer_t
  lt_files :: file_system
  lt_heap :: heap
  lt_queue :: message_queue_t
  lt_at :: "fiber \<Rightarrow> location"
  lt_history :: "(fiber \<times> event) list"

subsection \<open>The pieces between two suspensions\<close>

definition move_to :: "fiber \<Rightarrow> location \<Rightarrow> locked_t \<Rightarrow> locked_t" where
  "move_to f l s = s\<lparr>lt_at := (lt_at s)(f := l)\<rparr>"

definition note_event :: "fiber \<Rightarrow> event \<Rightarrow> locked_t \<Rightarrow> locked_t" where
  "note_event f e s = s\<lparr>lt_history := lt_history s @ [(f, e)]\<rparr>"

definition through_lock :: "sm_event \<Rightarrow> fiber \<Rightarrow> location \<Rightarrow> locked_t \<Rightarrow> (fault + locked_t) option" where
  "through_lock e f l s = map_option (\<lambda>L. Inr (move_to f l (s\<lparr>lt_lock := L\<rparr>))) (sm_exec e (lt_lock s))"

definition ask_wall :: "fiber \<Rightarrow> location \<Rightarrow> locked_t \<Rightarrow> locked_t" where
  "ask_wall f l s =
     (let (m, g) = um_async_lock f (lt_wall s)
      in move_to f l (s\<lparr>lt_wall := m, lt_logging := lt_logging s @ opt_list g\<rparr>))"

definition log_and_release :: "nat \<Rightarrow> wall_data_t \<Rightarrow> fiber \<Rightarrow> locked_t \<Rightarrow> locked_t" where
  "log_and_release pad d f s =
     (let (fs, w) = store_raw (lt_writer s) (wall_data_image pad d) sizeof_wall_data (lt_files s);
          (m, g) = um_unlock (lt_wall s)
      in s\<lparr>lt_files := fs, lt_writer := w, lt_wall := m, lt_logging := remove1 f (lt_logging s) @ opt_list g\<rparr>)"

definition front_data :: "locked_t \<Rightarrow> fault + byte list" where
  "front_data s = iter_deref (lt_heap s) (mq_front (lt_queue s))"

definition once :: "bool \<Rightarrow> 'a \<Rightarrow> 'a option" where
  "once b x = (if b then Some x else None)"

text \<open>
  \<open>None\<close>: the fiber is waiting for the lock it asked for, or idle. Every request for a lock ends a
  piece, as \<open>async_lock\<close> posts or stores its handler; within a piece there is no suspension: the log
  write, the release of \<open>wall_mutex_\<close> and the change of the queue are one piece, all of it under
  the partition's lock.
\<close>

fun section_step :: "allocator \<Rightarrow> nat \<Rightarrow> u16 \<Rightarrow> byte list \<Rightarrow> fiber \<Rightarrow> location \<Rightarrow> locked_t \<Rightarrow> (fault + locked_t) option" where
  "section_step malloc pad i n f (Asking_push r) s = through_lock (Lock f) f (At_push r) s"
| "section_step malloc pad i n f (At_push r) s =
     once (f \<in> set (sm_writers (lt_lock s))) (Inr (ask_wall f (Logging_push r) s))"
| "section_step malloc pad i n f (Logging_push r) s =
     once (f \<in> set (lt_logging s))
       (let s1 = log_and_release pad (wall_data_for i True r) f s
        in rbind (view_read r (message_view r)) (\<lambda>m.
           rbind (mq_push malloc (lt_heap s1) (lt_queue s1) m) (\<lambda>(h, q, it).
           Inr (note_event f (Pushed n m) (move_to f Leaving_write (s1\<lparr>lt_heap := h, lt_queue := q\<rparr>))))))"
| "section_step malloc pad i n f Asking_read s = through_lock (Lock_shared f) f At_read s"
| "section_step malloc pad i n f At_read s =
     once (f \<in> set (sm_readers (lt_lock s)))
       (if mq_empty (lt_queue s) then Inr (note_event f (Fetched n None) (move_to f (Leaving_read None) s))
        else rbind (front_data s) (\<lambda>d. Inr (note_event f (Fetched n (Some d)) (move_to f (Leaving_read None) s))))"
| "section_step malloc pad i n f (Asking_check r) s = through_lock (Lock_shared f) f (At_check r) s"
| "section_step malloc pad i n f (At_check r) s =
     once (f \<in> set (sm_readers (lt_lock s)))
       (rbind (front_data s) (\<lambda>d.
        rbind (view_read r (message_view r)) (\<lambda>m.
        Inr (note_event f (Compared n m (d = m)) (move_to f (Leaving_read (if d = m then Some r else None)) s)))))"
| "section_step malloc pad i n f (Asking_commit r) s = through_lock (Lock f) f (At_commit r) s"
| "section_step malloc pad i n f (At_commit r) s =
     once (f \<in> set (sm_writers (lt_lock s)))
       (rbind (front_data s) (\<lambda>d.
        rbind (view_read r (message_view r)) (\<lambda>m.
        if d \<noteq> m then Inr (note_event f (Removed n m False) (move_to f Leaving_write s))
        else Inr (ask_wall f (Logging_commit r) s))))"
| "section_step malloc pad i n f (Logging_commit r) s =
     once (f \<in> set (lt_logging s))
       (let s1 = log_and_release pad (wall_data_for i False r) f s
        in rbind (mq_pop (lt_heap s1) (lt_queue s1)) (\<lambda>(h, q).
           Inr (note_event f (Removed n (request_message r) True) (move_to f Leaving_write (s1\<lparr>lt_heap := h, lt_queue := q\<rparr>)))))"
| "section_step malloc pad i n f Leaving_write s = through_lock (Unlock_write f) f Idle s"
| "section_step malloc pad i n f (Leaving_read again) s =
     through_lock (Unlock_read f) f (case again of None \<Rightarrow> Idle | Some r \<Rightarrow> Asking_commit r) s"
| "section_step malloc pad i n f Idle s = None"

fun call_of :: "location \<Rightarrow> bool" where
  "call_of (Asking_push r) = True"
| "call_of Asking_read = True"
| "call_of (Asking_check r) = True"
| "call_of l = False"

text \<open>
  What a fiber at a location does to the partition's mutex next, and when that gives the mutex to
  a writer while a thread is in the middle of the wake-up loop.
\<close>

fun lock_event :: "fiber \<Rightarrow> location \<Rightarrow> sm_event option" where
  "lock_event f (Asking_push r) = Some (Lock f)"
| "lock_event f Asking_read = Some (Lock_shared f)"
| "lock_event f (Asking_check r) = Some (Lock_shared f)"
| "lock_event f (Asking_commit r) = Some (Lock f)"
| "lock_event f Leaving_write = Some (Unlock_write f)"
| "lock_event f (Leaving_read again) = Some (Unlock_read f)"
| "lock_event f l = None"

definition rushed :: "fiber \<Rightarrow> location \<Rightarrow> sm_sys \<Rightarrow> bool" where
  "rushed f l L \<longleftrightarrow> 0 < sm_wakers L \<and> (case lock_event f l of None \<Rightarrow> False | Some e \<Rightarrow> admits_writer e L)"

lemma not_rushed [simp]:
  "sm_wakers L = 0 \<Longrightarrow> \<not> rushed f l L" "lock_event f l = None \<Longrightarrow> \<not> rushed f l L"
  by (simp_all add: rushed_def)

text \<open>
  \<open>calm\<close>: no writer is given the lock while a thread is in the middle of the wake-up loop. The
  program does not ensure this; the parameter separates the runs that do it from the others.
  Readers that the loop has woken may read and release the lock before it goes on, as they do
  when \<open>fn()\<close> resumes them; only the comparison of a \<open>remove\<close> that succeeds and asks for the
  write lock at once can, like a writer on another thread, make such a run not calm.
\<close>

inductive locked_step :: "bool \<Rightarrow> allocator \<Rightarrow> nat \<Rightarrow> u16 \<Rightarrow> byte list \<Rightarrow> locked_t \<Rightarrow> locked_t \<Rightarrow> bool"
  for calm malloc pad i n where
  fiber_calls: "lt_at s f = Idle \<Longrightarrow> call_of l \<Longrightarrow> locked_step calm malloc pad i n s (move_to f l s)"
| fiber_runs: "section_step malloc pad i n f (lt_at s f) s = Some (Inr t) \<Longrightarrow>
    (calm \<Longrightarrow> \<not> rushed f (lt_at s f) (lt_lock s)) \<Longrightarrow>
    locked_step calm malloc pad i n s t"
| waker_runs: "sm_exec Wake_next (lt_lock s) = Some L \<Longrightarrow> locked_step calm malloc pad i n s (s\<lparr>lt_lock := L\<rparr>)"

inductive_cases locked_stepE: "locked_step calm malloc pad i n s t"

definition locked_init :: "allocator \<Rightarrow> locked_t \<Rightarrow> bool" where
  "locked_init malloc s \<longleftrightarrow> malloc_sound malloc \<and> lt_lock s = sm_start \<and> lt_wall s = um_unlocked
     \<and> lt_logging s = [] \<and> lt_queue s = mq_empty_queue \<and> (\<forall>f. lt_at s f = Idle) \<and> lt_history s = []"

subsection \<open>Where the holders and the waiters of the lock are\<close>

fun writes :: "location \<Rightarrow> bool" where
  "writes (At_push r) = True"
| "writes (Logging_push r) = True"
| "writes (At_commit r) = True"
| "writes (Logging_commit r) = True"
| "writes Leaving_write = True"
| "writes l = False"

fun owns_write :: "location \<Rightarrow> bool" where
  "owns_write (Logging_push r) = True"
| "owns_write (Logging_commit r) = True"
| "owns_write Leaving_write = True"
| "owns_write l = False"

fun reads :: "location \<Rightarrow> bool" where
  "reads At_read = True"
| "reads (At_check r) = True"
| "reads (Leaving_read again) = True"
| "reads l = False"

fun owns_read :: "location \<Rightarrow> bool" where
  "owns_read (Leaving_read again) = True"
| "owns_read l = False"

definition placed :: "(fiber \<Rightarrow> location) \<Rightarrow> sm_sys \<Rightarrow> bool" where
  "placed at L \<longleftrightarrow>
     (\<forall>f\<in>set (sm_writers L) \<union> set (sm_unique_waiters (sm_mutex L)). writes (at f))
   \<and> (\<forall>f\<in>set (sm_readers L) \<union> set (sm_shared_waiters (sm_mutex L)). reads (at f))
   \<and> (\<forall>f. owns_write (at f) \<longrightarrow> f \<in> set (sm_writers L))
   \<and> (\<forall>f. owns_read (at f) \<longrightarrow> f \<in> set (sm_readers L))
   \<and> distinct (sm_writers L @ sm_unique_waiters (sm_mutex L))
   \<and> distinct (sm_readers L @ sm_shared_waiters (sm_mutex L))"

lemma places_exclude: "owns_write l \<Longrightarrow> writes l" "owns_read l \<Longrightarrow> reads l" "writes l \<Longrightarrow> \<not> reads l"
  by (cases l; simp)+

lemma placed_move:
  assumes "placed at L" and "writes l = writes (at f)" and "reads l = reads (at f)"
    and "owns_write l \<longrightarrow> f \<in> set (sm_writers L)" and "owns_read l \<longrightarrow> f \<in> set (sm_readers L)"
  shows "placed (at(f := l)) L"
  using assms by (auto simp: placed_def)

lemma placed_lock:
  assumes "placed at L" and "sm_exec (Lock f) L = Some L'" and "\<not> writes (at f)" and "\<not> reads (at f)"
    and "writes l" and "\<not> owns_write l"
  shows "placed (at(f := l)) L'"
proof -
  have "\<not> reads l" "\<not> owns_read l" using assms(5) by (cases l; simp)+
  moreover have "f \<notin> set (sm_writers L) \<union> set (sm_unique_waiters (sm_mutex L))
      \<union> set (sm_readers L) \<union> set (sm_shared_waiters (sm_mutex L))"
    using assms(1,3,4) by (auto simp: placed_def)
  ultimately show ?thesis
    using assms(1,2,5,6) by (auto simp: placed_def sm_op_defs split: if_splits)
qed

lemma placed_lock_shared:
  assumes "placed at L" and "sm_exec (Lock_shared f) L = Some L'" and "\<not> writes (at f)" and "\<not> reads (at f)"
    and "reads l" and "\<not> owns_read l"
  shows "placed (at(f := l)) L'"
proof -
  have "\<not> writes l" "\<not> owns_write l" using assms(5) by (cases l; simp)+
  moreover have "f \<notin> set (sm_writers L) \<union> set (sm_unique_waiters (sm_mutex L))
      \<union> set (sm_readers L) \<union> set (sm_shared_waiters (sm_mutex L))"
    using assms(1,3,4) by (auto simp: placed_def)
  ultimately show ?thesis
    using assms(1,2,5,6) by (auto simp: placed_def sm_op_defs split: if_splits)
qed

lemma placed_unlock:
  assumes "placed at L" and "sm_exec (Unlock_write f) L = Some L'" and "\<not> writes l" and "\<not> reads l"
  shows "placed (at(f := l)) L'"
proof -
  have f: "f \<in> set (sm_writers L)" using assms(2) by (auto split: if_splits)
  then have "f \<notin> set (sm_unique_waiters (sm_mutex L))" "\<not> reads (at f)" "\<not> owns_write l" "\<not> owns_read l"
    "f \<notin> set (sm_readers L)" "f \<notin> set (sm_shared_waiters (sm_mutex L))"
    using assms(1,3,4) by (auto simp: placed_def dest: places_exclude)
  with f show ?thesis
    using assms by (auto simp: placed_def sm_op_defs split: if_splits list.splits)
qed

lemma placed_unlock_shared:
  assumes "placed at L" and "sm_exec (Unlock_read f) L = Some L'" and "\<not> writes l" and "\<not> reads l"
  shows "placed (at(f := l)) L'"
proof -
  have f: "f \<in> set (sm_readers L)" using assms(2) by (auto split: if_splits)
  then have "f \<notin> set (sm_shared_waiters (sm_mutex L))" "\<not> writes (at f)" "\<not> owns_write l" "\<not> owns_read l"
    "f \<notin> set (sm_writers L)" "f \<notin> set (sm_unique_waiters (sm_mutex L))"
    using assms(1,3,4) by (auto simp: placed_def dest: places_exclude)
  with f show ?thesis
    using assms by (auto simp: placed_def sm_op_defs split: if_splits list.splits)
qed

lemma placed_wake: "placed at L \<Longrightarrow> sm_exec Wake_next L = Some L' \<Longrightarrow> placed at L'"
  by (auto simp: placed_def sm_op_defs split: if_splits list.splits)

subsection \<open>What a piece does\<close>

lemma lt_simps [simp]:
  "lt_lock (move_to f l s) = lt_lock s" "lt_queue (move_to f l s) = lt_queue s" "lt_heap (move_to f l s) = lt_heap s"
  "lt_history (move_to f l s) = lt_history s" "lt_at (move_to f l s) = (lt_at s)(f := l)"
  "lt_lock (note_event f e s) = lt_lock s" "lt_queue (note_event f e s) = lt_queue s" "lt_heap (note_event f e s) = lt_heap s"
  "lt_history (note_event f e s) = lt_history s @ [(f, e)]" "lt_at (note_event f e s) = lt_at s"
  "lt_lock (ask_wall f l s) = lt_lock s" "lt_queue (ask_wall f l s) = lt_queue s" "lt_heap (ask_wall f l s) = lt_heap s"
  "lt_history (ask_wall f l s) = lt_history s" "lt_at (ask_wall f l s) = (lt_at s)(f := l)"
  "lt_lock (log_and_release pad d f s) = lt_lock s" "lt_queue (log_and_release pad d f s) = lt_queue s"
  "lt_heap (log_and_release pad d f s) = lt_heap s" "lt_history (log_and_release pad d f s) = lt_history s"
  "lt_at (log_and_release pad d f s) = lt_at s"
  by (simp_all add: move_to_def note_event_def ask_wall_def log_and_release_def Let_def split: prod.split)

lemma once_Some [simp]: "once b x = Some y \<longleftrightarrow> b \<and> x = y"
  by (simp add: once_def)

lemma through_lock_Some:
  "through_lock e f l s = Some (Inr t) \<longleftrightarrow> (\<exists>L. sm_exec e (lt_lock s) = Some L \<and> t = move_to f l (s\<lparr>lt_lock := L\<rparr>))"
  by (auto simp: through_lock_def map_option_eq_Some)

definition stored :: "locked_t \<Rightarrow> byte list list" where
  "stored s = mq_abs (lt_heap s) (lt_queue s)"

text \<open>A fiber that has compared and logs its removal still finds its message in front.\<close>

definition data_inv :: "byte list \<Rightarrow> locked_t \<Rightarrow> bool" where
  "data_inv n s \<longleftrightarrow> mq_wf (lt_heap s) (lt_queue s)
     \<and> run_history [n \<mapsto> []] (map snd (lt_history s)) = Some [n \<mapsto> stored s]
     \<and> (\<forall>f r. lt_at s f = Logging_commit r \<longrightarrow> stored s \<noteq> [] \<and> hd (stored s) = request_message r)"

definition locked_inv :: "allocator \<Rightarrow> byte list \<Rightarrow> locked_t \<Rightarrow> bool" where
  "locked_inv malloc n s \<longleftrightarrow> malloc_sound malloc \<and> sm_calm_inv (lt_lock s) \<and> placed (lt_at s) (lt_lock s) \<and> data_inv n s"

lemma front_data_Inr:
  assumes "mq_wf (lt_heap s) (lt_queue s)" and "front_data s = Inr d"
  shows "stored s \<noteq> [] \<and> d = hd (stored s)"
proof (cases "stored s = []")
  case True
  with assms iter_deref_front_empty show ?thesis by (auto simp: front_data_def stored_def)
next
  case False
  with assms iter_deref_front show ?thesis by (auto simp: front_data_def stored_def)
qed

text \<open>An event that has its effect on the stored messages extends the history.\<close>

lemma history_snoc:
  assumes "run_history B (map snd h) = Some [n \<mapsto> ms]" and "effect [n \<mapsto> ms] e = Some [n \<mapsto> ms']"
  shows "run_history B (map snd (h @ [(f, e)])) = Some [n \<mapsto> ms']"
  using assms by (simp add: run_history_append)

lemma data_inv_move:
  "data_inv n s \<Longrightarrow> (\<And>r. l \<noteq> Logging_commit r) \<Longrightarrow> data_inv n (move_to f l (s\<lparr>lt_lock := L\<rparr>))"
  by (auto simp: data_inv_def stored_def)

lemma data_inv_event:
  assumes "data_inv n s" and "effect [n \<mapsto> stored s] e = Some [n \<mapsto> stored s]" and "\<And>r. l \<noteq> Logging_commit r"
  shows "data_inv n (note_event f e (move_to f l s))"
proof -
  have "run_history [n \<mapsto> []] (map snd (lt_history s)) = Some [n \<mapsto> stored s]" using assms(1) by (simp add: data_inv_def)
  from history_snoc [OF this assms(2), of f] assms(1,3) show ?thesis
    by (auto simp: data_inv_def stored_def simp del: effect.simps)
qed

text \<open>While a fiber owns the lock for writing, no other fiber is logging a removal.\<close>

lemma sole_owner:
  assumes "sm_calm_inv L" and "placed at L" and "owns_write (at f)" and "owns_write (at g)"
  shows "g = f"
proof -
  have "f \<in> set (sm_writers L)" "g \<in> set (sm_writers L)" "length (sm_writers L) \<le> 1"
    using assms by (auto simp: placed_def sm_calm_inv_def split: if_splits)
  then show ?thesis by (cases "sm_writers L") auto
qed

text \<open>The three ways a piece changes the state: the lock alone, an event alone, or the queue under the lock.\<close>

lemma inv_through_lock:
  assumes inv: "locked_inv malloc n s" and "through_lock e f l s = Some (Inr t)"
    and calm: "sm_wakers (lt_lock s) = 0 \<or> \<not> admits_writer e (lt_lock s)" and "\<And>r. l \<noteq> Logging_commit r"
    and place: "\<And>L. sm_exec e (lt_lock s) = Some L \<Longrightarrow> placed ((lt_at s)(f := l)) L"
  shows "locked_inv malloc n t"
proof -
  from assms(2) obtain L where L: "sm_exec e (lt_lock s) = Some L" "t = move_to f l (s\<lparr>lt_lock := L\<rparr>)"
    by (auto simp: through_lock_Some)
  have "sm_calm_inv L"
    by (rule sm_calm_inv_step [OF _ sm_calm [OF L(1) calm]]) (use inv in \<open>simp_all add: locked_inv_def\<close>)
  then show ?thesis
    using inv place [OF L(1)] data_inv_move [OF _ assms(4)] by (simp add: locked_inv_def L(2))
qed

lemma inv_event:
  assumes "locked_inv malloc n s" and "effect [n \<mapsto> stored s] e = Some [n \<mapsto> stored s]" and "\<And>r. l \<noteq> Logging_commit r"
    and "placed ((lt_at s)(f := l)) (lt_lock s)"
  shows "locked_inv malloc n (note_event f e (move_to f l s))"
  using assms data_inv_event [of n s e l f] by (simp add: locked_inv_def)

lemma inv_ask_wall:
  assumes "locked_inv malloc n s" and "placed ((lt_at s)(f := l)) (lt_lock s)"
    and "\<And>r. l = Logging_commit r \<Longrightarrow> stored s \<noteq> [] \<and> hd (stored s) = request_message r"
  shows "locked_inv malloc n (ask_wall f l s)"
  using assms by (auto simp: locked_inv_def data_inv_def stored_def)

lemma inv_change:
  assumes inv: "locked_inv malloc n s" and owner: "owns_write (lt_at s f)"
    and "mq_wf h q" and "effect [n \<mapsto> stored s] e = Some [n \<mapsto> mq_abs h q]"
  shows "locked_inv malloc n (note_event f e (move_to f Leaving_write
      ((log_and_release pad d f s)\<lparr>lt_heap := h, lt_queue := q\<rparr>)))"
proof -
  let ?t = "note_event f e (move_to f Leaving_write ((log_and_release pad d f s)\<lparr>lt_heap := h, lt_queue := q\<rparr>))"
  have calm: "sm_calm_inv (lt_lock s)" "placed (lt_at s) (lt_lock s)" using inv by (simp_all add: locked_inv_def)
  have "writes (lt_at s f)" "\<not> reads (lt_at s f)" "f \<in> set (sm_writers (lt_lock s))"
    using owner calm(2) by (auto simp: placed_def dest: places_exclude)
  then have "placed ((lt_at s)(f := Leaving_write)) (lt_lock s)" by (intro placed_move [OF calm(2)]) auto
  moreover have "run_history [n \<mapsto> []] (map snd (lt_history s @ [(f, e)])) = Some [n \<mapsto> mq_abs h q]"
    by (rule history_snoc [OF _ assms(4)]) (use inv in \<open>simp add: locked_inv_def data_inv_def\<close>)
  moreover have "lt_at ?t g \<noteq> Logging_commit r" for g r
    using sole_owner [OF calm owner, of g] by auto
  ultimately show ?thesis
    using inv assms(3) by (auto simp: locked_inv_def data_inv_def stored_def)
qed

lemma section_keeps_inv:
  assumes inv: "locked_inv malloc n s" and run: "section_step malloc pad i n f (lt_at s f) s = Some (Inr t)"
    and calm: "\<not> rushed f (lt_at s f) (lt_lock s)"
  shows "locked_inv malloc n t"
proof -
  have pl: "placed (lt_at s) (lt_lock s)" and wf: "mq_wf (lt_heap s) (lt_queue s)" and snd: "malloc_sound malloc"
    using inv by (simp_all add: locked_inv_def data_inv_def)
  note front = front_data_Inr [OF wf]
  show ?thesis
  proof (cases "lt_at s f")
    case (Asking_push r)
    show ?thesis
      by (rule inv_through_lock [OF inv run [unfolded Asking_push section_step.simps]])
        (use calm in \<open>auto simp: Asking_push rushed_def intro: placed_lock [OF pl]\<close>)
  next
    case (At_push r)
    with run have t: "f \<in> set (sm_writers (lt_lock s))" "t = ask_wall f (Logging_push r) s" by auto
    show ?thesis unfolding t(2)
      by (rule inv_ask_wall [OF inv placed_move [OF pl]]) (auto simp: At_push t(1))
  next
    case (Logging_push r)
    with run obtain m h q it where m: "view_read r (message_view r) = Inr m"
      and push: "mq_push malloc (lt_heap s) (lt_queue s) m = Inr (h, q, it)"
      and t: "t = note_event f (Pushed n m) (move_to f Leaving_write
          ((log_and_release pad (wall_data_for i True r) f s)\<lparr>lt_heap := h, lt_queue := q\<rparr>))"
      by (auto simp: Let_def result_simps)
    have "malloc (lt_heap s) (8 + length m) \<noteq> 0" using push mq_push_no_memory by fastforce
    from mq_push_rel_abs [OF wf snd this] push view_read_message_fits [OF m]
    have "mq_wf h q" "mq_abs h q = stored s @ [m]" by (auto simp: stored_def)
    then show ?thesis unfolding t by (intro inv_change [OF inv]) (auto simp: Logging_push)
  next
    case Asking_read
    show ?thesis
      by (rule inv_through_lock [OF inv run [unfolded Asking_read section_step.simps]])
        (auto simp: Asking_read intro: placed_lock_shared [OF pl])
  next
    case At_read
    have "placed ((lt_at s)(f := Leaving_read None)) (lt_lock s)" if "f \<in> set (sm_readers (lt_lock s))"
      by (rule placed_move [OF pl]) (auto simp: At_read that)
    moreover have "mq_empty (lt_queue s) \<longleftrightarrow> stored s = []" using mq_empty_iff [OF wf] by (simp add: stored_def)
    ultimately show ?thesis
      using run by (auto simp: At_read result_simps dest!: front split: if_splits list.splits intro!: inv_event [OF inv])
  next
    case (Asking_check r)
    show ?thesis
      by (rule inv_through_lock [OF inv run [unfolded Asking_check section_step.simps]])
        (auto simp: Asking_check intro: placed_lock_shared [OF pl])
  next
    case (At_check r)
    then have "placed ((lt_at s)(f := Leaving_read again)) (lt_lock s)" if "f \<in> set (sm_readers (lt_lock s))" for again
      by (intro placed_move [OF pl]) (auto simp: that)
    then show ?thesis
      using run by (auto simp: At_check result_simps dest!: front split: list.splits intro!: inv_event [OF inv])
  next
    case (Asking_commit r)
    show ?thesis
      by (rule inv_through_lock [OF inv run [unfolded Asking_commit section_step.simps]])
        (use calm in \<open>auto simp: Asking_commit rushed_def intro: placed_lock [OF pl]\<close>)
  next
    case (At_commit r)
    with run obtain d m where w: "f \<in> set (sm_writers (lt_lock s))" and d: "front_data s = Inr d"
      and m: "view_read r (message_view r) = Inr m"
      and t: "t = (if d \<noteq> m then note_event f (Removed n m False) (move_to f Leaving_write s) else ask_wall f (Logging_commit r) s)"
      by (auto simp: result_simps split: if_splits)
    have "placed ((lt_at s)(f := Leaving_write)) (lt_lock s)" "placed ((lt_at s)(f := Logging_commit r)) (lt_lock s)"
      by (rule placed_move [OF pl]; simp add: At_commit w)+
    then show ?thesis
      using front [OF d] m by (auto simp: t intro!: inv_event [OF inv] inv_ask_wall [OF inv] split: list.splits)
  next
    case (Logging_commit r)
    with run obtain h q where pop: "mq_pop (lt_heap s) (lt_queue s) = Inr (h, q)"
      and t: "t = note_event f (Removed n (request_message r) True) (move_to f Leaving_write
          ((log_and_release pad (wall_data_for i False r) f s)\<lparr>lt_heap := h, lt_queue := q\<rparr>))"
      by (auto simp: Let_def result_simps)
    have "stored s \<noteq> []" "hd (stored s) = request_message r"
      using inv Logging_commit by (auto simp: locked_inv_def data_inv_def)
    moreover have "mq_wf h q" "mq_abs h q = tl (stored s)" using mq_pop_wf [OF wf] pop by (auto simp: stored_def)
    ultimately show ?thesis unfolding t
      by (intro inv_change [OF inv]) (auto simp: Logging_commit split: list.split)
  next
    case Leaving_write
    show ?thesis
      by (rule inv_through_lock [OF inv run [unfolded Leaving_write section_step.simps]])
        (use calm in \<open>auto simp: Leaving_write rushed_def intro: placed_unlock [OF pl]\<close>)
  next
    case (Leaving_read again)
    show ?thesis
      by (rule inv_through_lock [OF inv run [unfolded Leaving_read section_step.simps]])
        (use calm in \<open>auto simp: Leaving_read rushed_def intro!: placed_unlock_shared [OF pl] split: option.split\<close>)
  next
    case Idle
    with run show ?thesis by simp
  qed
qed

lemma locked_inv_init: "locked_init malloc s \<Longrightarrow> locked_inv malloc n s"
  by (auto simp: locked_init_def locked_inv_def data_inv_def stored_def placed_def sm_start_def sm_calm_inv_def
      sm_inv_def sm_unlocked_def)

lemma locked_inv_step:
  assumes inv: "locked_inv malloc n s" and step: "locked_step True malloc pad i n s t"
  shows "locked_inv malloc n t"
  using step
proof (cases rule: locked_step.cases)
  case (fiber_calls f l)
  have pl: "placed (lt_at s) (lt_lock s)" using inv by (simp add: locked_inv_def)
  have "placed ((lt_at s)(f := l)) (lt_lock s)"
    by (rule placed_move [OF pl]) (use fiber_calls(3) in \<open>cases l; simp add: fiber_calls(2)\<close>)+
  moreover have "l \<noteq> Logging_commit r" for r using fiber_calls(3) by auto
  ultimately show ?thesis
    using inv by (auto simp: fiber_calls(1) locked_inv_def data_inv_def stored_def)
next
  case (fiber_runs f)
  then show ?thesis by (intro section_keeps_inv [OF inv]) auto
next
  case (waker_runs L)
  have "sm_calm_inv L"
    by (rule sm_calm_inv_step [OF _ sm_calm [OF waker_runs(2)]]) (use inv in \<open>simp_all add: locked_inv_def\<close>)
  moreover have "placed (lt_at s) L" using inv placed_wake [OF _ waker_runs(2)] by (simp add: locked_inv_def)
  ultimately show ?thesis using inv by (simp add: waker_runs(1) locked_inv_def data_inv_def stored_def)
qed

interpretation lk: invariant_system "locked_init malloc" "locked_step True malloc pad i n" "locked_inv malloc n"
  for malloc pad i n
  by unfold_locales (erule locked_inv_init, erule (1) locked_inv_step)

subsection \<open>Runs by schedule\<close>

datatype move = Call fiber location | Run fiber | Wake

fun perform :: "bool \<Rightarrow> allocator \<Rightarrow> byte list \<Rightarrow> move \<Rightarrow> locked_t \<Rightarrow> locked_t option" where
  "perform calm malloc n (Call f l) s = (if lt_at s f = Idle \<and> call_of l then Some (move_to f l s) else None)"
| "perform calm malloc n (Run f) s =
     (if calm \<and> rushed f (lt_at s f) (lt_lock s) then None
      else case section_step malloc 0 0 n f (lt_at s f) s of Some (Inr t) \<Rightarrow> Some t | _ \<Rightarrow> None)"
| "perform calm malloc n Wake s = map_option (\<lambda>L. s\<lparr>lt_lock := L\<rparr>) (sm_exec Wake_next (lt_lock s))"

fun run_moves :: "bool \<Rightarrow> allocator \<Rightarrow> byte list \<Rightarrow> move list \<Rightarrow> locked_t \<Rightarrow> locked_t option" where
  "run_moves calm malloc n [] s = Some s"
| "run_moves calm malloc n (m # ms) s = (case perform calm malloc n m s of None \<Rightarrow> None | Some t \<Rightarrow> run_moves calm malloc n ms t)"

lemma run_moves_append:
  "run_moves calm malloc n (ms @ ms') s = (case run_moves calm malloc n ms s of None \<Rightarrow> None | Some t \<Rightarrow> run_moves calm malloc n ms' t)"
  by (induction ms arbitrary: s) (auto split: option.split)

lemma perform_step: "perform calm malloc n m s = Some t \<Longrightarrow> locked_step calm malloc 0 0 n s t"
proof (cases m)
  case (Call f l)
  then show "perform calm malloc n m s = Some t \<Longrightarrow> locked_step calm malloc 0 0 n s t"
    by (auto intro: fiber_calls split: if_splits)
next
  case (Run f)
  then show "perform calm malloc n m s = Some t \<Longrightarrow> locked_step calm malloc 0 0 n s t"
    by (auto intro!: fiber_runs split: if_splits option.splits sum.splits)
next
  case Wake
  then show "perform calm malloc n m s = Some t \<Longrightarrow> locked_step calm malloc 0 0 n s t"
    by (auto simp: map_option_eq_Some intro: waker_runs)
qed

lemma run_moves_reachable:
  "reachable (locked_init malloc) (locked_step calm malloc 0 0 n) s \<Longrightarrow> run_moves calm malloc n ms s = Some t \<Longrightarrow>
     reachable (locked_init malloc) (locked_step calm malloc 0 0 n) t"
proof (induction ms arbitrary: s)
  case Nil
  then show ?case by simp
next
  case (Cons m ms)
  then obtain u where "perform calm malloc n m s = Some u" "run_moves calm malloc n ms u = Some t" by (auto split: option.splits)
  with Cons show ?case using reachable.next_state perform_step by metis
qed

text \<open>
  One fiber alone does what the operations of the topic do in one step. The topic of a state has
  this partition only.
\<close>

definition topic_of :: "locked_t \<Rightarrow> env_t \<times> topic_t" where
  "topic_of s = (\<lparr>en_heap = lt_heap s, en_files = lt_files s\<rparr>,
     \<lparr>tp_offset_id = 0, tp_wall_write = lt_writer s,
      tp_storage = [\<lparr>pt_queue = lt_queue s, pt_mutex = sm_mutex (lt_lock s)\<rparr>],
      tp_mutex = sm_unlocked, tp_wall_mutex = lt_wall s\<rparr>)"

definition quiet :: "locked_t \<Rightarrow> bool" where
  "quiet s \<longleftrightarrow> lt_lock s = sm_start \<and> lt_wall s = um_unlocked \<and> lt_logging s = []"

lemma log_and_release_eq:
  "log_and_release pad d f s = s\<lparr>lt_files := fst (store_raw (lt_writer s) (wall_data_image pad d) sizeof_wall_data (lt_files s)),
     lt_writer := snd (store_raw (lt_writer s) (wall_data_image pad d) sizeof_wall_data (lt_files s)),
     lt_wall := fst (um_unlock (lt_wall s)), lt_logging := remove1 f (lt_logging s) @ opt_list (snd (um_unlock (lt_wall s)))\<rparr>"
  by (simp add: log_and_release_def Let_def split: prod.split)

lemmas locked_op_defs = rushed_def through_lock_def once_def ask_wall_def move_to_def note_event_def log_and_release_eq front_data_def
  um_async_lock_def um_unlock_def um_unlocked_def sm_start_def sm_unlocked_def sm_op_defs dec_size_def opt_list_def
  request_message_def

lemmas topic_op_defs = storage_at_def set_storage_def await_write_def await_read_def partition_write_lock_def
  partition_read_lock_def release_write_def release_read_def sm_unlock_run_def topic_log_def partition_push_def partition_pop_def
  partition_front_def partition_empty_def

lemma push_alone:
  assumes "quiet s" and "lt_at s f = Idle" and "partition_id r = 0"
    and "topic_push malloc hash 0 f r (topic_of s) = Inr t"
  shows "\<exists>s'. run_moves calm malloc n [Call f (Asking_push r), Run f, Run f, Run f, Run f] s = Some s'
     \<and> quiet s' \<and> topic_of s' = t \<and> lt_history s' = lt_history s @ [(f, Pushed n (request_message r))]"
proof -
  obtain fs w where st: "store_raw (lt_writer s) (wall_data_image 0 (wall_data_for 0 True r)) sizeof_wall_data (lt_files s) = (fs, w)"
    by fastforce
  note defs = quiet_def topic_of_def topic_push_def push_index_def INVALID_TOPIC_ID_def topic_op_defs
  show ?thesis
  proof (cases "view_read r (message_view r)")
    case (Inl e)
    with assms st show ?thesis by (simp add: defs locked_op_defs)
  next
    case view: (Inr m)
    show ?thesis
    proof (cases "mq_push malloc (lt_heap s) (lt_queue s) m")
      case (Inl e)
      with assms st view show ?thesis by (simp add: defs locked_op_defs)
    next
      case (Inr p)
      with assms st view show ?thesis by (cases p) (auto simp: defs locked_op_defs)
    qed
  qed
qed

lemma read_alone:
  assumes "quiet s" and "lt_at s f = Idle" and "topic_read f 0 (topic_of s) = Inr (t, x)"
  shows "\<exists>s'. run_moves calm malloc n [Call f Asking_read, Run f, Run f, Run f] s = Some s'
     \<and> quiet s' \<and> topic_of s' = t \<and> lt_history s' = lt_history s @ [(f, Fetched n x)]"
proof -
  note defs = quiet_def topic_of_def topic_read_def INVALID_TOPIC_ID_def topic_op_defs kassert_defs
  show ?thesis
  proof (cases "mq_empty (lt_queue s)")
    case True
    with assms show ?thesis by (auto simp: defs locked_op_defs)
  next
    case False
    with assms show ?thesis
      by (cases "iter_deref (lt_heap s) (mq_front (lt_queue s))") (auto simp: defs locked_op_defs)
  qed
qed

lemma remove_alone:
  assumes "quiet s" and "lt_at s f = Idle" and "partition_id r = 0"
    and "topic_remove 0 f r (topic_of s) = Inr (t, found)"
  shows "\<exists>s'. run_moves calm malloc n ([Call f (Asking_check r), Run f, Run f, Run f] @ (if found then [Run f, Run f, Run f, Run f] else [])) s = Some s'
     \<and> quiet s' \<and> topic_of s' = t \<and> map snd (lt_history s') = map snd (lt_history s)
         @ (Compared n (request_message r) found # (if found then [Removed n (request_message r) True] else []))"
proof -
  obtain fs w where st: "store_raw (lt_writer s) (wall_data_image 0 (wall_data_for 0 False r)) sizeof_wall_data (lt_files s) = (fs, w)"
    by fastforce
  note defs = quiet_def topic_of_def topic_remove_def remove_check_def remove_commit_def INVALID_TOPIC_ID_def topic_op_defs kassert_defs
  show ?thesis
  proof (cases "iter_deref (lt_heap s) (mq_front (lt_queue s))")
    case (Inl e)
    with assms show ?thesis by (simp add: defs locked_op_defs)
  next
    case front: (Inr d)
    show ?thesis
    proof (cases "view_read r (message_view r)")
      case (Inl e)
      with assms front show ?thesis by (simp add: defs locked_op_defs)
    next
      case view: (Inr m)
      show ?thesis
      proof (cases "d = m")
        case False
        with assms front view show ?thesis by (auto simp: defs locked_op_defs)
      next
        case True
        with assms front view st show ?thesis
          by (cases "mq_pop (lt_heap s) (lt_queue s)") (auto simp: defs locked_op_defs)
      qed
    qed
  qed
qed

text \<open>An empty partition of a topic with a log file, and requests for it.\<close>

definition locked_empty :: "wall_writer_t \<Rightarrow> file_system \<Rightarrow> locked_t" where
  "locked_empty w fs = \<lparr>lt_lock = sm_start, lt_wall = um_unlocked, lt_logging = [], lt_writer = w, lt_files = fs,
     lt_heap = Map.empty, lt_queue = mq_empty_queue, lt_at = (\<lambda>_. Idle), lt_history = []\<rparr>"

definition locked_request :: "byte list \<Rightarrow> request_t" where
  "locked_request m = \<lparr>rq_base = 0, rq_bytes = request_image (lit ''t'') 0 m\<rparr>"

lemma locked_request_view [simp]:
  "length m < 65536 \<Longrightarrow> view_read (locked_request m) (message_view (locked_request m)) = Inr m"
  by (rule request_image_views(2) [of _ "lit ''t''" 0 m "[]"]) (simp_all add: locked_request_def)

text \<open>
  Fiber 1 pushes \<open>a\<close>. Fibers 4 and 5 remove \<open>a\<close>: both find it in front and are about to ask for the
  write lock. Fiber 1 pushes \<open>b\<close>, and while it holds the lock, fibers 2 and 3 come to read. Fiber
  1 releases and wakes 2; before its loop goes on, 2 reads and releases, and 4 is given the
  write lock. Now the loop wakes 3 beside 4; 5 waits; 3 reads, and its release admits 5. Both
  writers compare with \<open>a\<close> and ask for \<open>wall_mutex_\<close>, one after the other log the removal of
  \<open>a\<close>, and each of them pops.
\<close>

definition losing_moves :: "move list" where
  "losing_moves =
     [Call 1 (Asking_push (locked_request (lit ''a''))), Run 1, Run 1, Run 1, Run 1,
      Call 4 (Asking_check (locked_request (lit ''a''))), Run 4, Run 4, Run 4,
      Call 5 (Asking_check (locked_request (lit ''a''))), Run 5, Run 5, Run 5,
      Call 1 (Asking_push (locked_request (lit ''b''))), Run 1, Run 1, Run 1]
   @ [Call 2 Asking_read, Run 2, Call 3 Asking_read, Run 3, Run 1, Run 2, Run 2, Run 4, Wake, Run 5, Run 3, Run 3]
   @ [Run 4, Run 5, Run 4, Run 5, Run 4, Run 5, Wake]"

lemma losing_run:
  assumes push: "mq_push malloc Map.empty mq_empty_queue (lit ''a'') = Inr (h1, q1, i1)"
    "mq_push malloc h1 q1 (lit ''b'') = Inr (h2, q2, i2)"
    and pop: "mq_pop h2 q2 = Inr (h3, q3)" "mq_pop h3 q3 = Inr (h4, q4)"
    and front: "iter_deref h1 (mq_front q1) = Inr (lit ''a'')" "iter_deref h2 (mq_front q2) = Inr (lit ''a'')"
    and "\<not> mq_empty q2"
  obtains s where "run_moves False malloc n losing_moves (locked_empty w fs) = Some s"
    and "lt_lock s = sm_start" and "lt_heap s = h4" and "lt_queue s = q4" and "\<forall>f. lt_at s f = Idle"
    and "map snd (lt_history s) = [Pushed n (lit ''a''), Compared n (lit ''a'') True, Compared n (lit ''a'') True,
         Pushed n (lit ''b''), Fetched n (Some (lit ''a'')), Fetched n (Some (lit ''a'')),
         Removed n (lit ''a'') True, Removed n (lit ''a'') True]"
proof -
  have "\<exists>s. run_moves False malloc n losing_moves (locked_empty w fs) = Some s \<and> lt_lock s = sm_start \<and> lt_heap s = h4 \<and> lt_queue s = q4
     \<and> (\<forall>f. lt_at s f = Idle)
     \<and> map snd (lt_history s) = [Pushed n (lit ''a''), Compared n (lit ''a'') True, Compared n (lit ''a'') True,
         Pushed n (lit ''b''), Fetched n (Some (lit ''a'')), Fetched n (Some (lit ''a'')),
         Removed n (lit ''a'') True, Removed n (lit ''a'') True]"
    using assms by (simp add: losing_moves_def locked_empty_def locked_op_defs)
  then show thesis by (elim exE conjE) (rule that)
qed

definition calm_moves :: "move list" where
  "calm_moves = [Call 1 (Asking_push (locked_request (lit ''a''))), Run 1, Run 1, Run 1, Call 2 Asking_read, Run 2, Run 1, Run 2, Run 2, Wake]"

lemma calm_run:
  assumes "mq_push malloc Map.empty mq_empty_queue (lit ''a'') = Inr (h1, q1, i1)"
    and "iter_deref h1 (mq_front q1) = Inr (lit ''a'')" and "\<not> mq_empty q1"
  obtains s where "run_moves True malloc n calm_moves (locked_empty w fs) = Some s"
    and "map snd (lt_history s) = [Pushed n (lit ''a''), Fetched n (Some (lit ''a''))]"
proof -
  have "\<exists>s. run_moves True malloc n calm_moves (locked_empty w fs) = Some s
     \<and> map snd (lt_history s) = [Pushed n (lit ''a''), Fetched n (Some (lit ''a''))]"
    using assms by (simp add: calm_moves_def locked_empty_def locked_op_defs)
  then show thesis by (elim exE conjE) (rule that)
qed

subsection \<open>Properties\<close>

text \<open>
  A fiber that meets nobody does what the topic's operations do. On a free partition, the pieces
  of \<open>push\<close>, \<open>read\<close> and \<open>remove\<close>, run one after the other through all lock requests, grants and
  releases, leave the heap, the log, the queue and the locks as \<open>topic_push\<close>, \<open>topic_read\<close> and
  \<open>topic_remove\<close> do, with the same result.
\<close>

lemma sections_alone_equal_topic:
  assumes "quiet s" and "lt_at s f = Idle" and "partition_id r = 0"
  shows "(topic_push malloc hash 0 f r (topic_of s) = Inr t \<longrightarrow>
       (\<exists>s'. run_moves calm malloc n [Call f (Asking_push r), Run f, Run f, Run f, Run f] s = Some s'
          \<and> quiet s' \<and> topic_of s' = t \<and> lt_history s' = lt_history s @ [(f, Pushed n (request_message r))]))
     \<and> (topic_read f 0 (topic_of s) = Inr (t, x) \<longrightarrow>
       (\<exists>s'. run_moves calm malloc n [Call f Asking_read, Run f, Run f, Run f] s = Some s'
          \<and> quiet s' \<and> topic_of s' = t \<and> lt_history s' = lt_history s @ [(f, Fetched n x)]))
     \<and> (topic_remove 0 f r (topic_of s) = Inr (t, found) \<longrightarrow>
       (\<exists>s'. run_moves calm malloc n
            ([Call f (Asking_check r), Run f, Run f, Run f] @ (if found then [Run f, Run f, Run f, Run f] else [])) s = Some s'
          \<and> quiet s' \<and> topic_of s' = t \<and> map snd (lt_history s') = map snd (lt_history s)
              @ (Compared n (request_message r) found # (if found then [Removed n (request_message r) True] else []))))"
  using push_alone [OF assms] read_alone [OF assms(1,2)] remove_alone [OF assms] by blast

lemma sections_alone_equal_topic_witness:
  "\<exists>s'. run_moves True small_malloc (lit ''t'') [Call 1 Asking_read, Run 1, Run 1, Run 1] (locked_empty \<lparr>ww_path = lit ''t'', ww_pos = 0, ww_mutex = um_unlocked\<rparr> Map.empty) = Some s'
     \<and> topic_of s' = topic_of (locked_empty \<lparr>ww_path = lit ''t'', ww_pos = 0, ww_mutex = um_unlocked\<rparr> Map.empty) \<and> lt_history s' = [(1, Fetched (lit ''t'') None)]"
proof -
  have q: "quiet (locked_empty \<lparr>ww_path = lit ''t'', ww_pos = 0, ww_mutex = um_unlocked\<rparr> Map.empty)" "lt_at (locked_empty \<lparr>ww_path = lit ''t'', ww_pos = 0, ww_mutex = um_unlocked\<rparr> Map.empty) 1 = Idle" "partition_id (locked_request []) = 0"
    "lt_history (locked_empty \<lparr>ww_path = lit ''t'', ww_pos = 0, ww_mutex = um_unlocked\<rparr> Map.empty) = []"
    by (simp_all add: quiet_def locked_empty_def locked_request_def request_image_def partition_id_def)
  have rd: "topic_read 1 0 (topic_of (locked_empty \<lparr>ww_path = lit ''t'', ww_pos = 0, ww_mutex = um_unlocked\<rparr> Map.empty)) = Inr (topic_of (locked_empty \<lparr>ww_path = lit ''t'', ww_pos = 0, ww_mutex = um_unlocked\<rparr> Map.empty), None)"
    by (simp add: topic_of_def locked_empty_def topic_read_def INVALID_TOPIC_ID_def topic_op_defs kassert_defs sm_start_def
        sm_unlocked_def sm_op_defs mq_empty_def mq_empty_queue_def dec_size_def)
  note alone = sections_alone_equal_topic [OF q(1-3), where malloc = small_malloc and calm = True and n = "lit ''t''",
      THEN conjunct2, THEN conjunct1, THEN mp, OF rd, unfolded q(4) append_Nil]
  then show ?thesis by (elim exE conjE) (intro exI conjI)
qed

text \<open>
  Under the lock, critical sections are atomic. In every run in which no writer is let in
  in the middle of a wake-up loop, with suspensions at both mutexes, the pushes, reads,
  comparisons and removals have, in the order in which they happened, the effects the abstract
  broker gives them, on exactly the messages that are in the queue; so what was pushed is
  what was removed, in order, followed by what is stored.
\<close>

lemma calm_sections_linearize:
  assumes "reachable (locked_init malloc) (locked_step True malloc pad i n) s"
  shows "mq_wf (lt_heap s) (lt_queue s)
     \<and> run_history [n \<mapsto> []] (map snd (lt_history s)) = Some [n \<mapsto> mq_abs (lt_heap s) (lt_queue s)]
     \<and> pushes n (map snd (lt_history s)) = removals n (map snd (lt_history s)) @ mq_abs (lt_heap s) (lt_queue s)"
proof -
  have inv: "data_inv n s" using lk.reachable_inv [OF assms] by (simp add: locked_inv_def)
  then have run: "run_history [n \<mapsto> []] (map snd (lt_history s)) = Some [n \<mapsto> stored s]" by (simp add: data_inv_def)
  from run_history_balance [OF this, of n] inv show ?thesis
    by (simp add: data_inv_def stored_def messages_of_def)
qed

lemma locked_empty_init: "malloc_sound malloc \<Longrightarrow> reachable (locked_init malloc) (locked_step calm malloc pad i n) (locked_empty w fs)"
  by (rule reachable.start) (simp add: locked_init_def locked_empty_def)

lemma calm_sections_linearize_witness:
  "\<exists>s. run_moves True small_malloc (lit ''t'') calm_moves (locked_empty \<lparr>ww_path = lit ''t'', ww_pos = 0, ww_mutex = um_unlocked\<rparr> Map.empty) = Some s
     \<and> map snd (lt_history s) = [Pushed (lit ''t'') (lit ''a''), Fetched (lit ''t'') (Some (lit ''a''))]
     \<and> mq_abs (lt_heap s) (lt_queue s) = [lit ''a'']"
proof -
  have "small_malloc Map.empty (8 + length (lit ''a'')) \<noteq> 0" by (simp add: small_malloc_def)
  from mq_push_rel_abs [OF mq_wf_empty small_malloc_sound this] obtain h q where
    push: "mq_push small_malloc Map.empty mq_empty_queue (lit ''a'') = Inr (h, q, mq_begin q)" "mq_wf h q" "mq_abs h q = [lit ''a'']"
    by auto
  have front: "iter_deref h (mq_front q) = Inr (lit ''a'')" "\<not> mq_empty q"
    using iter_deref_front [OF push(2)] mq_empty_iff [OF push(2)] push(3) by auto
  obtain s where s: "run_moves True small_malloc (lit ''t'') calm_moves (locked_empty \<lparr>ww_path = lit ''t'', ww_pos = 0, ww_mutex = um_unlocked\<rparr> Map.empty) = Some s"
    "map snd (lt_history s) = [Pushed (lit ''t'') (lit ''a''), Fetched (lit ''t'') (Some (lit ''a''))]"
    by (rule calm_run [OF push(1) front])
  note balance = calm_sections_linearize [OF run_moves_reachable [OF locked_empty_init [OF small_malloc_sound] s(1)],
      THEN conjunct2, THEN conjunct2, unfolded s(2)]
  have "pushes (lit ''t'') [Pushed (lit ''t'') (lit ''a''), Fetched (lit ''t'') (Some (lit ''a''))] = [lit ''a'']"
    "removals (lit ''t'') [Pushed (lit ''t'') (lit ''a''), Fetched (lit ''t'') (Some (lit ''a''))] = []"
    by simp_all
  with balance have "mq_abs (lt_heap s) (lt_queue s) = [lit ''a'']" by (simp only: append_Nil)
  with s show ?thesis by (intro exI [of _ s] conjI)
qed

text \<open>
  Without that restriction a message is lost. Two messages are pushed and two requests to
  remove the first of them overlap with a reader that is woken late; both removals report
  success, the queue ends up empty and the lock free, and nobody has ever seen or asked
  for the second message.
\<close>

lemma wake_loop_loses_message:
  "\<exists>s. reachable (locked_init small_malloc) (locked_step False small_malloc 0 0 n) s
     \<and> (\<forall>f. lt_at s f = Idle) \<and> lt_lock s = sm_start \<and> mq_wf (lt_heap s) (lt_queue s) \<and> mq_abs (lt_heap s) (lt_queue s) = []
     \<and> pushes n (map snd (lt_history s)) = [lit ''a'', lit ''b'']
     \<and> removals n (map snd (lt_history s)) = [lit ''a'', lit ''a'']
     \<and> Fetched n (Some (lit ''b'')) \<notin> set (map snd (lt_history s))"
proof -
  have ne: "small_malloc Map.empty (8 + length (lit ''a'')) \<noteq> 0" by (simp add: small_malloc_def)
  from mq_push_rel_abs [OF mq_wf_empty small_malloc_sound this] obtain h1 q1 where
    p1: "mq_push small_malloc Map.empty mq_empty_queue (lit ''a'') = Inr (h1, q1, mq_begin q1)" "mq_wf h1 q1" "mq_abs h1 q1 = [lit ''a'']"
    by auto
  have "h1 = [small_malloc Map.empty 9 \<mapsto> message_ctor (lit ''a'')]"
    using p1(1) by (auto simp: mq_push_def mq_empty_queue_def create_message_def sizeof_message_def Let_def split: if_splits)
  then have "small_malloc h1 (8 + length (lit ''b'')) \<noteq> 0" by (auto simp: small_malloc_def)
  from mq_push_rel_abs [OF p1(2) small_malloc_sound this] obtain h2 q2 where
    p2: "mq_push small_malloc h1 q1 (lit ''b'') = Inr (h2, q2, mq_begin q2)" "mq_wf h2 q2" "mq_abs h2 q2 = [lit ''a'', lit ''b'']"
    using p1(3) by auto
  obtain h3 q3 where p3: "mq_pop h2 q2 = Inr (h3, q3)" "mq_wf h3 q3" "mq_abs h3 q3 = [lit ''b'']"
    using mq_pop_wf [OF p2(2)] p2(3) by auto
  obtain h4 q4 where p4: "mq_pop h3 q3 = Inr (h4, q4)" "mq_wf h4 q4" "mq_abs h4 q4 = []"
    using mq_pop_wf [OF p3(2)] p3(3) by auto
  have fr: "iter_deref h1 (mq_front q1) = Inr (lit ''a'')" "iter_deref h2 (mq_front q2) = Inr (lit ''a'')" "\<not> mq_empty q2"
    using iter_deref_front [OF p1(2)] iter_deref_front [OF p2(2)] mq_empty_iff [OF p2(2)] p1(3) p2(3) by auto
  obtain s where s: "run_moves False small_malloc n losing_moves (locked_empty \<lparr>ww_path = [], ww_pos = 0, ww_mutex = um_unlocked\<rparr> Map.empty) = Some s"
    "lt_lock s = sm_start" "lt_heap s = h4" "lt_queue s = q4" "\<forall>f. lt_at s f = Idle"
    and hist: "map snd (lt_history s) = [Pushed n (lit ''a''), Compared n (lit ''a'') True, Compared n (lit ''a'') True,
         Pushed n (lit ''b''), Fetched n (Some (lit ''a'')), Fetched n (Some (lit ''a'')),
         Removed n (lit ''a'') True, Removed n (lit ''a'') True]"
    by (rule losing_run [OF p1(1) p2(1) p3(1) p4(1) fr])
  have "pushes n (map snd (lt_history s)) = [lit ''a'', lit ''b'']" "removals n (map snd (lt_history s)) = [lit ''a'', lit ''a'']"
    "Fetched n (Some (lit ''b'')) \<notin> set (map snd (lt_history s))"
    unfolding hist by (simp_all add: lit_def)
  with run_moves_reachable [OF locked_empty_init [OF small_malloc_sound] s(1)] s(2-5) p4(2,3) show ?thesis by blast
qed

end
