(* ===== verification/PartitionProgress.thy ===== *)
theory PartitionProgress
  imports LockedPartition
begin

section \<open>No deadlock on a partition\<close>

text \<open>
  The operations of a partition take the reader-writer lock and, inside it, \<open>wall_mutex_\<close>. Here it
  is shown, for all runs and not only the calm ones, that this cannot deadlock, and that the
  operations under way end in a bounded number of steps once no new ones begin.
\<close>

subsection \<open>Who waits for what\<close>

fun logs :: "location \<Rightarrow> bool" where
  "logs (Logging_push r) = True"
| "logs (Logging_commit r) = True"
| "logs l = False"

text \<open>Every fiber in a critical section, or on its way into one, is a holder or a waiter of the lock.\<close>

definition registered :: "(fiber \<Rightarrow> location) \<Rightarrow> sm_sys \<Rightarrow> bool" where
  "registered at L \<longleftrightarrow>
     (\<forall>f. writes (at f) \<longrightarrow> f \<in> set (sm_writers L) \<union> set (sm_unique_waiters (sm_mutex L)))
   \<and> (\<forall>f. reads (at f) \<longrightarrow> f \<in> set (sm_readers L) \<union> set (sm_shared_waiters (sm_mutex L)))"

definition wall_inv :: "locked_t \<Rightarrow> bool" where
  "wall_inv s \<longleftrightarrow>
     um_locked (lt_wall s) = (lt_logging s \<noteq> []) \<and> length (lt_logging s) \<le> 1
   \<and> (lt_logging s = [] \<longrightarrow> um_waiters (lt_wall s) = [])
   \<and> (\<forall>f. logs (lt_at s f) \<longleftrightarrow> f \<in> set (lt_logging s) \<union> set (um_waiters (lt_wall s)))
   \<and> distinct (lt_logging s @ um_waiters (lt_wall s))"

definition active :: "(fiber \<Rightarrow> location) \<Rightarrow> fiber set" where
  "active at = {f. at f \<noteq> Idle}"

definition progress_inv :: "locked_t \<Rightarrow> bool" where
  "progress_inv s \<longleftrightarrow> sm_inv (lt_lock s) \<and> placed (lt_at s) (lt_lock s) \<and> registered (lt_at s) (lt_lock s)
     \<and> wall_inv s \<and> finite (active (lt_at s))"

lemma finite_active: "finite (active at) \<Longrightarrow> finite (active (at(f := l)))"
  by (rule finite_subset [of _ "insert f (active at)"]) (auto simp: active_def)

lemma registered_move:
  "registered at L \<Longrightarrow> writes l = writes (at f) \<Longrightarrow> reads l = reads (at f) \<Longrightarrow> registered (at(f := l)) L"
  by (auto simp: registered_def)

lemma registered_lock:
  "registered at L \<Longrightarrow> sm_exec (Lock f) L = Some L' \<Longrightarrow> writes l \<Longrightarrow> registered (at(f := l)) L'"
  by (auto simp: registered_def sm_op_defs dest: places_exclude split: if_splits)

lemma registered_lock_shared:
  "registered at L \<Longrightarrow> sm_exec (Lock_shared f) L = Some L' \<Longrightarrow> reads l \<Longrightarrow> registered (at(f := l)) L'"
  by (auto simp: registered_def sm_op_defs dest: places_exclude split: if_splits)

lemma in_set_remove1: "g \<noteq> f \<Longrightarrow> g \<in> set xs \<Longrightarrow> g \<in> set (remove1 f xs)"
  by simp

lemma registered_unlock:
  assumes "registered at L" and "sm_exec (Unlock_write f) L = Some L'" and "\<not> writes l" and "\<not> reads l"
  shows "registered (at(f := l)) L'"
  using assms by (auto simp: registered_def sm_op_defs intro: in_set_remove1 split: if_splits list.splits)

lemma registered_unlock_shared:
  assumes "registered at L" and "sm_exec (Unlock_read f) L = Some L'" and "\<not> writes l" and "\<not> reads l"
  shows "registered (at(f := l)) L'"
  using assms by (auto simp: registered_def sm_op_defs intro: in_set_remove1 split: if_splits list.splits)

lemma registered_wake: "registered at L \<Longrightarrow> sm_exec Wake_next L = Some L' \<Longrightarrow> registered at L'"
  by (auto simp: registered_def sm_op_defs split: if_splits list.splits)

lemma wall_fields [simp]:
  "lt_wall (move_to f l s) = lt_wall s" "lt_logging (move_to f l s) = lt_logging s"
  "lt_wall (note_event f e s) = lt_wall s" "lt_logging (note_event f e s) = lt_logging s"
  by (simp_all add: move_to_def note_event_def)

lemma wall_inv_move:
  assumes "wall_inv s" and "lt_wall t = lt_wall s" and "lt_logging t = lt_logging s" and "lt_at t = (lt_at s)(f := l)"
    and "logs l = logs (lt_at s f)"
  shows "wall_inv t"
  using assms by (auto simp: wall_inv_def)

lemma wall_inv_ask:
  assumes "wall_inv s" and "\<not> logs (lt_at s f)" and "logs l"
  shows "wall_inv (ask_wall f l s)"
proof -
  have "f \<notin> set (lt_logging s) \<union> set (um_waiters (lt_wall s))" using assms(1,2) by (auto simp: wall_inv_def)
  then show ?thesis
    using assms by (cases "um_locked (lt_wall s)") (auto simp: wall_inv_def ask_wall_def um_async_lock_def move_to_def)
qed

lemma wall_inv_release:
  assumes "wall_inv s" and "f \<in> set (lt_logging s)" and "\<not> logs l"
    and "lt_wall t = lt_wall (log_and_release pad d f s)" and "lt_logging t = lt_logging (log_and_release pad d f s)"
    and "lt_at t = (lt_at s)(f := l)"
  shows "wall_inv t"
proof -
  have "lt_logging s = [f]" using assms(1,2) by (cases "lt_logging s") (auto simp: wall_inv_def)
  then show ?thesis
    using assms by (cases "um_waiters (lt_wall s)") (auto simp: wall_inv_def log_and_release_eq um_unlock_def)
qed

subsection \<open>The invariant\<close>

lemma progress_through_lock:
  assumes inv: "progress_inv s" and run: "through_lock e f l s = Some (Inr t)" and "logs l = logs (lt_at s f)"
    and "\<And>L. sm_exec e (lt_lock s) = Some L \<Longrightarrow> placed ((lt_at s)(f := l)) L \<and> registered ((lt_at s)(f := l)) L"
  shows "progress_inv t"
proof -
  from run obtain L where L: "sm_exec e (lt_lock s) = Some L" "t = move_to f l (s\<lparr>lt_lock := L\<rparr>)"
    by (auto simp: through_lock_Some)
  have "sm_inv L" using inv sm_inv_exec [OF _ L(1)] by (simp add: progress_inv_def)
  moreover have "wall_inv t"
    by (rule wall_inv_move [where s = s and f = f and l = l]) (use inv assms(3) in \<open>simp_all add: progress_inv_def L(2)\<close>)
  ultimately show ?thesis
    using inv assms(4) [OF L(1)] by (simp add: progress_inv_def L(2) finite_active)
qed

lemma progress_move:
  assumes inv: "progress_inv s" and "lt_lock t = lt_lock s" and "lt_at t = (lt_at s)(f := l)" and "wall_inv t"
    and "writes l = writes (lt_at s f)" and "reads l = reads (lt_at s f)"
    and "owns_write l \<longrightarrow> f \<in> set (sm_writers (lt_lock s))" and "owns_read l \<longrightarrow> f \<in> set (sm_readers (lt_lock s))"
  shows "progress_inv t"
  using assms placed_move [of "lt_at s" "lt_lock s" l f] registered_move [of "lt_at s" "lt_lock s" l f]
  by (simp add: progress_inv_def finite_active)

lemma progress_event:
  assumes "progress_inv s" and "writes l = writes (lt_at s f)" and "reads l = reads (lt_at s f)" and "logs l = logs (lt_at s f)"
    and "owns_write l \<longrightarrow> f \<in> set (sm_writers (lt_lock s))" and "owns_read l \<longrightarrow> f \<in> set (sm_readers (lt_lock s))"
  shows "progress_inv (note_event f e (move_to f l s))"
proof (rule progress_move [OF assms(1), where f = f and l = l])
  show "wall_inv (note_event f e (move_to f l s))"
    by (rule wall_inv_move [where s = s and f = f and l = l]) (use assms in \<open>simp_all add: progress_inv_def\<close>)
qed (use assms in simp_all)

lemma section_keeps_progress:
  assumes inv: "progress_inv s" and run: "section_step malloc pad i n f (lt_at s f) s = Some (Inr t)"
  shows "progress_inv t"
proof -
  have pl: "placed (lt_at s) (lt_lock s)" and reg: "registered (lt_at s) (lt_lock s)" and wall: "wall_inv s"
    using inv by (simp_all add: progress_inv_def)
  note lock = progress_through_lock [OF inv]
  show ?thesis
  proof (cases "lt_at s f")
    case (Asking_push r)
    show ?thesis by (rule lock [OF run [unfolded Asking_push section_step.simps]])
        (auto simp: Asking_push intro: placed_lock [OF pl] registered_lock [OF reg])
  next
    case (At_push r)
    with run have t: "f \<in> set (sm_writers (lt_lock s))" "t = ask_wall f (Logging_push r) s" by auto
    show ?thesis unfolding t(2)
      by (rule progress_move [OF inv, where f = f and l = "Logging_push r"])
        (simp_all add: At_push t(1) wall_inv_ask [OF wall])
  next
    case (Logging_push r)
    with run obtain m h q where f: "f \<in> set (lt_logging s)" and t: "t = note_event f (Pushed n m) (move_to f Leaving_write
          ((log_and_release pad (wall_data_for i True r) f s)\<lparr>lt_heap := h, lt_queue := q\<rparr>))"
      by (auto simp: Let_def result_simps)
    have "f \<in> set (sm_writers (lt_lock s))" using pl Logging_push by (auto simp: placed_def)
    moreover have "wall_inv t"
      by (rule wall_inv_release [OF wall f, where l = Leaving_write and pad = pad and d = "wall_data_for i True r"]) (simp_all add: t)
    ultimately show ?thesis
      by (intro progress_move [OF inv, where f = f and l = Leaving_write]) (simp_all add: Logging_push t)
  next
    case Asking_read
    show ?thesis by (rule lock [OF run [unfolded Asking_read section_step.simps]])
        (auto simp: Asking_read intro: placed_lock_shared [OF pl] registered_lock_shared [OF reg])
  next
    case At_read
    with run show ?thesis by (auto simp: result_simps intro!: progress_event [OF inv] split: if_splits)
  next
    case (Asking_check r)
    show ?thesis by (rule lock [OF run [unfolded Asking_check section_step.simps]])
        (auto simp: Asking_check intro: placed_lock_shared [OF pl] registered_lock_shared [OF reg])
  next
    case (At_check r)
    with run show ?thesis by (auto simp: result_simps intro!: progress_event [OF inv])
  next
    case (Asking_commit r)
    show ?thesis by (rule lock [OF run [unfolded Asking_commit section_step.simps]])
        (auto simp: Asking_commit intro: placed_lock [OF pl] registered_lock [OF reg])
  next
    case (At_commit r)
    with run have w: "f \<in> set (sm_writers (lt_lock s))"
      and t: "t = ask_wall f (Logging_commit r) s \<or> (\<exists>m. t = note_event f (Removed n m False) (move_to f Leaving_write s))"
      by (auto simp: result_simps split: if_splits)
    have "progress_inv (ask_wall f (Logging_commit r) s)"
      by (rule progress_move [OF inv, where f = f and l = "Logging_commit r"])
        (simp_all add: At_commit w wall_inv_ask [OF wall])
    moreover have "progress_inv (note_event f (Removed n m False) (move_to f Leaving_write s))" for m
      by (rule progress_event [OF inv]) (simp_all add: At_commit w)
    ultimately show ?thesis using t by auto
  next
    case (Logging_commit r)
    with run obtain h q where f: "f \<in> set (lt_logging s)"
      and t: "t = note_event f (Removed n (request_message r) True) (move_to f Leaving_write
          ((log_and_release pad (wall_data_for i False r) f s)\<lparr>lt_heap := h, lt_queue := q\<rparr>))"
      by (auto simp: Let_def result_simps)
    have "f \<in> set (sm_writers (lt_lock s))" using pl Logging_commit by (auto simp: placed_def)
    moreover have "wall_inv t"
      by (rule wall_inv_release [OF wall f, where l = Leaving_write and pad = pad and d = "wall_data_for i False r"]) (simp_all add: t)
    ultimately show ?thesis
      by (intro progress_move [OF inv, where f = f and l = Leaving_write]) (simp_all add: Logging_commit t)
  next
    case Leaving_write
    show ?thesis by (rule lock [OF run [unfolded Leaving_write section_step.simps]])
        (auto simp: Leaving_write intro: placed_unlock [OF pl] registered_unlock [OF reg])
  next
    case (Leaving_read again)
    show ?thesis by (rule lock [OF run [unfolded Leaving_read section_step.simps]])
        (auto simp: Leaving_read intro!: placed_unlock_shared [OF pl] registered_unlock_shared [OF reg] split: option.split)
  next
    case Idle
    with run show ?thesis by simp
  qed
qed

lemma progress_inv_init: "locked_init malloc s \<Longrightarrow> progress_inv s"
  by (auto simp: locked_init_def progress_inv_def placed_def registered_def wall_inv_def active_def sm_start_def
      sm_inv_def sm_unlocked_def um_unlocked_def)

lemma progress_inv_step:
  assumes inv: "progress_inv s" and step: "locked_step calm malloc pad i n s t"
  shows "progress_inv t"
  using step
proof (cases rule: locked_step.cases)
  case (fiber_calls f l)
  have l: "\<not> writes l" "\<not> reads l" "\<not> logs l" "\<not> owns_write l" "\<not> owns_read l"
    using fiber_calls(3) by (cases l; simp)+
  have "wall_inv t"
    by (rule wall_inv_move [where s = s and f = f and l = l]) (use inv in \<open>simp_all add: fiber_calls(1,2) l progress_inv_def\<close>)
  then show ?thesis
    by (intro progress_move [OF inv, where f = f and l = l]) (simp_all add: fiber_calls(1,2) l)
next
  case (fiber_runs f)
  then show ?thesis by (intro section_keeps_progress [OF inv])
next
  case (waker_runs L)
  have "sm_inv L" using inv sm_inv_exec [OF _ waker_runs(2)] by (simp add: progress_inv_def)
  moreover have "wall_inv t" using inv by (simp add: waker_runs(1) progress_inv_def wall_inv_def)
  ultimately show ?thesis
    using inv placed_wake [OF _ waker_runs(2)] registered_wake [OF _ waker_runs(2)] by (simp add: waker_runs(1) progress_inv_def)
qed

interpretation lp: invariant_system "locked_init malloc" "locked_step calm malloc pad i n" progress_inv
  for malloc calm pad i n
  by unfold_locales (erule progress_inv_init, erule (1) progress_inv_step)

subsection \<open>Somebody can always go on\<close>

lemma list_emptyI: "(\<And>x. x \<notin> set xs) \<Longrightarrow> xs = []"
  by (cases xs) auto

lemma unlock_write_defined: "h \<in> set (sm_writers L) \<Longrightarrow> sm_exec (Unlock_write h) L \<noteq> None"
  by (auto simp: Let_def split: prod.split woken.split)

lemma unlock_read_defined: "h \<in> set (sm_readers L) \<Longrightarrow> sm_exec (Unlock_read h) L \<noteq> None"
  by (auto split: prod.split)

lemma wake_defined: "sm_exec Wake_next L \<noteq> None \<longleftrightarrow> sm_wakers L \<noteq> 0"
  by (auto split: prod.split option.split)

lemma asking_runs:
  "section_step malloc pad i n f (Asking_push r) s \<noteq> None" "section_step malloc pad i n f Asking_read s \<noteq> None"
  "section_step malloc pad i n f (Asking_check r) s \<noteq> None" "section_step malloc pad i n f (Asking_commit r) s \<noteq> None"
  by (simp_all add: through_lock_def split: prod.split)

lemma writer_runs:
  assumes "f \<in> set (sm_writers (lt_lock s))" and "writes l" and "\<not> logs l"
  shows "section_step malloc pad i n f l s \<noteq> None"
  using assms unlock_write_defined [OF assms(1)]
  by (cases l) (simp_all add: once_def through_lock_def del: sm_exec.simps)

lemma reader_runs:
  assumes "f \<in> set (sm_readers (lt_lock s))" and "reads l"
  shows "section_step malloc pad i n f l s \<noteq> None"
  using assms unlock_read_defined [OF assms(1)]
  by (cases l) (simp_all add: once_def through_lock_def del: sm_exec.simps)

lemma logger_runs: "f \<in> set (lt_logging s) \<Longrightarrow> logs l \<Longrightarrow> section_step malloc pad i n f l s \<noteq> None"
  by (cases l) (simp_all add: once_def)

lemma location_cases: "l = Idle \<or> writes l \<or> reads l \<or> section_step malloc pad i n f l s \<noteq> None"
  by (cases l) (simp_all add: asking_runs del: section_step.simps)

text \<open>Nobody can go on, the wake-up loop included.\<close>

definition stuck :: "allocator \<Rightarrow> nat \<Rightarrow> u16 \<Rightarrow> byte list \<Rightarrow> locked_t \<Rightarrow> bool" where
  "stuck malloc pad i n s \<longleftrightarrow>
     (\<forall>f. section_step malloc pad i n f (lt_at s f) s = None) \<and> sm_exec Wake_next (lt_lock s) = None"

lemma stuck_unlogged:
  assumes "progress_inv s" and "stuck malloc pad i n s"
  shows "lt_logging s = [] \<and> \<not> logs (lt_at s f)"
proof -
  have wall: "wall_inv s" using assms(1) by (simp add: progress_inv_def)
  have none: "lt_logging s = []"
  proof (rule ccontr)
    assume "lt_logging s \<noteq> []"
    then have f: "hd (lt_logging s) \<in> set (lt_logging s)" by simp
    with wall have "logs (lt_at s (hd (lt_logging s)))" by (auto simp: wall_inv_def)
    from logger_runs [OF f this] assms(2) show False unfolding stuck_def by metis
  qed
  with wall have "um_waiters (lt_wall s) = []" by (simp add: wall_inv_def)
  with none wall show ?thesis by (simp add: wall_inv_def)
qed

lemma stuck_unheld:
  assumes inv: "progress_inv s" and stuck: "stuck malloc pad i n s"
  shows "lt_lock s = sm_start"
proof -
  have pl: "placed (lt_at s) (lt_lock s)" and L: "sm_inv (lt_lock s)" using inv by (simp_all add: progress_inv_def)
  have halt: "section_step malloc pad i n f (lt_at s f) s = None" for f using stuck by (simp add: stuck_def)
  have w: "sm_wakers (lt_lock s) = 0" using stuck wake_defined [of "lt_lock s"] by (simp add: stuck_def del: sm_exec.simps)
  have "f \<notin> set (sm_writers (lt_lock s))" for f
  proof
    assume f: "f \<in> set (sm_writers (lt_lock s))"
    with pl have "writes (lt_at s f)" by (simp add: placed_def)
    from writer_runs [OF f this] stuck_unlogged [OF assms] halt show False by blast
  qed
  then have ws: "sm_writers (lt_lock s) = []" by (rule list_emptyI)
  have "f \<notin> set (sm_readers (lt_lock s))" for f
  proof
    assume f: "f \<in> set (sm_readers (lt_lock s))"
    with pl have "reads (lt_at s f)" by (simp add: placed_def)
    from reader_runs [OF f this] halt show False by blast
  qed
  then have rs: "sm_readers (lt_lock s) = []" by (rule list_emptyI)
  show ?thesis using L w ws rs by (auto simp: sm_inv_def sm_start_def sm_unlocked_def)
qed

lemma stuck_is_idle:
  assumes inv: "progress_inv s" and stuck: "stuck malloc pad i n s"
  shows "(\<forall>f. lt_at s f = Idle) \<and> lt_lock s = sm_start \<and> lt_wall s = um_unlocked"
proof -
  have reg: "registered (lt_at s) (lt_lock s)" and wall: "wall_inv s" using inv by (simp_all add: progress_inv_def)
  have free: "lt_lock s = sm_start" by (rule stuck_unheld [OF assms])
  have "lt_at s f = Idle" for f
    using location_cases [of "lt_at s f" malloc pad i n f s] stuck reg free
    by (auto simp: stuck_def registered_def sm_start_def sm_unlocked_def)
  moreover have "lt_wall s = um_unlocked"
    using wall stuck_unlogged [OF assms] by (auto simp: wall_inv_def um_unlocked_def)
  ultimately show ?thesis using free by simp
qed

subsection \<open>Every step uses up work\<close>

text \<open>How many pieces a fiber at this location has before it, at most.\<close>

fun rank :: "location \<Rightarrow> nat" where
  "rank (Asking_push r) = 5"
| "rank (At_push r) = 4"
| "rank (Logging_push r) = 3"
| "rank Leaving_write = 1"
| "rank Asking_read = 3"
| "rank At_read = 2"
| "rank (Leaving_read again) = (case again of None \<Rightarrow> 1 | Some r \<Rightarrow> 7)"
| "rank (Asking_check r) = 9"
| "rank (At_check r) = 8"
| "rank (Asking_commit r) = 6"
| "rank (At_commit r) = 5"
| "rank (Logging_commit r) = 4"
| "rank Idle = 0"

definition rank_sum :: "(fiber \<Rightarrow> location) \<Rightarrow> nat" where
  "rank_sum at = (\<Sum>f\<in>active at. rank (at f))"

definition wake_work :: "sm_sys \<Rightarrow> nat" where
  "wake_work L = sm_wakers L + length (sm_shared_waiters (sm_mutex L))"

definition work_left :: "locked_t \<Rightarrow> nat" where
  "work_left s = 2 * rank_sum (lt_at s) + wake_work (lt_lock s)"

lemma rank_sum_insert:
  assumes "finite (active at)"
  shows "rank_sum at = rank (at f) + (\<Sum>g\<in>active at - {f}. rank (at g))"
proof (cases "f \<in> active at")
  case True
  then show ?thesis unfolding rank_sum_def by (rule sum.remove [OF assms])
next
  case False
  then show ?thesis by (simp add: rank_sum_def active_def)
qed

lemma rank_sum_move:
  assumes "finite (active at)"
  shows "rank_sum (at(f := l)) + rank (at f) = rank_sum at + rank l"
proof -
  have "active (at(f := l)) - {f} = active at - {f}" by (auto simp: active_def)
  then have "(\<Sum>g\<in>active (at(f := l)) - {f}. rank ((at(f := l)) g)) = (\<Sum>g\<in>active at - {f}. rank (at g))"
    by (intro sum.cong) auto
  then show ?thesis
    using rank_sum_insert [OF finite_active [OF assms], of f l f] rank_sum_insert [OF assms, of f] by simp
qed

lemma wake_work_exec: "sm_exec e L = Some L' \<Longrightarrow> wake_work L' \<le> wake_work L + 1"
  by (cases e) (auto simp: wake_work_def sm_op_defs split: if_splits list.splits)

lemma wake_uses_work: "sm_exec Wake_next L = Some L' \<Longrightarrow> wake_work L' < wake_work L"
  by (auto simp: wake_work_def sm_op_defs split: if_splits list.splits)

lemma work_through_lock:
  assumes "through_lock e f l s = Some (Inr t)" and "rank l < rank (lt_at s f)" and "finite (active (lt_at s))"
  shows "work_left t < work_left s"
proof -
  from assms(1) obtain L where L: "sm_exec e (lt_lock s) = Some L" "t = move_to f l (s\<lparr>lt_lock := L\<rparr>)"
    by (auto simp: through_lock_Some)
  show ?thesis
    using wake_work_exec [OF L(1)] rank_sum_move [OF assms(3), of f l] assms(2) by (simp add: work_left_def L(2))
qed

lemma work_move:
  assumes "lt_at t = (lt_at s)(f := l)" and "lt_lock t = lt_lock s" and "rank l < rank (lt_at s f)"
    and "finite (active (lt_at s))"
  shows "work_left t < work_left s"
  using rank_sum_move [OF assms(4), of f l] assms(1-3) by (simp add: work_left_def)

lemma piece_uses_work:
  assumes run: "section_step malloc pad i n f (lt_at s f) s = Some (Inr t)" and fin: "finite (active (lt_at s))"
  shows "work_left t < work_left s"
proof -
  note lock = work_through_lock [OF _ _ fin] and move = work_move [OF _ _ _ fin]
  show ?thesis
    by (cases "lt_at s f"; insert run)
      (auto simp: Let_def result_simps intro: lock move split: if_splits option.splits)
qed

subsection \<open>Runs without new calls\<close>

inductive drains :: "allocator \<Rightarrow> nat \<Rightarrow> u16 \<Rightarrow> byte list \<Rightarrow> nat \<Rightarrow> locked_t \<Rightarrow> locked_t \<Rightarrow> bool"
  for malloc pad i n where
  drained: "drains malloc pad i n 0 s s"
| piece_runs: "section_step malloc pad i n f (lt_at s f) s = Some (Inr t) \<Longrightarrow> drains malloc pad i n k t u \<Longrightarrow>
    drains malloc pad i n (Suc k) s u"
| loop_wakes: "sm_exec Wake_next (lt_lock s) = Some L \<Longrightarrow> drains malloc pad i n k (s\<lparr>lt_lock := L\<rparr>) u \<Longrightarrow>
    drains malloc pad i n (Suc k) s u"

lemma drains_bounded:
  "drains malloc pad i n k s t \<Longrightarrow> progress_inv s \<Longrightarrow> progress_inv t \<and> work_left t + k \<le> work_left s"
proof (induction rule: drains.induct)
  case (piece_runs f s t k u)
  have "work_left t < work_left s"
    by (rule piece_uses_work [OF piece_runs.hyps(1)]) (use piece_runs.prems in \<open>simp add: progress_inv_def\<close>)
  with piece_runs.IH section_keeps_progress [OF piece_runs.prems piece_runs.hyps(1)] show ?case by simp
next
  case (loop_wakes s L k u)
  have "progress_inv (s\<lparr>lt_lock := L\<rparr>)"
    by (rule progress_inv_step [OF loop_wakes.prems locked_step.waker_runs [OF loop_wakes.hyps(1)]])
  with loop_wakes.IH wake_uses_work [OF loop_wakes.hyps(1)] show ?case by (simp add: work_left_def)
qed simp

lemma run_drains:
  "run_moves False malloc n ms s = Some t \<Longrightarrow> \<forall>m\<in>set ms. \<forall>f l. m \<noteq> Call f l \<Longrightarrow> drains malloc 0 0 n (length ms) s t"
proof (induction ms arbitrary: s)
  case (Cons m ms)
  then obtain u where u: "perform False malloc n m s = Some u" "drains malloc 0 0 n (length ms) u t"
    by (auto split: option.splits)
  show ?case
  proof (cases m)
    case (Run f)
    with u(1) have "section_step malloc 0 0 n f (lt_at s f) s = Some (Inr u)" by (auto split: if_splits option.splits sum.splits)
    from piece_runs [OF this u(2)] show ?thesis by simp
  next
    case Wake
    with u(1) obtain L where L: "sm_exec Wake_next (lt_lock s) = Some L" "u = s\<lparr>lt_lock := L\<rparr>"
      by (auto simp: map_option_eq_Some simp del: sm_exec.simps)
    from loop_wakes [OF L(1) u(2) [unfolded L(2)]] show ?thesis by simp
  qed (use Cons.prems in auto)
qed (simp add: drained)

text \<open>A push and a read that meet: the reader waits, and is woken by the releasing writer.\<close>

definition meeting_moves :: "move list" where
  "meeting_moves = [Run 1, Run 2, Run 1, Run 1, Run 1, Run 2, Wake, Run 2]"

lemma meeting_run:
  assumes "mq_push malloc Map.empty mq_empty_queue (lit ''a'') = Inr (h1, q1, i1)"
    and "iter_deref h1 (mq_front q1) = Inr (lit ''a'')" and "\<not> mq_empty q1"
  obtains s t where
    "run_moves False malloc n [Call 1 (Asking_push (locked_request (lit ''a''))), Call 2 Asking_read] (locked_empty w fs) = Some s"
    and "run_moves False malloc n meeting_moves s = Some t"
    and "lt_lock t = sm_start" and "\<forall>f. lt_at t f = Idle"
proof -
  have "\<exists>s t. run_moves False malloc n [Call 1 (Asking_push (locked_request (lit ''a''))), Call 2 Asking_read] (locked_empty w fs) = Some s
     \<and> run_moves False malloc n meeting_moves s = Some t \<and> lt_lock t = sm_start \<and> (\<forall>f. lt_at t f = Idle)"
    using assms by (simp add: meeting_moves_def locked_empty_def locked_op_defs)
  then show thesis by (elim exE conjE) (rule that)
qed

subsection \<open>Property\<close>

text \<open>
  C10: the operations on a partition cannot wait for each other for ever, and they end. From
  every state that any run reaches, whatever the schedule, the operations under way take
  at most \<open>work_left\<close> further pieces and rounds of wake-up loops, and when nobody can go on (a piece
  that would crash the process counts as one that can), all of them have returned, and both
  mutexes are free with nobody waiting.
\<close>

theorem partition_drains:
  assumes "reachable (locked_init malloc) (locked_step False malloc pad i n) s" and "drains malloc pad i n k s t"
  shows "k \<le> work_left s
     \<and> (stuck malloc pad i n t \<longrightarrow> (\<forall>f. lt_at t f = Idle) \<and> lt_lock t = sm_start \<and> lt_wall t = um_unlocked)"
  using drains_bounded [OF assms(2) lp.reachable_inv [OF assms(1)]] stuck_is_idle by auto

theorem partition_drains_witness:
  "\<exists>s t. drains small_malloc 0 0 (lit ''t'') 8 s t \<and> lt_at s 1 \<noteq> Idle \<and> lt_at s 2 \<noteq> Idle
     \<and> 8 \<le> work_left s \<and> (\<forall>f. lt_at t f = Idle) \<and> lt_lock t = sm_start \<and> lt_wall t = um_unlocked"
proof -
  let ?w = "\<lparr>ww_path = lit ''t'', ww_pos = 0, ww_mutex = um_unlocked\<rparr>"
  have "small_malloc Map.empty (8 + length (lit ''a'')) \<noteq> 0" by (simp add: small_malloc_def)
  from mq_push_rel_abs [OF mq_wf_empty small_malloc_sound this] obtain h q where
    push: "mq_push small_malloc Map.empty mq_empty_queue (lit ''a'') = Inr (h, q, mq_begin q)" "mq_wf h q" "mq_abs h q = [lit ''a'']"
    by auto
  have front: "iter_deref h (mq_front q) = Inr (lit ''a'')" "\<not> mq_empty q"
    using iter_deref_front [OF push(2)] mq_empty_iff [OF push(2)] push(3) by auto
  obtain s t where run: "run_moves False small_malloc (lit ''t'')
        [Call 1 (Asking_push (locked_request (lit ''a''))), Call 2 Asking_read] (locked_empty ?w Map.empty) = Some s"
    "run_moves False small_malloc (lit ''t'') meeting_moves s = Some t" and t: "lt_lock t = sm_start" "\<forall>f. lt_at t f = Idle"
    by (rule meeting_run [OF push(1) front])
  have dr: "drains small_malloc 0 0 (lit ''t'') 8 s t"
    using run_drains [OF run(2)] by (simp add: meeting_moves_def eval_nat_numeral)
  have "stuck small_malloc 0 0 (lit ''t'') t" by (simp add: stuck_def t sm_start_def)
  with partition_drains [OF run_moves_reachable [OF locked_empty_init [OF small_malloc_sound] run(1)] dr] dr run(1)
  show ?thesis by (intro exI [of _ s] exI [of _ t]) (auto simp: locked_empty_def move_to_def)
qed

end
