(* ===== verification/LockedServer.thy ===== *)
theory LockedServer
  imports InterleavingProps PartitionProgress
begin

section \<open>The server under all its locks\<close>

text \<open>
  \<open>Interleaving\<close> takes a critical section of a topic as one step, \<open>LockedPartition\<close> runs one
  partition under its real locks. Here the two are one system: every session is a fiber
  that runs through \<open>rpc/rpc-session.h\<close>, and when it comes to \<open>push\<close>, \<open>read\<close> or \<open>remove\<close> of a topic
  (\<open>topic.h\<close>) it goes through the pieces of \<open>section_step\<close> on that topic's partition, on the heap and
  the file system that all topics share. Any number of sessions wait at any number of
  topics. As in \<open>Interleaving\<close>, the lookup and the insertion of a topic are one step, as if the
  registry's mutex were held; \<open>RacingRegistry\<close> has them apart.
\<close>

subsection \<open>State\<close>

text \<open>
  The locks of one topic: the mutex of its partition with its holders, \<open>wall_mutex_\<close> and the fibers
  that were given it, and where each session is. In the world of this system the mutexes inside
  partitions and topics are not used; these take their place.
\<close>

record section_t =
  sc_lock :: sm_sys
  sc_wall :: unique_mutex_t
  sc_logging :: "fiber list"
  sc_at :: "fiber \<Rightarrow> location"

definition section_new :: section_t where
  "section_new = \<lparr>sc_lock = sm_start, sc_wall = um_unlocked, sc_logging = [], sc_at = (\<lambda>_. Idle)\<rparr>"

text \<open>\<open>ls_inside\<close>: the topic in whose operation a session is, by the number of the session.\<close>

record 'k locked_server_t =
  ls_server :: "'k activity server_t"
  ls_history :: "(nat \<times> event) list"
  ls_sections :: "byte list \<Rightarrow> section_t"
  ls_inside :: "nat \<Rightarrow> byte list option"

text \<open>The server after its constructor and \<open>start\<close>: no session, all locks free.\<close>

definition locked_server_start :: "file_system \<Rightarrow> 'k locked_server_t" where
  "locked_server_start files = \<lparr>ls_server = server_start (server_ctor files), ls_history = [],
     ls_sections = (\<lambda>_. section_new), ls_inside = (\<lambda>_. None)\<rparr>"

subsection \<open>One topic as a partition under its locks, and back\<close>

definition section_view :: "world_t \<Rightarrow> topic_t \<Rightarrow> section_t \<Rightarrow> locked_t" where
  "section_view W T sc =
     \<lparr>lt_lock = sc_lock sc, lt_wall = sc_wall sc, lt_logging = sc_logging sc, lt_writer = tp_wall_write T,
      lt_files = en_files (wo_env W), lt_heap = en_heap (wo_env W), lt_queue = pt_queue (tp_storage T ! 0),
      lt_at = sc_at sc, lt_history = []\<rparr>"

lemma view_fields [simp]:
  "lt_heap (section_view W T sc) = en_heap (wo_env W)" "lt_files (section_view W T sc) = en_files (wo_env W)"
  "lt_writer (section_view W T sc) = tp_wall_write T" "lt_queue (section_view W T sc) = pt_queue (tp_storage T ! 0)"
  "lt_history (section_view W T sc) = []" "lt_lock (section_view W T sc) = sc_lock sc" "lt_at (section_view W T sc) = sc_at sc"
  "lt_wall (section_view W T sc) = sc_wall sc" "lt_logging (section_view W T sc) = sc_logging sc"
  by (simp_all add: section_view_def)

definition section_after :: "locked_t \<Rightarrow> section_t" where
  "section_after v = \<lparr>sc_lock = lt_lock v, sc_wall = lt_wall v, sc_logging = lt_logging v, sc_at = lt_at v\<rparr>"

definition topic_after :: "topic_t \<Rightarrow> locked_t \<Rightarrow> topic_t" where
  "topic_after T v = T\<lparr>tp_wall_write := lt_writer v, tp_storage := (tp_storage T)[0 := (tp_storage T ! 0)\<lparr>pt_queue := lt_queue v\<rparr>]\<rparr>"

definition world_after :: "byte list \<Rightarrow> topic_t \<Rightarrow> locked_t \<Rightarrow> world_t \<Rightarrow> world_t" where
  "world_after n T v W = set_topic n ((wo_env W)\<lparr>en_heap := lt_heap v, en_files := lt_files v\<rparr>, topic_after T v) W"

subsection \<open>Entering an operation\<close>

text \<open>The topic whose operation a session is about to call.\<close>

fun section_topic :: "'k activity \<Rightarrow> byte list option" where
  "section_topic (Pushing k n r) = Some n"
| "section_topic (Pulling k n pid) = Some n"
| "section_topic (Checking k n r) = Some n"
| "section_topic (Committing k n r) = Some n"
| "section_topic a = None"

text \<open>From the head of the operation to its first lock: the index of the partition, and \<open>storage_[i]\<close>.\<close>

fun enter_section :: "platform_t \<Rightarrow> 'k activity \<Rightarrow> topic_t \<Rightarrow> fault + location" where
  "enter_section pf (Pushing k n r) T =
     rbind (push_index (request_hash (pf_hash_char pf)) r T) (\<lambda>i.
     rbind (storage_at T i) (\<lambda>p. Inr (Asking_push r)))"
| "enter_section pf (Pulling k n pid) T =
     rbind (kassert_ne pid INVALID_TOPIC_ID) (\<lambda>_. rbind (storage_at T pid) (\<lambda>p. Inr Asking_read))"
| "enter_section pf (Checking k n r) T =
     rbind (kassert_ne (partition_id r) INVALID_TOPIC_ID) (\<lambda>_.
     rbind (storage_at T (partition_id r)) (\<lambda>p. Inr (Asking_check r)))"
| "enter_section pf (Committing k n r) T = rbind (storage_at T (partition_id r)) (\<lambda>p. Inr (Asking_commit r))"
| "enter_section pf a T = Inr Idle"

text \<open>The index that the operation computed, for the record it logs.\<close>

fun section_index :: "platform_t \<Rightarrow> location \<Rightarrow> topic_t \<Rightarrow> u16" where
  "section_index pf (Logging_push r) T =
     (case push_index (request_hash (pf_hash_char pf)) r T of Inl f \<Rightarrow> 0 | Inr i \<Rightarrow> i)"
| "section_index pf (Logging_commit r) T = partition_id r"
| "section_index pf l T = 0"

text \<open>What the handler does with the value that the operation returns.\<close>

fun after_event :: "platform_t \<Rightarrow> 'k activity \<Rightarrow> event \<Rightarrow> 'k activity" where
  "after_event pf (Pushing k n r) (Pushed n' m) = Answering k (ok_response pf (opcode_value PUSH))"
| "after_event pf (Pulling k n pid) (Fetched n' result) =
     Answering k (case result of
       None \<Rightarrow> error_response pf (opcode_value PULL) EMPTY_PARTITION ''No messages in partition''
     | Some data \<Rightarrow> data_response pf (opcode_value PULL) data)"
| "after_event pf (Checking k n r) (Compared n' m found) =
     (if found then Committing k n r else Answering k (ok_response pf (opcode_value DELETE)))"
| "after_event pf (Committing k n r) (Removed n' m removed) = Answering k (ok_response pf (opcode_value DELETE))"
| "after_event pf a e = a"

subsection \<open>Turns\<close>

definition set_at :: "byte list \<Rightarrow> nat \<Rightarrow> location \<Rightarrow> 'k locked_server_t \<Rightarrow> 'k locked_server_t" where
  "set_at n i l s = s\<lparr>ls_sections := (ls_sections s)(n := (ls_sections s n)\<lparr>sc_at := (sc_at (ls_sections s n))(i := l)\<rparr>),
     ls_inside := (ls_inside s)(i := if l = Idle then None else Some n)\<rparr>"

definition enter_turn :: "platform_t \<Rightarrow> nat \<Rightarrow> 'k activity \<Rightarrow> byte list \<Rightarrow> 'k locked_server_t \<Rightarrow> fault + 'k locked_server_t" where
  "enter_turn pf i a n s =
     (case registry_find n (sv_world (ls_server s)) of
        None \<Rightarrow> Inl Null_dereference
      | Some T \<Rightarrow> rbind (enter_section pf a T) (\<lambda>l. Inr (set_at n i l s)))"

text \<open>A piece of the operation has led to \<open>v\<close>.\<close>

definition leave_piece :: "platform_t \<Rightarrow> nat \<Rightarrow> 'k activity \<Rightarrow> byte list \<Rightarrow> topic_t \<Rightarrow> locked_t \<Rightarrow> 'k locked_server_t \<Rightarrow> 'k locked_server_t" where
  "leave_piece pf i a n T v s = (let S = ls_server s in
     s\<lparr>ls_server := S\<lparr>sv_sessions := (sv_sessions S)[i := Some (foldl (after_event pf) a (map snd (lt_history v)))],
                      sv_world := world_after n T v (sv_world S)\<rparr>,
       ls_history := ls_history s @ lt_history v,
       ls_sections := (ls_sections s)(n := section_after v),
       ls_inside := (ls_inside s)(i := if lt_at v i = Idle then None else Some n)\<rparr>)"

definition piece_turn :: "platform_t \<Rightarrow> nat \<Rightarrow> 'k activity \<Rightarrow> byte list \<Rightarrow> 'k locked_server_t \<Rightarrow> (fault + 'k locked_server_t) option" where
  "piece_turn pf i a n s =
     (let W = sv_world (ls_server s); sc = ls_sections s n; l = sc_at sc i
      in case registry_find n W of
           None \<Rightarrow> Some (Inl Null_dereference)
         | Some T \<Rightarrow>
             map_option (\<lambda>r. rbind r (\<lambda>v. Inr (leave_piece pf i a n T v s)))
               (section_step (pf_malloc pf) (pf_wall_pad pf) (section_index pf l T) n i l (section_view W T sc)))"

text \<open>The next step of session \<open>i\<close>; \<open>None\<close>: it waits for a mutex, or does not exist.\<close>

definition locked_turn :: "'k socket_api \<Rightarrow> platform_t \<Rightarrow> nat \<Rightarrow> 'k locked_server_t \<Rightarrow> (fault + 'k locked_server_t) option" where
  "locked_turn api pf i s =
     (case sv_sessions (ls_server s) ! i of
        None \<Rightarrow> None
      | Some a \<Rightarrow>
          (case ls_inside s i of
             Some n \<Rightarrow> piece_turn pf i a n s
           | None \<Rightarrow>
               Some (case section_topic a of
                 Some n \<Rightarrow> enter_turn pf i a n s
               | None \<Rightarrow> rbind (fiber_turn api pf i (ls_server s, ls_history s)) (\<lambda>(S, h).
                   Inr (s\<lparr>ls_server := S, ls_history := h\<rparr>)))))"

text \<open>
  The next step of session \<open>i\<close> gives a partition's mutex to a writer while a thread is in the
  middle of that mutex's wake-up loop.
\<close>

definition rushes :: "nat \<Rightarrow> 'k locked_server_t \<Rightarrow> bool" where
  "rushes i s = (case ls_inside s i of None \<Rightarrow> False
     | Some n \<Rightarrow> rushed i (sc_at (ls_sections s n) i) (sc_lock (ls_sections s n)))"

definition set_lock :: "byte list \<Rightarrow> sm_sys \<Rightarrow> 'k locked_server_t \<Rightarrow> 'k locked_server_t" where
  "set_lock n L s = s\<lparr>ls_sections := (ls_sections s)(n := (ls_sections s n)\<lparr>sc_lock := L\<rparr>)\<rparr>"

inductive locked_server_step :: "bool \<Rightarrow> 'k socket_api \<Rightarrow> platform_t \<Rightarrow> ('k \<Rightarrow> bool) \<Rightarrow> 'k locked_server_t \<Rightarrow> 'k locked_server_t \<Rightarrow> bool"
  for calm api pf fresh where
  ls_accepted: "sv_accepting (ls_server s) \<Longrightarrow> sv_open (ls_server s) \<Longrightarrow> \<forall>k\<in>set_accept_result r. fresh k \<Longrightarrow>
     locked_server_step calm api pf fresh s (s\<lparr>ls_server := accept_turn (map_accept_result Reading r) (ls_server s)\<rparr>)"
| ls_aborted: "sv_accepting (ls_server s) \<Longrightarrow> \<not> sv_open (ls_server s) \<Longrightarrow>
     locked_server_step calm api pf fresh s (s\<lparr>ls_server := accept_turn Accept_aborted (ls_server s)\<rparr>)"
| ls_stopped: "locked_server_step calm api pf fresh s (s\<lparr>ls_server := server_stop (ls_server s)\<rparr>)"
| ls_turn: "i < length (sv_sessions (ls_server s)) \<Longrightarrow> (calm \<Longrightarrow> \<not> rushes i s) \<Longrightarrow> locked_turn api pf i s = Some (Inr t) \<Longrightarrow>
     locked_server_step calm api pf fresh s t"
| ls_wakes: "sm_exec Wake_next (sc_lock (ls_sections s n)) = Some L \<Longrightarrow>
     locked_server_step calm api pf fresh s (set_lock n L s)"

inductive_cases locked_server_stepE: "locked_server_step calm api pf fresh s t"

definition locked_server_init :: "'k socket_api \<Rightarrow> ('k \<Rightarrow> byte list) \<Rightarrow> ('k \<Rightarrow> byte list) \<Rightarrow> platform_t \<Rightarrow> ('k \<Rightarrow> bool)
    \<Rightarrow> 'k locked_server_t \<Rightarrow> bool" where
  "locked_server_init api inp out pf fresh s \<longleftrightarrow>
     interleaved_init api inp out pf fresh (ls_server s, ls_history s)
     \<and> ls_sections s = (\<lambda>_. section_new) \<and> ls_inside s = (\<lambda>_. None)"

end
