(* ===== verification/LockedServerRefines.thy ===== *)
theory LockedServerRefines
  imports LockedServer
begin

section \<open>Under the locks, critical sections are steps\<close>

subsection \<open>What a piece does to the world\<close>

text \<open>A piece does not look at the history, it extends it.\<close>

lemma map_sum_rbind: "map_sum id g (rbind m k) = rbind m (\<lambda>x. map_sum id g (k x))"
  by (cases m) simp_all

lemma map_option_once: "map_option g (once b x) = once b (g x)"
  by (simp add: once_def)

lemma section_step_history:
  assumes "lt_history s = []"
  shows "section_step malloc pad i n f l (s\<lparr>lt_history := h\<rparr>) =
     map_option (map_sum id (\<lambda>t. t\<lparr>lt_history := h @ lt_history t\<rparr>)) (section_step malloc pad i n f l s)"
proof (cases l)
  case Idle
  then show ?thesis by simp
qed (use assms in \<open>cases s; simp_all add: through_lock_def option.map_comp comp_def map_option_once map_sum_rbind Let_def
    move_to_def note_event_def ask_wall_def log_and_release_eq front_data_def case_prod_unfold if_distrib [of "map_sum id _"] cong: if_cong\<close>)+

text \<open>The session's activity, where it stands in the operation, and the partition it asked for agree.\<close>

definition routed :: "platform_t \<Rightarrow> request_t \<Rightarrow> bool" where
  "routed pf r \<longleftrightarrow> (\<forall>T. length (tp_storage T) = 1 \<longrightarrow> push_index (request_hash (pf_hash_char pf)) r T = Inr 0)"

fun fits :: "platform_t \<Rightarrow> byte list \<Rightarrow> 'k activity \<Rightarrow> location \<Rightarrow> bool" where
  "fits pf n a (Asking_push r) \<longleftrightarrow> (\<exists>k. a = Pushing k n r) \<and> routed pf r"
| "fits pf n a (At_push r) \<longleftrightarrow> (\<exists>k. a = Pushing k n r) \<and> routed pf r"
| "fits pf n a (Logging_push r) \<longleftrightarrow> (\<exists>k. a = Pushing k n r) \<and> routed pf r"
| "fits pf n a Asking_read \<longleftrightarrow> (\<exists>k. a = Pulling k n 0)"
| "fits pf n a At_read \<longleftrightarrow> (\<exists>k. a = Pulling k n 0)"
| "fits pf n a (Asking_check r) \<longleftrightarrow> (\<exists>k. a = Checking k n r) \<and> partition_id r = 0"
| "fits pf n a (At_check r) \<longleftrightarrow> (\<exists>k. a = Checking k n r) \<and> partition_id r = 0"
| "fits pf n a (Asking_commit r) \<longleftrightarrow> (\<exists>k. a = Committing k n r) \<and> partition_id r = 0"
| "fits pf n a (At_commit r) \<longleftrightarrow> (\<exists>k. a = Committing k n r) \<and> partition_id r = 0"
| "fits pf n a (Logging_commit r) \<longleftrightarrow> (\<exists>k. a = Committing k n r) \<and> partition_id r = 0
     \<and> (\<exists>m. view_read r (message_view r) = Inr m)"
| "fits pf n a Leaving_write \<longleftrightarrow> (\<exists>k bytes. a = Answering k bytes)"
| "fits pf n a (Leaving_read again) \<longleftrightarrow> (case again of
      None \<Rightarrow> \<exists>k bytes. a = Answering k bytes
    | Some r \<Rightarrow> (\<exists>k. a = Committing k n r) \<and> partition_id r = 0)"
| "fits pf n a Idle \<longleftrightarrow> True"

text \<open>A registered topic at rest: one partition, its mutexes free.\<close>

lemma topic_at_rest:
  assumes "world_wf W" and "registry_find n W = Some T"
  obtains q where "tp_storage T = [\<lparr>pt_queue = q, pt_mutex = sm_unlocked\<rparr>]" and "tp_wall_mutex T = um_unlocked"
    and "mq_wf (en_heap (wo_env W)) q" and "world_abs W n = Some (mq_abs (en_heap (wo_env W)) q)"
proof -
  note w = world_wfD [OF assms]
  obtain p where p: "tp_storage T = [p]" using w(3) by (auto simp: length_Suc_conv)
  show thesis
    by (rule that [of "pt_queue p"]) (use w p in \<open>auto simp: topic_wf_def storage_wf_def topic_abs_def storage_abs_def\<close>)
qed

text \<open>The locks have moved, the world has not.\<close>

lemma world_after_same:
  assumes "registry_find n W = Some T" and "tp_storage T \<noteq> []"
    and "lt_heap v = en_heap (wo_env W)" and "lt_files v = en_files (wo_env W)"
    and "lt_writer v = tp_wall_write T" and "lt_queue v = pt_queue (tp_storage T ! 0)"
  shows "world_after n T v W = W"
proof -
  have "topic_after T v = T"
    using assms(2,5,6) by (cases "tp_storage T") (simp_all add: topic_after_def)
  then show ?thesis using assms by (simp add: world_after_def set_topic_same)
qed

lemma data_fields [simp]:
  "lt_files (move_to f l s) = lt_files s" "lt_writer (move_to f l s) = lt_writer s"
  "lt_files (note_event f e s) = lt_files s" "lt_writer (note_event f e s) = lt_writer s"
  "lt_files (ask_wall f l s) = lt_files s" "lt_writer (ask_wall f l s) = lt_writer s"
  by (simp_all add: move_to_def note_event_def ask_wall_def Let_def split: prod.split)

text \<open>
  A piece leaves world and activity alone, or it is the critical section: then it does what
  the session's step of the coarser model does.
\<close>

definition quiet_piece :: "world_t \<Rightarrow> byte list \<Rightarrow> topic_t \<Rightarrow> locked_t \<Rightarrow> bool" where
  "quiet_piece W n T v \<longleftrightarrow> lt_history v = [] \<and> world_after n T v W = W"

definition section_piece :: "'k socket_api \<Rightarrow> platform_t \<Rightarrow> world_t \<Rightarrow> byte list \<Rightarrow> topic_t \<Rightarrow> nat \<Rightarrow> 'k activity \<Rightarrow> locked_t \<Rightarrow> bool" where
  "section_piece api pf W n T f a v \<longleftrightarrow> (\<exists>e. lt_history v = [(f, e)]
     \<and> fiber_step api pf a W = Inr (after_event pf a e, world_after n T v W, [e]))"

lemma push_piece:
  assumes wf: "world_wf W" and T: "registry_find n W = Some T" and r: "routed pf r"
    and run: "section_step (pf_malloc pf) (pf_wall_pad pf) 0 n f (Logging_push r) (section_view W T sc) = Some (Inr v)"
  shows "section_piece api pf W n T f (Pushing k n r) v"
proof -
  obtain q where q: "tp_storage T = [\<lparr>pt_queue = q, pt_mutex = sm_unlocked\<rparr>]" "tp_wall_mutex T = um_unlocked"
    by (rule topic_at_rest [OF wf T])
  have idx: "push_index (request_hash (pf_hash_char pf)) r T = Inr 0" using r q by (simp add: routed_def)
  from run obtain m h q' it where m: "view_read r (message_view r) = Inr m"
    and push: "mq_push (pf_malloc pf) (en_heap (wo_env W)) q m = Inr (h, q', it)"
    and v: "v = note_event f (Pushed n m) (move_to f Leaving_write
          ((log_and_release (pf_wall_pad pf) (wall_data_for 0 True r) f (section_view W T sc))\<lparr>lt_heap := h, lt_queue := q'\<rparr>))"
    by (auto simp: Let_def result_simps q)
  have "topic_push (pf_malloc pf) (request_hash (pf_hash_char pf)) (pf_wall_pad pf) (pf_fiber pf) r (wo_env W, T) =
      Inr ((wo_env W)\<lparr>en_heap := lt_heap v, en_files := lt_files v\<rparr>, topic_after T v)"
    using m push q
    by (simp add: topic_push_def idx storage_at_def await_write_free topic_log_free partition_push_def v log_and_release_eq
        topic_after_def set_storage_def release_write_alone note_event_def move_to_def store_raw_def sizeof_wall_data_def)
  then show ?thesis
    using T m by (simp add: section_piece_def v on_topic_def world_after_def log_and_release_def Let_def split: prod.split)
qed

lemma quiet_same:
  assumes "registry_find n W = Some T" and "tp_storage T \<noteq> []" and "lt_history v = []"
    and "lt_heap v = en_heap (wo_env W)" and "lt_files v = en_files (wo_env W)"
    and "lt_writer v = tp_wall_write T" and "lt_queue v = pt_queue (tp_storage T ! 0)"
  shows "quiet_piece W n T v"
  using assms world_after_same [OF assms(1,2,4-7)] by (simp add: quiet_piece_def)

text \<open>A piece that has one event and leaves the world alone.\<close>

lemma looking_piece:
  assumes "registry_find n W = Some T" and "tp_storage T \<noteq> []"
    and "v = note_event f e (move_to f l (section_view W T sc))"
    and "fiber_step api pf a W = Inr (after_event pf a e, W, [e])"
  shows "section_piece api pf W n T f a v"
  using assms world_after_same [OF assms(1,2), of v] by (auto simp: section_piece_def)

lemma read_piece:
  assumes wf: "world_wf W" and T: "registry_find n W = Some T"
    and run: "section_step (pf_malloc pf) pad i n f At_read (section_view W T sc) = Some (Inr v)"
  shows "section_piece api pf W n T f (Pulling k n 0) v"
proof -
  obtain q where q: "tp_storage T = [\<lparr>pt_queue = q, pt_mutex = sm_unlocked\<rparr>]" "mq_wf (en_heap (wo_env W)) q"
    by (rule topic_at_rest [OF wf T])
  have e: "\<exists>x. v = note_event f (Fetched n x) (move_to f (Leaving_read None) (section_view W T sc))
     \<and> topic_read (pf_fiber pf) 0 (wo_env W, T) = Inr ((wo_env W, T), x)"
    using run q
    by (auto simp: result_simps front_data_def topic_read_def INVALID_TOPIC_ID_def kassert_defs storage_at_def await_read_free
        partition_empty_def partition_front_def set_storage_def release_read_alone split: if_splits)
  then obtain x where x: "v = note_event f (Fetched n x) (move_to f (Leaving_read None) (section_view W T sc))"
    "topic_read (pf_fiber pf) 0 (wo_env W, T) = Inr ((wo_env W, T), x)" by blast
  show ?thesis
    by (rule looking_piece [OF T _ x(1)]) (use q x(2) T in \<open>simp_all add: on_topic_def set_topic_same\<close>)
qed

lemma check_piece:
  assumes wf: "world_wf W" and T: "registry_find n W = Some T" and i: "partition_id r = 0"
    and run: "section_step (pf_malloc pf) pad i n f (At_check r) (section_view W T sc) = Some (Inr v)"
  shows "section_piece api pf W n T f (Checking k n r) v"
proof -
  obtain q where q: "tp_storage T = [\<lparr>pt_queue = q, pt_mutex = sm_unlocked\<rparr>]" "mq_wf (en_heap (wo_env W)) q"
    by (rule topic_at_rest [OF wf T])
  from run obtain d m where x: "iter_deref (en_heap (wo_env W)) (mq_front q) = Inr d" "view_read r (message_view r) = Inr m"
    and v: "v = note_event f (Compared n m (d = m)) (move_to f (Leaving_read (if d = m then Some r else None)) (section_view W T sc))"
    by (auto simp: result_simps front_data_def q)
  have "remove_check (pf_fiber pf) r (wo_env W, T) = Inr ((wo_env W, T), d = m)"
    using x q i
    by (simp add: remove_check_def INVALID_TOPIC_ID_def kassert_defs storage_at_def await_read_free partition_front_def
        set_storage_def release_read_alone Let_def)
  then show ?thesis
    by (intro looking_piece [OF T _ v]) (use q x T in \<open>simp_all add: on_topic_def set_topic_same\<close>)
qed

lemma compare_piece:
  assumes wf: "world_wf W" and T: "registry_find n W = Some T" and i: "partition_id r = 0"
    and run: "section_step (pf_malloc pf) pad i n f (At_commit r) (section_view W T sc) = Some (Inr v)"
  shows "quiet_piece W n T v \<or> section_piece api pf W n T f (Committing k n r) v"
proof -
  obtain q where q: "tp_storage T = [\<lparr>pt_queue = q, pt_mutex = sm_unlocked\<rparr>]" "mq_wf (en_heap (wo_env W)) q"
    by (rule topic_at_rest [OF wf T])
  from run obtain d m where x: "iter_deref (en_heap (wo_env W)) (mq_front q) = Inr d" "view_read r (message_view r) = Inr m"
    and v: "if d \<noteq> m then v = note_event f (Removed n m False) (move_to f Leaving_write (section_view W T sc))
            else v = ask_wall f (Logging_commit r) (section_view W T sc)"
    by (auto simp: result_simps front_data_def q split: if_splits)
  show ?thesis
  proof (cases "d = m")
    case True
    with v have "quiet_piece W n T v" by (intro quiet_same [OF T]) (simp_all add: q)
    then show ?thesis ..
  next
    case False
    with v have v: "v = note_event f (Removed n m False) (move_to f Leaving_write (section_view W T sc))" by simp
    have "remove_commit (pf_wall_pad pf) (pf_fiber pf) r (wo_env W, T) = Inr ((wo_env W, T), False)"
      using x q i False
      by (simp add: remove_commit_def storage_at_def await_write_free partition_front_def
          set_storage_def release_write_alone Let_def)
    then have "section_piece api pf W n T f (Committing k n r) v"
      by (intro looking_piece [OF T _ v]) (use q x T in \<open>simp_all add: on_topic_def set_topic_same\<close>)
    then show ?thesis ..
  qed
qed

text \<open>The pop: what was compared is still in front.\<close>

lemma commit_piece:
  assumes wf: "world_wf W" and T: "registry_find n W = Some T" and i: "partition_id r = 0"
    and front: "world_abs W n = Some (request_message r # ms)"
    and run: "section_step (pf_malloc pf) (pf_wall_pad pf) 0 n f (Logging_commit r) (section_view W T sc) = Some (Inr v)"
    and readable: "view_read r (message_view r) = Inr m"
  shows "section_piece api pf W n T f (Committing k n r) v"
proof -
  obtain q where q: "tp_storage T = [\<lparr>pt_queue = q, pt_mutex = sm_unlocked\<rparr>]" "tp_wall_mutex T = um_unlocked"
    "mq_wf (en_heap (wo_env W)) q" "world_abs W n = Some (mq_abs (en_heap (wo_env W)) q)"
    by (rule topic_at_rest [OF wf T])
  have hd: "iter_deref (en_heap (wo_env W)) (mq_front q) = Inr m"
    using iter_deref_front [OF q(3)] q(4) front readable by (metis list.distinct(1) list.sel(1) option.inject request_message_view)
  from run obtain h q' where pop: "mq_pop (en_heap (wo_env W)) q = Inr (h, q')"
    and v: "v = note_event f (Removed n (request_message r) True) (move_to f Leaving_write
          ((log_and_release (pf_wall_pad pf) (wall_data_for 0 False r) f (section_view W T sc))\<lparr>lt_heap := h, lt_queue := q'\<rparr>))"
    by (auto simp: Let_def result_simps q)
  have "remove_commit (pf_wall_pad pf) (pf_fiber pf) r (wo_env W, T) =
      Inr (((wo_env W)\<lparr>en_heap := lt_heap v, en_files := lt_files v\<rparr>, topic_after T v), True)"
    using readable hd pop q i
    by (simp add: remove_commit_def storage_at_def await_write_free topic_log_free partition_pop_def partition_front_def v
        log_and_release_eq topic_after_def set_storage_def release_write_alone note_event_def move_to_def store_raw_def
        sizeof_wall_data_def Let_def)
  then show ?thesis
    using T by (simp add: section_piece_def v on_topic_def world_after_def log_and_release_def Let_def split: prod.split)
qed

text \<open>One lemma for all pieces.\<close>

lemma piece_abstract:
  assumes wf: "world_wf W" and T: "registry_find n W = Some T" and fit: "fits pf n a l"
    and front: "\<And>r. l = Logging_commit r \<Longrightarrow> \<exists>ms. world_abs W n = Some (request_message r # ms)"
    and run: "section_step (pf_malloc pf) (pf_wall_pad pf) (section_index pf l T) n f l (section_view W T sc) = Some (Inr v)"
  shows "quiet_piece W n T v \<or> section_piece api pf W n T f a v"
proof -
  have T1: "length (tp_storage T) = 1" "tp_storage T \<noteq> []" using world_wfD(3) [OF wf T] by auto
  have quiet: "quiet_piece W n T v" if "through_lock e f l' (section_view W T sc) = Some (Inr v)" for e l'
    using that by (intro quiet_same [OF T T1(2)]) (auto simp: through_lock_Some move_to_def)
  show ?thesis
  proof (cases l)
    case (At_push r)
    have "quiet_piece W n T v" by (rule quiet_same [OF T T1(2)]) (use run in \<open>auto simp: At_push\<close>)
    then show ?thesis ..
  next
    case (Logging_push r)
    with fit obtain k where k: "a = Pushing k n r" and r: "routed pf r" by auto
    have i: "section_index pf (Logging_push r) T = 0" using r T1(1) by (simp add: routed_def)
    from push_piece [OF wf T r run [unfolded Logging_push i], of api k] k show ?thesis by simp
  next
    case At_read
    with fit obtain k where "a = Pulling k n 0" by auto
    with read_piece [OF wf T run [unfolded At_read], of api k] show ?thesis by simp
  next
    case (At_check r)
    with fit obtain k where k: "a = Checking k n r" and i: "partition_id r = 0" by auto
    from check_piece [OF wf T i run [unfolded At_check], of api k] k show ?thesis by simp
  next
    case (At_commit r)
    with fit obtain k where k: "a = Committing k n r" and i: "partition_id r = 0" by auto
    from compare_piece [OF wf T i run [unfolded At_commit], of api k] k show ?thesis by simp
  next
    case (Logging_commit r)
    with fit obtain k m where k: "a = Committing k n r" and i: "partition_id r = 0" and m: "view_read r (message_view r) = Inr m"
      by auto
    obtain ms where ms: "world_abs W n = Some (request_message r # ms)" using front [OF Logging_commit] by blast
    have "section_index pf (Logging_commit r) T = 0" using i by simp
    from commit_piece [OF wf T i ms run [unfolded Logging_commit this] m, of api k] k show ?thesis by simp
  qed (use run quiet in auto)
qed

lemma piece_fits:
  assumes "fits pf n a (lt_at s f)" and "lt_history s = []"
    and "section_step malloc pad i n f (lt_at s f) s = Some (Inr v)"
  shows "fits pf n (foldl (after_event pf) a (map snd (lt_history v))) (lt_at v f)"
proof (cases "lt_at s f")
  case (At_check r)
  with assms show ?thesis by (auto simp: result_simps)
qed (use assms in \<open>auto simp: through_lock_Some Let_def result_simps split: if_splits option.splits\<close>)

lemma piece_moves_one:
  assumes "section_step malloc pad i n f (lt_at s f) s = Some (Inr v)" and "g \<noteq> f"
  shows "lt_at v g = lt_at s g"
  using assms by (cases "lt_at s f") (auto simp: through_lock_Some Let_def result_simps split: if_splits)

subsection \<open>The locks of one topic\<close>

definition locks_ok :: "broker \<Rightarrow> byte list \<Rightarrow> section_t \<Rightarrow> bool" where
  "locks_ok B n sc \<longleftrightarrow> sm_calm_inv (sc_lock sc) \<and> placed (sc_at sc) (sc_lock sc)
     \<and> (\<forall>f r. sc_at sc f = Logging_commit r \<longrightarrow> (\<exists>ms. B n = Some (request_message r # ms)))"

lemma run_pushes: "run_history [n \<mapsto> ms] (map (Pushed n) ms') = Some [n \<mapsto> ms @ ms']"
  by (induction ms' arbitrary: ms) simp_all

lemma locks_ok_piece:
  assumes wf: "world_wf W" and T: "registry_find n W = Some T" and snd: "malloc_sound malloc"
    and ok: "locks_ok (world_abs W) n sc"
    and run: "section_step malloc pad i n f (sc_at sc f) (section_view W T sc) = Some (Inr v)"
    and calm: "\<not> rushed f (sc_at sc f) (sc_lock sc)"
    and wf': "world_wf (world_after n T v W)"
  shows "locks_ok (world_abs (world_after n T v W)) n (section_after v)"
proof -
  obtain q where q: "tp_storage T = [\<lparr>pt_queue = q, pt_mutex = sm_unlocked\<rparr>]" "mq_wf (en_heap (wo_env W)) q"
    "world_abs W n = Some (mq_abs (en_heap (wo_env W)) q)"
    by (rule topic_at_rest [OF wf T])
  define h where "h = map (\<lambda>m. (0 :: fiber, Pushed n m)) (mq_abs (en_heap (wo_env W)) q)"
  have h: "map snd h = map (Pushed n) (mq_abs (en_heap (wo_env W)) q)" by (simp add: h_def comp_def)
  let ?s = "(section_view W T sc)\<lparr>lt_history := h\<rparr>" and ?v = "v\<lparr>lt_history := h @ lt_history v\<rparr>"
  have "locked_inv malloc n ?s"
    using snd ok q h run_pushes [of n "[]" "mq_abs (en_heap (wo_env W)) q"]
    by (fastforce simp: locked_inv_def locks_ok_def data_inv_def stored_def)
  moreover have "section_step malloc pad i n f (lt_at ?s f) ?s = Some (Inr ?v)"
    using run by (simp add: section_step_history)
  moreover have "\<not> rushed f (lt_at ?s f) (lt_lock ?s)" using calm by simp
  ultimately have inv: "locked_inv malloc n ?v" by (rule section_keeps_inv)
  have "registry_find n (world_after n T v W) = Some (topic_after T v)" by (simp add: world_after_def)
  then obtain q' where q': "tp_storage (topic_after T v) = [\<lparr>pt_queue = q', pt_mutex = sm_unlocked\<rparr>]"
    "world_abs (world_after n T v W) n = Some (mq_abs (en_heap (wo_env (world_after n T v W))) q')"
    by (rule topic_at_rest [OF wf'])
  then have abs: "world_abs (world_after n T v W) n = Some (stored v)"
    using q(1) by (simp add: topic_after_def world_after_def stored_def)
  have "\<exists>ms. stored v = request_message r # ms" if "lt_at v g = Logging_commit r" for g r
    using inv that by (cases "stored v") (auto simp: locked_inv_def data_inv_def stored_def)
  with inv abs show ?thesis by (auto simp: locks_ok_def section_after_def locked_inv_def)
qed

subsection \<open>Events and the topics they concern\<close>

fun concerns :: "event \<Rightarrow> byte list option" where
  "concerns (Created n) = None"
| "concerns (Pushed n m) = Some n"
| "concerns (Fetched n x) = Some n"
| "concerns (Compared n m b) = Some n"
| "concerns (Removed n m b) = Some n"
| "concerns (Rejected rep) = None"

lemma effect_elsewhere: "effect B e = Some B' \<Longrightarrow> concerns e \<noteq> Some n \<Longrightarrow> B n \<noteq> None \<Longrightarrow> B' n = B n"
  by (cases e) (auto split: option.splits list.splits if_splits)

lemma history_elsewhere:
  "run_history B es = Some B' \<Longrightarrow> \<forall>e\<in>set es. concerns e \<noteq> Some n \<Longrightarrow> B n \<noteq> None \<Longrightarrow> B' n = B n"
proof (induction es arbitrary: B)
  case (Cons e es)
  then obtain B1 where B1: "effect B e = Some B1" "run_history B1 es = Some B'" by (auto split: option.splits)
  have "B1 n = B n" by (rule effect_elsewhere [OF B1(1)]) (use Cons.prems in simp_all)
  with Cons.IH [OF B1(2)] Cons.prems show ?case by simp
qed simp

lemma piece_concerns:
  assumes "section_step malloc pad i n f l s = Some (Inr v)" and "lt_history s = []"
  shows "\<forall>(g, e)\<in>set (lt_history v). g = f \<and> concerns e = Some n"
  using assms by (cases l) (auto simp: through_lock_Some Let_def result_simps split: if_splits)

text \<open>Outside the operations, a session creates topics and rejects requests, and that is all.\<close>

fun committing :: "'k activity \<Rightarrow> bool" where
  "committing (Committing k n r) = True"
| "committing a = False"

definition unconcerned :: "'k activity \<times> world_t \<times> event list \<Rightarrow> bool" where
  "unconcerned res \<longleftrightarrow> (\<forall>e\<in>set (snd (snd res)). concerns e = None) \<and> \<not> committing (fst res)"

lemma reject_unconcerned: "reject pf k c e t W = Inr res \<Longrightarrow> unconcerned res"
  by (auto simp: reject_def unconcerned_def)

lemma dispatch_unconcerned:
  assumes "dispatch pf hdr data k W = Inr res"
  shows "unconcerned res"
proof -
  have "unconcerned res" if "start_push pf hdr topic message k W = Inr res" for topic message
    using that by (auto simp: start_push_def result_simps unconcerned_def reject_def split: if_splits)
  moreover have "unconcerned res" if "start_pull pf hdr topic k W = Inr res" for topic
    using that by (auto simp: start_pull_def unconcerned_def reject_def split: if_splits)
  moreover have "unconcerned res" if "start_delete pf hdr topic message k W = Inr res" for topic message
    using that by (auto simp: start_delete_def result_simps unconcerned_def reject_def split: if_splits)
  ultimately show ?thesis
    using assms by (auto simp: dispatch_def Let_def intro: reject_unconcerned split: option.splits opcode_t.splits)
qed

lemma outside_concerns:
  assumes run: "fiber_step api pf a W = Inr res" and out: "section_topic a = None"
  shows "unconcerned res"
proof -
  have quiet: "\<not> committing b \<Longrightarrow> unconcerned (b, W, [])" "\<not> committing b \<Longrightarrow> unconcerned (b, W, [Rejected rep])"
    for b :: "'a activity" and rep
    by (simp_all add: unconcerned_def)
  show ?thesis
  proof (cases a)
    case (Reading k)
    with run show ?thesis
      by (auto simp: read_header_def Let_def quiet intro: dispatch_unconcerned split: option.splits if_splits prod.splits)
  next
    case (Reading_body k hdr)
    with run show ?thesis
      by (auto simp: read_body_def quiet intro: dispatch_unconcerned split: option.splits if_splits prod.splits)
  qed (use run out quiet in \<open>auto split: prod.splits bool.splits\<close>)
qed

subsection \<open>The invariant of calm runs\<close>

text \<open>Every session is where its topic's locks say it is.\<close>

definition whereabouts :: "platform_t \<Rightarrow> 'k locked_server_t \<Rightarrow> bool" where
  "whereabouts pf s \<longleftrightarrow>
     (\<forall>n f. sc_at (ls_sections s n) f \<noteq> Idle \<longleftrightarrow> ls_inside s f = Some n)
   \<and> (\<forall>n f. ls_inside s f = Some n \<longrightarrow> f < length (sv_sessions (ls_server s))
        \<and> world_abs (sv_world (ls_server s)) n \<noteq> None
        \<and> (\<exists>a. sv_sessions (ls_server s) ! f = Some a \<and> fits pf n a (sc_at (ls_sections s n) f)))"

lemma whereaboutsD:
  assumes "whereabouts pf s"
  shows "sc_at (ls_sections s n) f \<noteq> Idle \<longleftrightarrow> ls_inside s f = Some n"
    and "ls_inside s f = Some n \<Longrightarrow> f < length (sv_sessions (ls_server s))"
    and "ls_inside s f = Some n \<Longrightarrow> world_abs (sv_world (ls_server s)) n \<noteq> None"
    and "ls_inside s f = Some n \<Longrightarrow> sv_sessions (ls_server s) ! f = Some a \<Longrightarrow> fits pf n a (sc_at (ls_sections s n) f)"
  using assms by (fastforce simp: whereabouts_def simp del: world_abs_None)+

definition calm_inv :: "'k socket_api \<Rightarrow> ('k \<Rightarrow> byte list) \<Rightarrow> ('k \<Rightarrow> byte list) \<Rightarrow> platform_t \<Rightarrow> ('k \<Rightarrow> bool)
    \<Rightarrow> 'k locked_server_t \<Rightarrow> bool" where
  "calm_inv api inp out pf fresh s \<longleftrightarrow> interleaved_inv api inp out pf fresh (ls_server s, ls_history s)
     \<and> (\<forall>n. locks_ok (world_abs (sv_world (ls_server s))) n (ls_sections s n)) \<and> whereabouts pf s"

lemma calm_inv_init: "locked_server_init api inp out pf fresh s \<Longrightarrow> calm_inv api inp out pf fresh s"
  by (auto simp: locked_server_init_def calm_inv_def whereabouts_def locks_ok_def section_new_def sm_start_def placed_def
      sm_calm_inv_def sm_inv_def sm_unlocked_def intro!: interleaved_inv_init)

text \<open>A change of the server that keeps the world and the sessions inside operations.\<close>

lemma whereabouts_server:
  assumes "whereabouts pf s" and "length (sv_sessions (ls_server s)) \<le> length (sv_sessions S)"
    and "\<And>n. world_abs (sv_world (ls_server s)) n \<noteq> None \<Longrightarrow> world_abs (sv_world S) n \<noteq> None"
    and "\<And>f n. ls_inside s f = Some n \<Longrightarrow> sv_sessions S ! f = sv_sessions (ls_server s) ! f"
  shows "whereabouts pf (s\<lparr>ls_server := S, ls_history := h\<rparr>)"
proof -
  have at: "sc_at (ls_sections s n) f \<noteq> Idle \<longleftrightarrow> ls_inside s f = Some n" for n f
    using assms(1) by (simp add: whereabouts_def)
  have "f < length (sv_sessions S) \<and> world_abs (sv_world S) n \<noteq> None
      \<and> (\<exists>a. sv_sessions S ! f = Some a \<and> fits pf n a (sc_at (ls_sections s n) f))" if "ls_inside s f = Some n" for n f
  proof -
    have "f < length (sv_sessions (ls_server s))" "world_abs (sv_world (ls_server s)) n \<noteq> None"
      "\<exists>a. sv_sessions (ls_server s) ! f = Some a \<and> fits pf n a (sc_at (ls_sections s n) f)"
      using assms(1) that by (simp_all add: whereabouts_def)
    with assms(2) assms(3) [of n] assms(4) [OF that] show ?thesis by (simp del: world_abs_None)
  qed
  with at show ?thesis by (simp add: whereabouts_def)
qed

lemma calm_inv_server:
  assumes inv: "calm_inv api inp out pf fresh s" and "interleaved_inv api inp out pf fresh (S, h)"
    and "length (sv_sessions (ls_server s)) \<le> length (sv_sessions S)"
    and same: "\<And>n. world_abs (sv_world (ls_server s)) n \<noteq> None \<Longrightarrow> world_abs (sv_world S) n = world_abs (sv_world (ls_server s)) n"
    and "\<And>f n. ls_inside s f = Some n \<Longrightarrow> sv_sessions S ! f = sv_sessions (ls_server s) ! f"
  shows "calm_inv api inp out pf fresh (s\<lparr>ls_server := S, ls_history := h\<rparr>)"
proof -
  have "whereabouts pf (s\<lparr>ls_server := S, ls_history := h\<rparr>)"
    by (rule whereabouts_server) (use assms in \<open>auto simp: calm_inv_def\<close>)
  moreover have "locks_ok (world_abs (sv_world S)) n (ls_sections s n)" for n
    using inv same [of n] by (fastforce simp: calm_inv_def locks_ok_def)
  ultimately show ?thesis using assms(2) by (simp add: calm_inv_def)
qed

subsection \<open>Every step is a step of the coarser model, or none\<close>

lemma calm_inv_world: "calm_inv api inp out pf fresh s \<Longrightarrow> world_wf (sv_world (ls_server s))"
  by (simp add: calm_inv_def interleaved_inv_def)

lemma turn_outside:
  assumes inv: "calm_inv api inp out pf fresh s" and i: "i < length (sv_sessions (ls_server s))"
    and a: "sv_sessions (ls_server s) ! i = Some a" "section_topic a = None" "ls_inside s i = None"
    and run: "fiber_turn api pf i (ls_server s, ls_history s) = Inr (S, h)"
  shows "interleaved_step api pf fresh (ls_server s, ls_history s) (S, h)"
    and "calm_inv api inp out pf fresh (s\<lparr>ls_server := S, ls_history := h\<rparr>)"
proof -
  show step: "interleaved_step api pf fresh (ls_server s, ls_history s) (S, h)" by (rule fiber_served [OF i run])
  have il: "interleaved_inv api inp out pf fresh (ls_server s, ls_history s)" using inv by (simp add: calm_inv_def)
  from run a(1) obtain a' W' es where st: "fiber_step api pf a (sv_world (ls_server s)) = Inr (a', W', es)"
    and S: "S = (ls_server s)\<lparr>sv_sessions := (sv_sessions (ls_server s))[i := Some a'], sv_world := W'\<rparr>"
    by (auto simp: fiber_turn_def result_simps)
  from il have sok: "socket_ok api inp out" "malloc_sound (pf_malloc pf)" by (simp_all add: interleaved_inv_def)
  have hist: "run_history (world_abs (sv_world (ls_server s))) es = Some (world_abs W')"
    using fiber_step_sound [OF sok(1) calm_inv_world [OF inv] sok(2) st] by (simp add: sound_step_def)
  have "\<forall>e\<in>set es. concerns e \<noteq> Some n" for n using outside_concerns [OF st a(2)] by (simp add: unconcerned_def)
  note same = history_elsewhere [OF hist this]
  have "sv_sessions S ! f = sv_sessions (ls_server s) ! f" if "ls_inside s f = Some n" for f n
    using that a(3) by (cases "f = i") (simp_all add: S)
  then show "calm_inv api inp out pf fresh (s\<lparr>ls_server := S, ls_history := h\<rparr>)"
    by (intro calm_inv_server [OF inv interleaved_inv_step [OF il step]])
      (auto simp: S intro: same simp del: world_abs_None)
qed

text \<open>Entering an operation: the checks that the coarser model makes in the critical section have been made.\<close>

lemma storage_single: "length (tp_storage T) = 1 \<Longrightarrow> storage_at T i = Inr p \<Longrightarrow> i = 0"
  by (auto simp: storage_at_def unat_eq_0 split: if_splits)

lemma routed_by: "length (tp_storage T) = 1 \<Longrightarrow> push_index (request_hash (pf_hash_char pf)) r T = Inr 0 \<Longrightarrow> routed pf r"
  by (auto simp: routed_def push_index_def result_simps split: if_splits)

lemma enter_fits:
  assumes "enter_section pf a T = Inr l" and "length (tp_storage T) = 1" and "section_topic a = Some n"
  shows "fits pf n a l" and "l \<noteq> Idle" and "\<not> writes l" and "\<not> reads l" and "\<not> owns_write l" and "\<not> owns_read l"
    and "l \<noteq> Logging_commit r"
  using assms by (cases a; auto simp: result_simps dest: storage_single [OF assms(2)] intro: routed_by [OF assms(2)])+

lemma turn_enters:
  assumes inv: "calm_inv api inp out pf fresh s" and i: "i < length (sv_sessions (ls_server s))"
    and a: "sv_sessions (ls_server s) ! i = Some a" "section_topic a = Some n" "ls_inside s i = None"
    and run: "enter_turn pf i a n s = Inr t"
  shows "ls_server t = ls_server s" and "ls_history t = ls_history s" and "calm_inv api inp out pf fresh t"
proof -
  from run obtain T l where T: "registry_find n (sv_world (ls_server s)) = Some T"
    and l: "enter_section pf a T = Inr l" and t: "t = set_at n i l s"
    by (auto simp: enter_turn_def result_simps split: option.splits)
  show server: "ls_server t = ls_server s" "ls_history t = ls_history s" by (simp_all add: t set_at_def)
  note fit = enter_fits [OF l world_wfD(3) [OF calm_inv_world [OF inv] T] a(2)]
  have wh: "whereabouts pf s" and ok: "\<And>m. locks_ok (world_abs (sv_world (ls_server s))) m (ls_sections s m)"
    and il: "interleaved_inv api inp out pf fresh (ls_server s, ls_history s)"
    using inv by (simp_all add: calm_inv_def)
  have idle: "sc_at (ls_sections s m) i = Idle" for m using whereaboutsD(1) [OF wh, of m i] a(3) by simp
  have "placed ((sc_at (ls_sections s n))(i := l)) (sc_lock (ls_sections s n))"
    by (rule placed_move) (use ok [of n] idle [of n] fit in \<open>simp_all add: locks_ok_def\<close>)
  then have "locks_ok (world_abs (sv_world (ls_server t))) m (ls_sections t m)" for m
    using ok [of m] fit(7) by (auto simp: t set_at_def locks_ok_def)
  moreover have "whereabouts pf t"
    using wh i a T fit(1,2) idle by (auto simp: whereabouts_def t set_at_def)
  ultimately show "calm_inv api inp out pf fresh t" using il server by (simp add: calm_inv_def)
qed

lemma whereabouts_piece:
  assumes wh: "whereabouts pf s" and inside: "ls_inside s i = Some n"
    and a: "sv_sessions (ls_server s) ! i = Some a" and T: "registry_find n (sv_world (ls_server s)) = Some T"
    and run: "section_step malloc pad j n i (sc_at (ls_sections s n) i) (section_view (sv_world (ls_server s)) T (ls_sections s n)) = Some (Inr v)"
    and keeps: "\<And>m. world_abs (sv_world (ls_server s)) m \<noteq> None \<Longrightarrow> world_abs (world_after n T v (sv_world (ls_server s))) m \<noteq> None"
  shows "whereabouts pf (leave_piece pf i a n T v s)"
proof -
  have i: "i < length (sv_sessions (ls_server s))" and fit: "fits pf n a (sc_at (ls_sections s n) i)"
    using whereaboutsD(2,4) [OF wh inside] a by simp_all
  have others: "lt_at v f = sc_at (ls_sections s n) f" if "f \<noteq> i" for f
    using piece_moves_one [of malloc pad j n i "section_view (sv_world (ls_server s)) T (ls_sections s n)" v f] run that by simp
  have "fits pf n (foldl (after_event pf) a (map snd (lt_history v))) (lt_at v i)"
    using piece_fits [of pf n a "section_view (sv_world (ls_server s)) T (ls_sections s n)" i malloc pad j v] fit run by simp
  then show ?thesis
    using wh inside i others keeps
    by (auto simp: whereabouts_def leave_piece_def section_after_def Let_def nth_list_update simp del: world_abs_None)
qed

text \<open>A piece of an operation: nothing happens in the coarser model, or the whole critical section.\<close>

lemma piece_steps:
  assumes inv: "calm_inv api inp out pf fresh s" and i: "i < length (sv_sessions (ls_server s))"
    and a: "sv_sessions (ls_server s) ! i = Some a" and inside: "ls_inside s i = Some n"
    and T: "registry_find n (sv_world (ls_server s)) = Some T"
    and run: "section_step (pf_malloc pf) (pf_wall_pad pf) (section_index pf (sc_at (ls_sections s n) i) T) n i
        (sc_at (ls_sections s n) i) (section_view (sv_world (ls_server s)) T (ls_sections s n)) = Some (Inr v)"
  defines "t \<equiv> leave_piece pf i a n T v s"
  shows "(interleaved_step api pf fresh)\<^sup>*\<^sup>* (ls_server s, ls_history s) (ls_server t, ls_history t)"
    and "m \<noteq> n \<Longrightarrow> world_abs (sv_world (ls_server s)) m \<noteq> None \<Longrightarrow>
       world_abs (sv_world (ls_server t)) m = world_abs (sv_world (ls_server s)) m"
proof -
  let ?W = "sv_world (ls_server s)" and ?l = "sc_at (ls_sections s n) i"
  have wf: "world_wf ?W" by (rule calm_inv_world [OF inv])
  have fit: "fits pf n a ?l" using inv whereaboutsD(4) [OF _ inside a] by (simp add: calm_inv_def)
  have front: "\<exists>ms. world_abs ?W n = Some (request_message r # ms)" if "?l = Logging_commit r" for r
    using inv that by (fastforce simp: calm_inv_def locks_ok_def)
  have world: "sv_world (ls_server t) = world_after n T v ?W" by (simp add: t_def leave_piece_def Let_def)
  from piece_abstract [OF wf T fit front run, of api]
  have "(interleaved_step api pf fresh)\<^sup>*\<^sup>* (ls_server s, ls_history s) (ls_server t, ls_history t)
      \<and> (m \<noteq> n \<longrightarrow> world_abs ?W m \<noteq> None \<longrightarrow> world_abs (sv_world (ls_server t)) m = world_abs ?W m)"
  proof
    assume "quiet_piece ?W n T v"
    then have q: "lt_history v = []" "world_after n T v ?W = ?W" by (simp_all add: quiet_piece_def)
    then have "ls_server t = ls_server s" using a by (simp add: t_def leave_piece_def Let_def list_update_same_conv i)
    then show ?thesis using q by (simp add: t_def leave_piece_def Let_def)
  next
    assume "section_piece api pf ?W n T i a v"
    then obtain e where e: "lt_history v = [(i, e)]"
      and st: "fiber_step api pf a ?W = Inr (after_event pf a e, world_after n T v ?W, [e])"
      by (auto simp: section_piece_def)
    from inv have sok: "socket_ok api inp out" "malloc_sound (pf_malloc pf)" by (simp_all add: calm_inv_def interleaved_inv_def)
    have "interleaved_step api pf fresh (ls_server s, ls_history s) (ls_server t, ls_history t)"
      using turn_step [OF a i st, of fresh "ls_history s"] by (simp add: t_def leave_piece_def Let_def e)
    moreover have "effect (world_abs ?W) e = Some (world_abs (world_after n T v ?W))"
      using fiber_step_sound [OF sok(1) wf sok(2) st] by (simp add: sound_step_def del: run_history.simps)
    moreover have "concerns e = Some n" using piece_concerns [OF run] e by simp
    ultimately show ?thesis using effect_elsewhere world by (metis option.inject r_into_rtranclp)
  qed
  then show "(interleaved_step api pf fresh)\<^sup>*\<^sup>* (ls_server s, ls_history s) (ls_server t, ls_history t)"
    "m \<noteq> n \<Longrightarrow> world_abs ?W m \<noteq> None \<Longrightarrow> world_abs (sv_world (ls_server t)) m = world_abs ?W m" by blast+
qed

lemma il_runs:
  "(interleaved_step api pf fresh)\<^sup>*\<^sup>* s t \<Longrightarrow> interleaved_inv api inp out pf fresh s \<Longrightarrow> interleaved_inv api inp out pf fresh t"
  by (induction rule: rtranclp_induct) (auto intro: interleaved_inv_step)

lemma turn_piece:
  assumes inv: "calm_inv api inp out pf fresh s" and i: "i < length (sv_sessions (ls_server s))"
    and a: "sv_sessions (ls_server s) ! i = Some a" and inside: "ls_inside s i = Some n"
    and calm: "\<not> rushes i s" and run: "piece_turn pf i a n s = Some (Inr t)"
  shows "(interleaved_step api pf fresh)\<^sup>*\<^sup>* (ls_server s, ls_history s) (ls_server t, ls_history t)"
    and "calm_inv api inp out pf fresh t"
proof -
  let ?W = "sv_world (ls_server s)" and ?sc = "ls_sections s n"
  have wh: "whereabouts pf s" and ok: "\<And>m. locks_ok (world_abs ?W) m (ls_sections s m)"
    and il: "interleaved_inv api inp out pf fresh (ls_server s, ls_history s)" and wf: "world_wf ?W"
    using inv calm_inv_world [OF inv] by (simp_all add: calm_inv_def)
  have snd: "malloc_sound (pf_malloc pf)" using il by (simp add: interleaved_inv_def)
  have "world_abs ?W n \<noteq> None" by (rule whereaboutsD(3) [OF wh inside])
  then obtain T where T: "registry_find n ?W = Some T" by auto
  with run obtain v where v: "section_step (pf_malloc pf) (pf_wall_pad pf) (section_index pf (sc_at ?sc i) T) n i
        (sc_at ?sc i) (section_view ?W T ?sc) = Some (Inr v)" and t: "t = leave_piece pf i a n T v s"
    by (auto simp: piece_turn_def Let_def map_option_eq_Some result_simps)
  have world: "sv_world (ls_server t) = world_after n T v ?W" by (simp add: t leave_piece_def Let_def)
  note steps = piece_steps [OF inv i a inside T v, folded t]
  show run: "(interleaved_step api pf fresh)\<^sup>*\<^sup>* (ls_server s, ls_history s) (ls_server t, ls_history t)" by (rule steps(1))
  have il': "interleaved_inv api inp out pf fresh (ls_server t, ls_history t)" by (rule il_runs [OF run il])
  then have wf': "world_wf (world_after n T v ?W)" by (simp add: interleaved_inv_def world)
  have "\<not> rushed i (sc_at ?sc i) (sc_lock ?sc)" using calm inside by (simp add: rushes_def)
  note here = locks_ok_piece [OF wf T snd ok v this wf']
  have "locks_ok (world_abs (sv_world (ls_server t))) m (ls_sections t m)" for m
  proof (cases "m = n")
    case True
    then show ?thesis using here by (simp add: world t leave_piece_def Let_def)
  next
    case False
    then have "ls_sections t m = ls_sections s m" by (simp add: t leave_piece_def Let_def)
    then show ?thesis using ok [of m] steps(2) [OF False] by (fastforce simp: locks_ok_def)
  qed
  moreover have "whereabouts pf t" unfolding t
  proof (rule whereabouts_piece [OF wh inside a T v])
    fix m assume m: "world_abs ?W m \<noteq> None"
    show "world_abs (world_after n T v ?W) m \<noteq> None"
      using steps(2) [of m] m by (cases "m = n") (simp_all add: world_after_def world [symmetric])
  qed
  ultimately show "calm_inv api inp out pf fresh t" using il' by (simp add: calm_inv_def)
qed

lemma turn_steps:
  assumes inv: "calm_inv api inp out pf fresh s" and i: "i < length (sv_sessions (ls_server s))"
    and calm: "\<not> rushes i s" and run: "locked_turn api pf i s = Some (Inr t)"
  shows "(interleaved_step api pf fresh)\<^sup>*\<^sup>* (ls_server s, ls_history s) (ls_server t, ls_history t) \<and> calm_inv api inp out pf fresh t"
proof -
  from run obtain a where a: "sv_sessions (ls_server s) ! i = Some a" by (auto simp: locked_turn_def split: option.splits)
  show ?thesis
  proof (cases "ls_inside s i")
    case (Some n)
    with run a have "piece_turn pf i a n s = Some (Inr t)" by (simp add: locked_turn_def)
    from turn_piece [OF inv i a Some calm this] show ?thesis by blast
  next
    case None
    show ?thesis
    proof (cases "section_topic a")
      case (Some n)
      with run a None have "enter_turn pf i a n s = Inr t" by (simp add: locked_turn_def)
      from turn_enters [OF inv i a Some None this] show ?thesis by simp
    next
      case out: None
      with run a None obtain S h where st: "fiber_turn api pf i (ls_server s, ls_history s) = Inr (S, h)"
        and t: "t = s\<lparr>ls_server := S, ls_history := h\<rparr>" by (auto simp: locked_turn_def result_simps)
      from turn_outside [OF inv i a out None st] show ?thesis by (auto simp: t)
    qed
  qed
qed

lemma calm_inv_wakes:
  assumes inv: "calm_inv api inp out pf fresh s" and wake: "sm_exec Wake_next (sc_lock (ls_sections s n)) = Some L"
  shows "calm_inv api inp out pf fresh (set_lock n L s)"
proof -
  have ok: "locks_ok (world_abs (sv_world (ls_server s))) m (ls_sections s m)" for m using inv by (simp add: calm_inv_def)
  have "sm_calm_inv L"
    by (rule sm_calm_inv_step [OF _ sm_calm [OF wake]]) (use ok [of n] in \<open>simp_all add: locks_ok_def\<close>)
  moreover have "placed (sc_at (ls_sections s n)) L" using ok [of n] placed_wake [OF _ wake] by (simp add: locks_ok_def)
  ultimately have "locks_ok (world_abs (sv_world (ls_server s))) m (ls_sections (set_lock n L s) m)" for m
    using ok [of m] ok [of n] by (simp add: set_lock_def locks_ok_def)
  with inv show ?thesis by (simp add: calm_inv_def whereabouts_def set_lock_def)
qed

lemma calm_step:
  assumes inv: "calm_inv api inp out pf fresh s" and step: "locked_server_step True api pf fresh s t"
  shows "(interleaved_step api pf fresh)\<^sup>*\<^sup>* (ls_server s, ls_history s) (ls_server t, ls_history t) \<and> calm_inv api inp out pf fresh t"
proof -
  have il: "interleaved_inv api inp out pf fresh (ls_server s, ls_history s)" using inv by (simp add: calm_inv_def)
  have server: ?thesis if st: "interleaved_step api pf fresh (ls_server s, ls_history s) (S, ls_history s)"
      and t: "t = s\<lparr>ls_server := S\<rparr>" and "length (sv_sessions (ls_server s)) \<le> length (sv_sessions S)"
      and "sv_world S = sv_world (ls_server s)"
      and "\<And>f. f < length (sv_sessions (ls_server s)) \<Longrightarrow> sv_sessions S ! f = sv_sessions (ls_server s) ! f" for S
  proof -
    have "calm_inv api inp out pf fresh (s\<lparr>ls_server := S, ls_history := ls_history s\<rparr>)"
      by (rule calm_inv_server [OF inv interleaved_inv_step [OF il st]])
        (use that inv in \<open>auto simp: calm_inv_def dest!: whereaboutsD(2)\<close>)
    with st t show ?thesis by auto
  qed
  from step show ?thesis
  proof (cases rule: locked_server_step.cases)
    case (ls_accepted r)
    show ?thesis
      by (rule server [OF fiber_accepted [OF ls_accepted(2-4)] ls_accepted(1)]) (cases r; simp add: nth_append)+
  next
    case ls_aborted
    show ?thesis by (rule server [OF fiber_aborted [OF ls_aborted(2,3)] ls_aborted(1)]) simp_all
  next
    case ls_stopped
    show ?thesis by (rule server [OF fiber_stopped ls_stopped]) (simp_all add: server_stop_def)
  next
    case (ls_turn i)
    then show ?thesis by (intro turn_steps [OF inv]) simp_all
  next
    case (ls_wakes n L)
    with calm_inv_wakes [OF inv ls_wakes(2)] show ?thesis by (simp add: set_lock_def)
  qed
qed

definition coarse_rel :: "'k socket_api \<Rightarrow> ('k \<Rightarrow> byte list) \<Rightarrow> ('k \<Rightarrow> byte list) \<Rightarrow> platform_t \<Rightarrow> ('k \<Rightarrow> bool)
    \<Rightarrow> 'k locked_server_t \<Rightarrow> 'k run_state \<Rightarrow> bool" where
  "coarse_rel api inp out pf fresh s t \<longleftrightarrow> t = (ls_server s, ls_history s) \<and> calm_inv api inp out pf fresh s"

interpretation coarse: forward_simulation "locked_server_init api inp out pf fresh" "locked_server_step True api pf fresh"
    "interleaved_init api inp out pf fresh" "interleaved_step api pf fresh" "coarse_rel api inp out pf fresh"
  for api inp out pf fresh
proof
  fix s t s'
  show "locked_server_init api inp out pf fresh s \<Longrightarrow> \<exists>t. interleaved_init api inp out pf fresh t \<and> coarse_rel api inp out pf fresh s t"
    by (frule calm_inv_init) (auto simp: coarse_rel_def locked_server_init_def)
  show "coarse_rel api inp out pf fresh s t \<Longrightarrow> locked_server_step True api pf fresh s s' \<Longrightarrow>
      \<exists>t'. (interleaved_step api pf fresh)\<^sup>*\<^sup>* t t' \<and> coarse_rel api inp out pf fresh s' t'"
    using calm_step [of api inp out pf fresh s s'] by (auto simp: coarse_rel_def)
qed

end
