(* ===== verification/LockedServerExact.thy ===== *)
theory LockedServerExact
  imports LockedServerRefines
begin

section \<open>Every interleaving of critical sections is a run under the locks\<close>

text \<open>
  The converse of \<open>LockedServerRefines\<close>: what \<open>interleaved_step\<close> does in one step, a session does under
  the locks while the others stand still. So the coarser model has neither more nor fewer
  behaviours than the calm runs of the server with its locks.
\<close>

subsection \<open>Parked states\<close>

text \<open>
  All locks are free. A session between the two halves of \<open>remove\<close> is inside the operation, about to
  ask for the write lock; all others are outside.
\<close>

fun parked_activity :: "byte list \<Rightarrow> 'k activity \<Rightarrow> location" where
  "parked_activity n (Committing k m r) = (if m = n then Asking_commit r else Idle)"
| "parked_activity n a = Idle"

definition parked_at :: "'k activity server_t \<Rightarrow> byte list \<Rightarrow> nat \<Rightarrow> location" where
  "parked_at S n f = (if f < length (sv_sessions S)
     then (case sv_sessions S ! f of None \<Rightarrow> Idle | Some a \<Rightarrow> parked_activity n a) else Idle)"

definition parked_inside :: "'k activity server_t \<Rightarrow> nat \<Rightarrow> byte list option" where
  "parked_inside S f = (if f < length (sv_sessions S)
     then (case sv_sessions S ! f of Some (Committing k m r) \<Rightarrow> Some m | _ \<Rightarrow> None) else None)"

definition parked :: "'k activity server_t \<Rightarrow> (nat \<times> event) list \<Rightarrow> 'k locked_server_t" where
  "parked S h = \<lparr>ls_server = S, ls_history = h, ls_sections = (\<lambda>n. section_new\<lparr>sc_at := parked_at S n\<rparr>),
     ls_inside = parked_inside S\<rparr>"

text \<open>Session \<open>i\<close> has got as far as \<open>sc\<close> in the operation on topic \<open>n\<close>.\<close>

definition put_section :: "nat \<Rightarrow> byte list \<Rightarrow> section_t \<Rightarrow> 'k locked_server_t \<Rightarrow> 'k locked_server_t" where
  "put_section i n sc s = s\<lparr>ls_sections := (ls_sections s)(n := sc),
     ls_inside := (ls_inside s)(i := if sc_at sc i = Idle then None else Some n)\<rparr>"

lemma put_section_simps [simp]:
  "ls_server (put_section i n sc s) = ls_server s" "ls_history (put_section i n sc s) = ls_history s"
  "ls_sections (put_section i n sc s) n = sc"
  "put_section i n sc' (put_section i n sc s) = put_section i n sc' s"
  "ls_inside (put_section i n sc s) i = (if sc_at sc i = Idle then None else Some n)"
  by (simp_all add: put_section_def)

abbreviation calm_runs :: "'k socket_api \<Rightarrow> platform_t \<Rightarrow> ('k \<Rightarrow> bool) \<Rightarrow> 'k locked_server_t \<Rightarrow> 'k locked_server_t \<Rightarrow> bool" where
  "calm_runs api pf fresh \<equiv> (locked_server_step True api pf fresh)\<^sup>*\<^sup>*"

subsection \<open>One piece\<close>

text \<open>The session's position and the state around it, which the pieces below share.\<close>

definition stands :: "nat \<Rightarrow> 'k activity \<Rightarrow> byte list \<Rightarrow> topic_t \<Rightarrow> 'k locked_server_t \<Rightarrow> bool" where
  "stands i a n T s \<longleftrightarrow> i < length (sv_sessions (ls_server s)) \<and> sv_sessions (ls_server s) ! i = Some a
     \<and> registry_find n (sv_world (ls_server s)) = Some T \<and> tp_storage T \<noteq> []"

lemma run_piece:
  assumes i: "i < length (sv_sessions (ls_server s))" and a: "sv_sessions (ls_server s) ! i = Some a"
    and T: "registry_find n (sv_world (ls_server s)) = Some T"
    and busy: "sc_at sc i \<noteq> Idle" and calm: "\<not> rushed i (sc_at sc i) (sc_lock sc)"
    and run: "section_step (pf_malloc pf) (pf_wall_pad pf) (section_index pf (sc_at sc i) T) n i (sc_at sc i)
        (section_view (sv_world (ls_server s)) T sc) = Some (Inr v)"
  shows "locked_server_step True api pf fresh (put_section i n sc s) (leave_piece pf i a n T v (put_section i n sc s))"
  by (rule ls_turn [of i])
    (use assms in \<open>simp_all add: rushes_def locked_turn_def piece_turn_def Let_def split: option.split\<close>)

lemma run_quiet_piece:
  assumes i: "i < length (sv_sessions (ls_server s))" and a: "sv_sessions (ls_server s) ! i = Some a"
    and T: "registry_find n (sv_world (ls_server s)) = Some T" and T1: "tp_storage T \<noteq> []"
    and busy: "sc_at sc i \<noteq> Idle" and calm: "\<not> rushed i (sc_at sc i) (sc_lock sc)"
    and run: "section_step (pf_malloc pf) (pf_wall_pad pf) (section_index pf (sc_at sc i) T) n i (sc_at sc i)
        (section_view (sv_world (ls_server s)) T sc) = Some (Inr v)"
    and same: "lt_history v = []" "lt_heap v = en_heap (wo_env (sv_world (ls_server s)))"
      "lt_files v = en_files (wo_env (sv_world (ls_server s)))"
      "lt_writer v = tp_wall_write T" "lt_queue v = pt_queue (tp_storage T ! 0)"
  shows "locked_server_step True api pf fresh (put_section i n sc s) (put_section i n (section_after v) s)"
proof -
  have "world_after n T v (sv_world (ls_server s)) = sv_world (ls_server s)" by (rule world_after_same [OF T T1 same(2-5)])
  then have "leave_piece pf i a n T v (put_section i n sc s) = put_section i n (section_after v) s"
    using a i same(1) by (simp add: leave_piece_def put_section_def section_after_def Let_def list_update_same_conv)
  with run_piece [OF i a T busy calm run, of api fresh] show ?thesis by simp
qed

text \<open>The piece that is the critical section.\<close>

definition answered :: "nat \<Rightarrow> 'k activity \<Rightarrow> world_t \<Rightarrow> event \<Rightarrow> 'k locked_server_t \<Rightarrow> 'k locked_server_t" where
  "answered i a W e s = s\<lparr>ls_server := (ls_server s)\<lparr>sv_sessions := (sv_sessions (ls_server s))[i := Some a], sv_world := W\<rparr>,
     ls_history := ls_history s @ [(i, e)]\<rparr>"

lemma run_section_piece:
  assumes here: "stands i a n T s" and busy: "sc_at sc i \<noteq> Idle" and calm: "\<not> rushed i (sc_at sc i) (sc_lock sc)"
    and run: "section_step (pf_malloc pf) (pf_wall_pad pf) (section_index pf (sc_at sc i) T) n i (sc_at sc i)
        (section_view (sv_world (ls_server s)) T sc) = Some (Inr v)"
    and piece: "section_piece api pf (sv_world (ls_server s)) n T i a v"
    and st: "fiber_step api pf a (sv_world (ls_server s)) = Inr (a', W', es)"
  obtains e where "es = [e]" and "stands i a' n (topic_after T v) (answered i a' W' e s)" and
    "locked_server_step True api pf fresh (put_section i n sc s) (put_section i n (section_after v) (answered i a' W' e s))"
proof -
  obtain e where e: "lt_history v = [(i, e)]" "es = [e]" "a' = after_event pf a e" "W' = world_after n T v (sv_world (ls_server s))"
    using piece st by (auto simp: section_piece_def)
  have i: "i < length (sv_sessions (ls_server s))" and a: "sv_sessions (ls_server s) ! i = Some a"
    and T: "registry_find n (sv_world (ls_server s)) = Some T" "tp_storage T \<noteq> []" using here by (simp_all add: stands_def)
  have "stands i a' n (topic_after T v) (answered i a' W' e s)"
    using i T(2) by (simp add: stands_def answered_def e(4) world_after_def topic_after_def)
  moreover have "leave_piece pf i a n T v (put_section i n sc s) = put_section i n (section_after v) (answered i a' W' e s)"
    by (simp add: leave_piece_def put_section_def section_after_def answered_def Let_def e)
  ultimately show thesis using run_piece [OF i a T(1) busy calm run, of api fresh] that [OF e(2)] by simp
qed

subsection \<open>The locks of a session that meets nobody\<close>

definition writer_alone :: "fiber \<Rightarrow> sm_sys" where
  "writer_alone i = \<lparr>sm_mutex = sm_unlocked\<lparr>sm_writer_active := True\<rparr>, sm_writers = [i], sm_readers = [], sm_wakers = 0\<rparr>"

definition reader_alone :: "fiber \<Rightarrow> sm_sys" where
  "reader_alone i = \<lparr>sm_mutex = sm_unlocked\<lparr>sm_reader_count := 1\<rparr>, sm_writers = [], sm_readers = [i], sm_wakers = 0\<rparr>"

lemma alone_exec:
  "sm_exec (Lock i) sm_start = Some (writer_alone i)" "sm_exec (Unlock_write i) (writer_alone i) = Some sm_start"
  "sm_exec (Lock_shared i) sm_start = Some (reader_alone i)" "sm_exec (Unlock_read i) (reader_alone i) = Some sm_start"
  by (simp_all add: writer_alone_def reader_alone_def sm_start_def sm_unlocked_def sm_op_defs dec_size_def opt_list_def)

lemma alone_fields [simp]:
  "sm_writers (writer_alone i) = [i]" "sm_readers (reader_alone i) = [i]"
  "sm_wakers (writer_alone i) = 0" "sm_wakers (reader_alone i) = 0" "sm_wakers sm_start = 0"
  by (simp_all add: writer_alone_def reader_alone_def sm_start_def)

abbreviation section_with :: "sm_sys \<Rightarrow> (fiber \<Rightarrow> location) \<Rightarrow> section_t" where
  "section_with L at \<equiv> section_new\<lparr>sc_lock := L, sc_at := at\<rparr>"

lemma run_lock_piece:
  assumes here: "stands i a n T s" and busy: "at i \<noteq> Idle"
    and lock: "\<And>v m j. section_step (pf_malloc pf) m j n i (at i) v = through_lock e i l v"
    and exec: "sm_exec e L = Some L'" and calm: "sm_wakers L = 0"
  shows "locked_server_step True api pf fresh (put_section i n (section_with L at) s)
     (put_section i n (section_with L' (at(i := l))) s)"
proof -
  let ?v = "move_to i l ((section_view (sv_world (ls_server s)) T (section_with L at))\<lparr>lt_lock := L'\<rparr>)"
  have run: "section_step (pf_malloc pf) (pf_wall_pad pf) (section_index pf (sc_at (section_with L at) i) T) n i
      (sc_at (section_with L at) i) (section_view (sv_world (ls_server s)) T (section_with L at)) = Some (Inr ?v)"
    using lock exec by (simp add: through_lock_def)
  have "section_after ?v = section_with L' (at(i := l))"
    by (simp add: section_after_def move_to_def section_view_def section_new_def)
  moreover have "locked_server_step True api pf fresh (put_section i n (section_with L at) s) (put_section i n (section_after ?v) s)"
    by (rule run_quiet_piece [OF _ _ _ _ _ _ run])
      (use here busy calm in \<open>simp_all add: stands_def move_to_def rushed_def\<close>)
  ultimately show ?thesis by simp
qed

lemma run_asks:
  assumes "stands i a n T s"
  shows "locked_server_step True api pf fresh (put_section i n (section_with sm_start (at(i := Asking_push r))) s)
      (put_section i n (section_with (writer_alone i) (at(i := At_push r))) s)"
    and "locked_server_step True api pf fresh (put_section i n (section_with sm_start (at(i := Asking_commit r))) s)
      (put_section i n (section_with (writer_alone i) (at(i := At_commit r))) s)"
    and "locked_server_step True api pf fresh (put_section i n (section_with sm_start (at(i := Asking_read))) s)
      (put_section i n (section_with (reader_alone i) (at(i := At_read))) s)"
    and "locked_server_step True api pf fresh (put_section i n (section_with sm_start (at(i := Asking_check r))) s)
      (put_section i n (section_with (reader_alone i) (at(i := At_check r))) s)"
  using run_lock_piece [OF assms _ _ alone_exec(1) [of i], where at = "at(i := Asking_push r)" and pf = pf and l = "At_push r" and api = api and fresh = fresh]
    run_lock_piece [OF assms _ _ alone_exec(1) [of i], where at = "at(i := Asking_commit r)" and pf = pf and l = "At_commit r" and api = api and fresh = fresh]
    run_lock_piece [OF assms _ _ alone_exec(3) [of i], where at = "at(i := Asking_read)" and pf = pf and l = "At_read" and api = api and fresh = fresh]
    run_lock_piece [OF assms _ _ alone_exec(3) [of i], where at = "at(i := Asking_check r)" and pf = pf and l = "At_check r" and api = api and fresh = fresh]
  by simp_all

lemma run_leaves:
  assumes "stands i a n T s"
  shows "locked_server_step True api pf fresh (put_section i n (section_with (writer_alone i) (at(i := Leaving_write))) s)
      (put_section i n (section_with sm_start (at(i := Idle))) s)"
    and "locked_server_step True api pf fresh (put_section i n (section_with (reader_alone i) (at(i := Leaving_read again))) s)
      (put_section i n (section_with sm_start (at(i := (case again of None \<Rightarrow> Idle | Some r \<Rightarrow> Asking_commit r)))) s)"
  using run_lock_piece [OF assms _ _ alone_exec(2) [of i], where at = "at(i := Leaving_write)" and pf = pf and l = Idle and api = api and fresh = fresh]
    run_lock_piece [OF assms _ _ alone_exec(4) [of i], where at = "at(i := Leaving_read again)" and pf = pf and l = "case again of None \<Rightarrow> Idle | Some r \<Rightarrow> Asking_commit r" and api = api and fresh = fresh]
  by simp_all

text \<open>\<open>wall_mutex_\<close>, asked for by a writer that is alone.\<close>

abbreviation section_logging :: "fiber \<Rightarrow> (fiber \<Rightarrow> location) \<Rightarrow> section_t" where
  "section_logging i at \<equiv> \<lparr>sc_lock = writer_alone i, sc_wall = \<lparr>um_locked = True, um_waiters = []\<rparr>, sc_logging = [i], sc_at = at\<rparr>"

lemma run_wall_piece:
  assumes here: "stands i a n T s" and busy: "at i \<noteq> Idle" and calm: "lock_event i (at i) = None"
    and run: "section_step (pf_malloc pf) (pf_wall_pad pf) (section_index pf (at i) T) n i (at i)
        (section_view (sv_world (ls_server s)) T (section_with (writer_alone i) at)) =
        Some (Inr (ask_wall i l (section_view (sv_world (ls_server s)) T (section_with (writer_alone i) at))))"
  shows "locked_server_step True api pf fresh (put_section i n (section_with (writer_alone i) at) s)
     (put_section i n (section_logging i (at(i := l))) s)"
proof -
  let ?v = "ask_wall i l (section_view (sv_world (ls_server s)) T (section_with (writer_alone i) at))"
  have run': "section_step (pf_malloc pf) (pf_wall_pad pf) (section_index pf (sc_at (section_with (writer_alone i) at) i) T) n i
      (sc_at (section_with (writer_alone i) at) i) (section_view (sv_world (ls_server s)) T (section_with (writer_alone i) at)) = Some (Inr ?v)"
    using run by simp
  have "section_after ?v = section_logging i (at(i := l))"
    by (simp add: section_after_def ask_wall_def move_to_def section_view_def section_new_def um_async_lock_def um_unlocked_def)
  moreover have "locked_server_step True api pf fresh (put_section i n (section_with (writer_alone i) at) s) (put_section i n (section_after ?v) s)"
    by (rule run_quiet_piece [OF _ _ _ _ _ _ run']) (use here busy calm in \<open>simp_all add: stands_def rushed_def\<close>)
  ultimately show ?thesis by simp
qed

lemma log_and_release_section:
  "section_after (note_event i e (move_to i l ((log_and_release pad d i (section_view W T (section_logging i at)))\<lparr>lt_heap := h, lt_queue := q\<rparr>))) =
     section_with (writer_alone i) (at(i := l))"
  by (simp add: section_after_def log_and_release_eq note_event_def move_to_def section_view_def section_new_def um_unlock_def um_unlocked_def)

lemma event_section:
  "section_after (note_event i e (move_to i l (section_view W T (section_with L at)))) = section_with L (at(i := l))"
  by (simp add: section_after_def note_event_def move_to_def section_view_def section_new_def)

subsection \<open>Parked states again\<close>

lemma parked_activity_other: "\<not> committing a \<Longrightarrow> parked_activity n a = Idle"
  by (cases a) simp_all

lemma parked_at_update:
  assumes "i < length (sv_sessions S)"
  shows "parked_at (S\<lparr>sv_sessions := (sv_sessions S)[i := Some a], sv_world := W\<rparr>) n = (parked_at S n)(i := parked_activity n a)"
  using assms by (auto simp: parked_at_def fun_eq_iff nth_list_update)

lemma parked_inside_at: "parked_inside S i = Some n \<longleftrightarrow> parked_at S n i \<noteq> Idle"
  by (auto simp: parked_inside_def parked_at_def split: option.split activity.split)

lemma parked_inside_update:
  assumes "i < length (sv_sessions S)"
  shows "parked_inside (S\<lparr>sv_sessions := (sv_sessions S)[i := Some a], sv_world := W\<rparr>) =
     (parked_inside S)(i := (case a of Committing k m r \<Rightarrow> Some m | _ \<Rightarrow> None))"
  using assms by (auto simp: parked_inside_def fun_eq_iff nth_list_update)

text \<open>Where a run of one operation starts and where it ends.\<close>

lemma parked_enters:
  assumes i: "i < length (sv_sessions S)" and a: "sv_sessions S ! i = Some a" "section_topic a = Some n" "\<not> committing a"
    and T: "registry_find n (sv_world S) = Some T" and l: "enter_section pf a T = Inr l" "l \<noteq> Idle"
  shows "locked_server_step True api pf fresh (parked S h)
     (put_section i n (section_with sm_start ((parked_at S n)(i := l))) (parked S h))"
proof -
  have "parked_inside S i = None" using i a by (cases a) (simp_all add: parked_inside_def)
  then have "locked_turn api pf i (parked S h) = Some (Inr (set_at n i l (parked S h)))" "\<not> rushes i (parked S h)"
    using a T l by (simp_all add: locked_turn_def enter_turn_def parked_def rushes_def)
  moreover have "set_at n i l (parked S h) = put_section i n (section_with sm_start ((parked_at S n)(i := l))) (parked S h)"
    using l(2) by (simp add: set_at_def put_section_def parked_def section_new_def)
  ultimately show ?thesis using i by (intro ls_turn [of i]) (simp_all add: parked_def)
qed

lemma parked_commits:
  assumes "i < length (sv_sessions S)" and "sv_sessions S ! i = Some (Committing k n r)"
  shows "parked S h = put_section i n (section_with sm_start (parked_at S n)) (parked S h)"
proof -
  have "parked_at S n i = Asking_commit r" "parked_inside S i = Some n"
    using assms by (simp_all add: parked_at_def parked_inside_def)
  then show ?thesis by (auto simp: put_section_def parked_def section_new_def fun_eq_iff)
qed

lemma parked_after:
  assumes i: "i < length (sv_sessions S)" and a: "sv_sessions S ! i = Some a" "section_topic a = Some n"
    and a': "committing a' \<Longrightarrow> section_topic a' = Some n"
  shows "put_section i n (section_with sm_start ((parked_at S n)(i := parked_activity n a'))) (answered i a' W' e (parked S h)) =
     parked (S\<lparr>sv_sessions := (sv_sessions S)[i := Some a'], sv_world := W'\<rparr>) (h @ [(i, e)])"
proof -
  have "parked_at S m i = Idle" if "m \<noteq> n" for m using i a that by (cases a) (simp_all add: parked_at_def)
  moreover have "parked_activity m a' = Idle" if "m \<noteq> n" for m using a' that by (cases a') simp_all
  moreover have "(case a' of Committing k m r \<Rightarrow> Some m | _ \<Rightarrow> None) = (if parked_activity n a' = Idle then None else Some n)"
    using a' by (cases a') simp_all
  ultimately show ?thesis
    using i by (auto simp: put_section_def answered_def parked_def section_new_def parked_at_update parked_inside_update fun_eq_iff)
qed

subsection \<open>The operations, run alone\<close>

lemma push_runs:
  assumes wf: "world_wf (sv_world S)" and i: "i < length (sv_sessions S)" and a: "sv_sessions S ! i = Some (Pushing k n r)"
    and st: "fiber_step api pf (Pushing k n r) (sv_world S) = Inr (a', W', es)"
  shows "calm_runs api pf fresh (parked S h)
     (parked (S\<lparr>sv_sessions := (sv_sessions S)[i := Some a'], sv_world := W'\<rparr>) (h @ map (Pair i) es))"
proof -
  let ?W = "sv_world S" and ?a = "Pushing k n r" and ?P = "parked S h" and ?at = "parked_at S n"
  from st obtain u T t where T: "registry_find n ?W = Some T"
    and push: "topic_push (pf_malloc pf) (request_hash (pf_hash_char pf)) (pf_wall_pad pf) (pf_fiber pf) r (wo_env ?W, T) = Inr t"
    and a': "a' = Answering k (ok_response pf (opcode_value PUSH))"
    by (auto simp: result_simps elim!: on_topic_Inr)
  obtain q where q: "tp_storage T = [\<lparr>pt_queue = q, pt_mutex = sm_unlocked\<rparr>]" "tp_wall_mutex T = um_unlocked"
    by (rule topic_at_rest [OF wf T])
  from push obtain j m g q' it where j: "push_index (request_hash (pf_hash_char pf)) r T = Inr j" "storage_at T j = Inr (tp_storage T ! 0)"
    and m: "view_read r (message_view r) = Inr m" and mq: "mq_push (pf_malloc pf) (en_heap (wo_env ?W)) q m = Inr (g, q', it)"
    by (auto simp: topic_push_def result_simps storage_at_def q unat_eq_0 await_write_free topic_log_free partition_push_def split: if_splits)
  have j0: "j = 0" using storage_single [OF _ j(2)] q by simp
  have r: "routed pf r" using routed_by [of T pf r] j(1) q j0 by simp
  have here: "stands i ?a n T ?P" using i a T q by (simp add: stands_def parked_def)
  let ?c1 = "section_with sm_start (?at(i := Asking_push r))" and ?c2 = "section_with (writer_alone i) (?at(i := At_push r))"
  let ?c3 = "section_logging i (?at(i := Logging_push r))" and ?c4 = "section_with (writer_alone i) (?at(i := Leaving_write))"
  let ?v = "note_event i (Pushed n m) (move_to i Leaving_write
          ((log_and_release (pf_wall_pad pf) (wall_data_for 0 True r) i (section_view ?W T ?c3))\<lparr>lt_heap := g, lt_queue := q'\<rparr>))"
  have s1: "locked_server_step True api pf fresh ?P (put_section i n ?c1 ?P)"
    by (rule parked_enters [OF i a _ _ T]) (use j in simp_all)
  have s2: "locked_server_step True api pf fresh (put_section i n ?c1 ?P) (put_section i n ?c2 ?P)"
    by (rule run_asks(1) [OF here])
  have s3: "locked_server_step True api pf fresh (put_section i n ?c2 ?P) (put_section i n ?c3 ?P)"
    using run_wall_piece [OF here, of "?at(i := At_push r)" pf "Logging_push r"] by simp
  have idx: "section_index pf (Logging_push r) T = 0" using j(1) j0 by simp
  have v: "section_step (pf_malloc pf) (pf_wall_pad pf) 0 n i (Logging_push r) (section_view ?W T ?c3) = Some (Inr ?v)"
    using m mq q by (simp add: Let_def)
  obtain e where e: "es = [e]" and there: "stands i a' n (topic_after T ?v) (answered i a' W' e ?P)"
    and s4: "locked_server_step True api pf fresh (put_section i n ?c3 ?P) (put_section i n (section_after ?v) (answered i a' W' e ?P))"
    by (rule run_section_piece [OF here, of ?c3 pf ?v api a' W' es fresh])
      (use v idx st push_piece [OF wf T r v] in \<open>simp_all add: parked_def\<close>)
  have c4: "section_after ?v = ?c4" by (simp add: log_and_release_section)
  have s5: "locked_server_step True api pf fresh (put_section i n ?c4 (answered i a' W' e ?P))
      (parked (S\<lparr>sv_sessions := (sv_sessions S)[i := Some a'], sv_world := W'\<rparr>) (h @ map (Pair i) es))"
    using run_leaves(1) [OF there, of api pf fresh ?at] parked_after [OF i a, where a' = a' and W' = W' and e = e and h = h and n = n] by (simp add: a' e)
  from s1 s2 s3 s4 [unfolded c4] s5 show ?thesis by (meson converse_rtranclp_into_rtranclp rtranclp.rtrancl_refl)
qed

lemma calm_run3: "locked_server_step c api pf fresh s t \<Longrightarrow> locked_server_step c api pf fresh t u \<Longrightarrow>
    locked_server_step c api pf fresh u v \<Longrightarrow> (locked_server_step c api pf fresh)\<^sup>*\<^sup>* s v"
  by (meson converse_rtranclp_into_rtranclp rtranclp.rtrancl_refl)

lemma pull_runs:
  assumes wf: "world_wf (sv_world S)" and i: "i < length (sv_sessions S)" and a: "sv_sessions S ! i = Some (Pulling k n pid)"
    and st: "fiber_step api pf (Pulling k n pid) (sv_world S) = Inr (a', W', es)"
  shows "calm_runs api pf fresh (parked S h)
     (parked (S\<lparr>sv_sessions := (sv_sessions S)[i := Some a'], sv_world := W'\<rparr>) (h @ map (Pair i) es))"
proof -
  let ?W = "sv_world S" and ?a = "Pulling k n pid" and ?P = "parked S h" and ?at = "parked_at S n"
  from st obtain T t x where T: "registry_find n ?W = Some T"
    and rd: "topic_read (pf_fiber pf) pid (wo_env ?W, T) = Inr (t, x)" and a': "\<exists>bytes. a' = Answering k bytes"
    by (auto simp: result_simps elim!: on_topic_Inr)
  obtain q where q: "tp_storage T = [\<lparr>pt_queue = q, pt_mutex = sm_unlocked\<rparr>]" by (rule topic_at_rest [OF wf T])
  from rd obtain p where p: "kassert_ne pid INVALID_TOPIC_ID = Inr ()" "storage_at T pid = Inr p"
    by (auto simp: topic_read_def result_simps)
  have pid: "pid = 0" using storage_single [OF _ p(2)] q by simp
  have here: "stands i ?a n T ?P" using i a T q by (simp add: stands_def parked_def)
  let ?c1 = "section_with sm_start (?at(i := Asking_read))" and ?c2 = "section_with (reader_alone i) (?at(i := At_read))"
  let ?v = "note_event i (Fetched n x) (move_to i (Leaving_read None) (section_view ?W T ?c2))"
  have s1: "locked_server_step True api pf fresh ?P (put_section i n ?c1 ?P)"
    by (rule parked_enters [OF i a _ _ T]) (use p in simp_all)
  have s2: "locked_server_step True api pf fresh (put_section i n ?c1 ?P) (put_section i n ?c2 ?P)" by (rule run_asks(3) [OF here])
  have v: "section_step (pf_malloc pf) (pf_wall_pad pf) 0 n i At_read (section_view ?W T ?c2) = Some (Inr ?v)"
    using rd q p pid
    by (auto simp: topic_read_def result_simps storage_at_def await_read_free partition_empty_def partition_front_def front_data_def once_def
        split: if_splits)
  obtain e where e: "es = [e]" and there: "stands i a' n (topic_after T ?v) (answered i a' W' e ?P)"
    and s3: "locked_server_step True api pf fresh (put_section i n ?c2 ?P) (put_section i n (section_after ?v) (answered i a' W' e ?P))"
    by (rule run_section_piece [OF here, of ?c2 pf ?v api a' W' es fresh])
      (use v st read_piece [OF wf T v, of api k] pid in \<open>simp_all add: parked_def\<close>)
  have s4: "locked_server_step True api pf fresh (put_section i n (section_after ?v) (answered i a' W' e ?P))
      (parked (S\<lparr>sv_sessions := (sv_sessions S)[i := Some a'], sv_world := W'\<rparr>) (h @ map (Pair i) es))"
    using run_leaves(2) [OF there, of api pf fresh ?at None] parked_after [OF i a, where a' = a' and W' = W' and e = e and h = h and n = n] a'
    by (auto simp: e event_section)
  from calm_run3 [OF s2 s3 s4] s1 show ?thesis by (rule converse_rtranclp_into_rtranclp [rotated])
qed

lemma check_runs:
  assumes wf: "world_wf (sv_world S)" and i: "i < length (sv_sessions S)" and a: "sv_sessions S ! i = Some (Checking k n r)"
    and st: "fiber_step api pf (Checking k n r) (sv_world S) = Inr (a', W', es)"
  shows "calm_runs api pf fresh (parked S h)
     (parked (S\<lparr>sv_sessions := (sv_sessions S)[i := Some a'], sv_world := W'\<rparr>) (h @ map (Pair i) es))"
proof -
  let ?W = "sv_world S" and ?a = "Checking k n r" and ?P = "parked S h" and ?at = "parked_at S n"
  from st obtain T t found where T: "registry_find n ?W = Some T"
    and rd: "remove_check (pf_fiber pf) r (wo_env ?W, T) = Inr (t, found)"
    and a': "a' = (if found then Committing k n r else Answering k (ok_response pf (opcode_value DELETE)))"
    by (auto simp: result_simps elim!: on_topic_Inr)
  obtain q where q: "tp_storage T = [\<lparr>pt_queue = q, pt_mutex = sm_unlocked\<rparr>]" by (rule topic_at_rest [OF wf T])
  from rd obtain p where p: "kassert_ne (partition_id r) INVALID_TOPIC_ID = Inr ()" "storage_at T (partition_id r) = Inr p"
    by (auto simp: remove_check_def result_simps Let_def)
  have pid: "partition_id r = 0" using storage_single [OF _ p(2)] q by simp
  from rd obtain d m where dm: "iter_deref (en_heap (wo_env ?W)) (mq_front q) = Inr d" "view_read r (message_view r) = Inr m"
    "found = (d = m)"
    by (auto simp: remove_check_def result_simps storage_at_def q pid await_read_free partition_front_def)
  have here: "stands i ?a n T ?P" using i a T q by (simp add: stands_def parked_def)
  let ?again = "if found then Some r else None"
  let ?c1 = "section_with sm_start (?at(i := Asking_check r))" and ?c2 = "section_with (reader_alone i) (?at(i := At_check r))"
  let ?v = "note_event i (Compared n m found) (move_to i (Leaving_read ?again) (section_view ?W T ?c2))"
  have s1: "locked_server_step True api pf fresh ?P (put_section i n ?c1 ?P)"
    by (rule parked_enters [OF i a _ _ T]) (use p in simp_all)
  have s2: "locked_server_step True api pf fresh (put_section i n ?c1 ?P) (put_section i n ?c2 ?P)" by (rule run_asks(4) [OF here])
  have v: "section_step (pf_malloc pf) (pf_wall_pad pf) 0 n i (At_check r) (section_view ?W T ?c2) = Some (Inr ?v)"
    using dm q by (simp add: front_data_def)
  obtain e where e: "es = [e]" and there: "stands i a' n (topic_after T ?v) (answered i a' W' e ?P)"
    and s3: "locked_server_step True api pf fresh (put_section i n ?c2 ?P) (put_section i n (section_after ?v) (answered i a' W' e ?P))"
    by (rule run_section_piece [OF here, of ?c2 pf ?v api a' W' es fresh])
      (use v st check_piece [OF wf T pid v, of api k] in \<open>simp_all add: parked_def\<close>)
  have comm: "committing a' \<Longrightarrow> section_topic a' = Some n" by (simp add: a' split: if_splits)
  have at: "(case ?again of None \<Rightarrow> Idle | Some r \<Rightarrow> Asking_commit r) = parked_activity n a'" by (simp add: a')
  have s4: "locked_server_step True api pf fresh (put_section i n (section_after ?v) (answered i a' W' e ?P))
      (parked (S\<lparr>sv_sessions := (sv_sessions S)[i := Some a'], sv_world := W'\<rparr>) (h @ map (Pair i) es))"
    using run_leaves(2) [OF there, of api pf fresh ?at ?again, unfolded at]
      parked_after [OF i a _ comm, where W' = W' and e = e and h = h] by (simp add: e event_section)
  from calm_run3 [OF s2 s3 s4] s1 show ?thesis by (rule converse_rtranclp_into_rtranclp [rotated])
qed

lemma commit_runs:
  assumes wf: "world_wf (sv_world S)" and i: "i < length (sv_sessions S)" and a: "sv_sessions S ! i = Some (Committing k n r)"
    and st: "fiber_step api pf (Committing k n r) (sv_world S) = Inr (a', W', es)"
  shows "calm_runs api pf fresh (parked S h)
     (parked (S\<lparr>sv_sessions := (sv_sessions S)[i := Some a'], sv_world := W'\<rparr>) (h @ map (Pair i) es))"
proof -
  let ?W = "sv_world S" and ?a = "Committing k n r" and ?P = "parked S h" and ?at = "parked_at S n"
  from st obtain T t b where T: "registry_find n ?W = Some T"
    and rc: "remove_commit (pf_wall_pad pf) (pf_fiber pf) r (wo_env ?W, T) = Inr (t, b)"
    and a': "a' = Answering k (ok_response pf (opcode_value DELETE))"
    by (auto simp: result_simps elim!: on_topic_Inr)
  obtain q where q: "tp_storage T = [\<lparr>pt_queue = q, pt_mutex = sm_unlocked\<rparr>]" "tp_wall_mutex T = um_unlocked"
    "mq_wf (en_heap (wo_env ?W)) q" "world_abs ?W n = Some (mq_abs (en_heap (wo_env ?W)) q)"
    by (rule topic_at_rest [OF wf T])
  from rc obtain p where p: "storage_at T (partition_id r) = Inr p" by (auto simp: remove_commit_def result_simps Let_def)
  have pid: "partition_id r = 0" using storage_single [OF _ p] q by simp
  have here: "stands i ?a n T ?P" using i a T q by (simp add: stands_def parked_def)
  have at_i: "?at = ?at(i := Asking_commit r)" using i a by (auto simp: parked_at_def)
  let ?c1 = "section_with sm_start (?at(i := Asking_commit r))" and ?c2 = "section_with (writer_alone i) (?at(i := At_commit r))"
  let ?c3 = "section_logging i (?at(i := Logging_commit r))" and ?c4 = "section_with (writer_alone i) (?at(i := Leaving_write))"
  let ?last = "parked (S\<lparr>sv_sessions := (sv_sessions S)[i := Some a'], sv_world := W'\<rparr>) (h @ map (Pair i) es)"
  have s1: "?P = put_section i n ?c1 ?P" using parked_commits [OF i a, of h] at_i by simp
  have s2: "locked_server_step True api pf fresh (put_section i n ?c1 ?P) (put_section i n ?c2 ?P)" by (rule run_asks(2) [OF here])
  have leave: "locked_server_step True api pf fresh (put_section i n ?c4 (answered i a' W' e ?P)) ?last"
    if "es = [e]" "stands i a' n T' (answered i a' W' e ?P)" for e T'
    using run_leaves(1) [OF that(2), of api pf fresh ?at] parked_after [OF i a, where a' = a' and W' = W' and e = e and h = h and n = n]
    by (simp add: a' that(1))
  from rc obtain d m where dm: "iter_deref (en_heap (wo_env ?W)) (mq_front q) = Inr d" "view_read r (message_view r) = Inr m"
    "b = (d = m)"
    by (auto simp: remove_commit_def result_simps storage_at_def q pid await_write_free partition_front_def split: if_splits)
  show ?thesis
  proof (cases "d = m")
    case False
    let ?v = "note_event i (Removed n m False) (move_to i Leaving_write (section_view ?W T ?c2))"
    have v: "section_step (pf_malloc pf) (pf_wall_pad pf) 0 n i (At_commit r) (section_view ?W T ?c2) = Some (Inr ?v)"
      using dm q False by (simp add: front_data_def)
    have piece: "section_piece api pf ?W n T i ?a ?v"
      using compare_piece [OF wf T pid v, of api k] by (simp add: quiet_piece_def)
    obtain e where e: "es = [e]" "stands i a' n (topic_after T ?v) (answered i a' W' e ?P)"
      and s3: "locked_server_step True api pf fresh (put_section i n ?c2 ?P) (put_section i n (section_after ?v) (answered i a' W' e ?P))"
      by (rule run_section_piece [OF here, of ?c2 pf ?v api a' W' es fresh]) (use v st piece in \<open>simp_all add: parked_def\<close>)
    show ?thesis
      using calm_run3 [OF s2 s3 [unfolded event_section fun_upd_upd] leave [OF e]] by (subst s1)
  next
    case True
    have s3: "locked_server_step True api pf fresh (put_section i n ?c2 ?P) (put_section i n ?c3 ?P)"
      using run_wall_piece [OF here, of "?at(i := At_commit r)" pf "Logging_commit r"] dm q True by (simp add: front_data_def parked_def)
    obtain ms where ms: "mq_abs (en_heap (wo_env ?W)) q = m # ms"
      using dm(1) iter_deref_front [OF q(3)] iter_deref_front_empty [OF q(3)] True
      by (cases "mq_abs (en_heap (wo_env ?W)) q") auto
    obtain g q' where pop: "mq_pop (en_heap (wo_env ?W)) q = Inr (g, q')" using mq_pop_wf [OF q(3)] by auto
    let ?v = "note_event i (Removed n (request_message r) True) (move_to i Leaving_write
          ((log_and_release (pf_wall_pad pf) (wall_data_for 0 False r) i (section_view ?W T ?c3))\<lparr>lt_heap := g, lt_queue := q'\<rparr>))"
    have v: "section_step (pf_malloc pf) (pf_wall_pad pf) 0 n i (Logging_commit r) (section_view ?W T ?c3) = Some (Inr ?v)"
      using pop q by (simp add: Let_def)
    have front: "world_abs ?W n = Some (request_message r # ms)" using q(4) ms dm(2) by simp
    obtain e where e: "es = [e]" "stands i a' n (topic_after T ?v) (answered i a' W' e ?P)"
      and s4: "locked_server_step True api pf fresh (put_section i n ?c3 ?P) (put_section i n (section_after ?v) (answered i a' W' e ?P))"
      by (rule run_section_piece [OF here, of ?c3 pf ?v api a' W' es fresh])
        (use v st pid commit_piece [OF wf T pid front v dm(2), of api k] in \<open>simp_all add: parked_def\<close>)
    have c4: "section_after ?v = ?c4" by (simp add: log_and_release_section)
    from calm_run3 [OF s3 s4 [unfolded c4] leave [OF e]] s2 show ?thesis
      by (subst s1) (rule converse_rtranclp_into_rtranclp)
  qed
qed

lemma outside_runs:
  assumes i: "i < length (sv_sessions S)" and a: "sv_sessions S ! i = Some a" "section_topic a = None"
    and st: "fiber_step api pf a (sv_world S) = Inr (a', W', es)"
  shows "calm_runs api pf fresh (parked S h)
     (parked (S\<lparr>sv_sessions := (sv_sessions S)[i := Some a'], sv_world := W'\<rparr>) (h @ map (Pair i) es))"
proof -
  let ?S = "S\<lparr>sv_sessions := (sv_sessions S)[i := Some a'], sv_world := W'\<rparr>"
  have a': "\<not> committing a'" using outside_concerns [OF st a(2)] by (simp add: unconcerned_def)
  have "parked_at S n i = Idle" for n using i a by (cases a) (simp_all add: parked_at_def)
  then have at: "parked_at ?S n = parked_at S n" for n
    using i parked_activity_other [OF a'] by (auto simp: parked_at_update fun_eq_iff)
  have inside: "parked_inside S i = None" using i a by (cases a) (simp_all add: parked_inside_def)
  then have "parked_inside ?S = parked_inside S"
    using i a' by (auto simp: parked_inside_update fun_eq_iff split: activity.split)
  with at have "parked ?S (h @ map (Pair i) es) = (parked S h)\<lparr>ls_server := ?S, ls_history := h @ map (Pair i) es\<rparr>"
    by (simp add: parked_def)
  moreover have "locked_turn api pf i (parked S h) = Some (Inr ((parked S h)\<lparr>ls_server := ?S, ls_history := h @ map (Pair i) es\<rparr>))"
    "\<not> rushes i (parked S h)"
    using a st inside by (simp_all add: locked_turn_def fiber_turn_def parked_def rushes_def)
  ultimately show ?thesis using i ls_turn [of i "parked S h" True api pf] by (simp add: parked_def r_into_rtranclp)
qed

subsection \<open>The coarser model is simulated\<close>

definition parked_rel :: "'k socket_api \<Rightarrow> ('k \<Rightarrow> byte list) \<Rightarrow> ('k \<Rightarrow> byte list) \<Rightarrow> platform_t \<Rightarrow> ('k \<Rightarrow> bool)
    \<Rightarrow> 'k run_state \<Rightarrow> 'k locked_server_t \<Rightarrow> bool" where
  "parked_rel api inp out pf fresh s t \<longleftrightarrow> t = parked (fst s) (snd s) \<and> interleaved_inv api inp out pf fresh s"

lemma parked_turn:
  assumes wf: "world_wf (sv_world S)" and i: "i < length (sv_sessions S)" and run: "fiber_turn api pf i (S, h) = Inr t"
  shows "calm_runs api pf fresh (parked S h) (parked (fst t) (snd t))"
proof (cases "sv_sessions S ! i")
  case None
  with run show ?thesis by (auto simp: fiber_turn_def)
next
  case (Some a)
  with run obtain a' W' es where st: "fiber_step api pf a (sv_world S) = Inr (a', W', es)"
    and t: "t = (S\<lparr>sv_sessions := (sv_sessions S)[i := Some a'], sv_world := W'\<rparr>, h @ map (Pair i) es)"
    by (auto simp: fiber_turn_def result_simps)
  show ?thesis
  proof (cases "section_topic a")
    case None
    from outside_runs [OF i Some None st] show ?thesis by (simp add: t)
  next
    case topic: (Some n)
    then consider k r where "a = Pushing k n r" | k pid where "a = Pulling k n pid" | k r where "a = Checking k n r"
      | k r where "a = Committing k n r" by (cases a) auto
    then show ?thesis
      using Some st push_runs [OF wf i] pull_runs [OF wf i] check_runs [OF wf i] commit_runs [OF wf i]
      by cases (simp_all only: t fst_conv snd_conv)
  qed
qed

lemma parked_server:
  assumes "length (sv_sessions S) \<le> length (sv_sessions S')"
    and "\<And>f. f < length (sv_sessions S) \<Longrightarrow> sv_sessions S' ! f = sv_sessions S ! f"
    and "\<And>f. length (sv_sessions S) \<le> f \<Longrightarrow> f < length (sv_sessions S') \<Longrightarrow> \<exists>k. sv_sessions S' ! f = Some (Reading k)"
  shows "parked S' h = (parked S h)\<lparr>ls_server := S'\<rparr>"
proof -
  have "parked_at S' n f = parked_at S n f" "parked_inside S' f = parked_inside S f" for n f
    using assms(1) assms(2,3) [of f] by (cases "f < length (sv_sessions S)"; force simp: parked_at_def parked_inside_def)+
  then show ?thesis by (simp add: parked_def fun_eq_iff)
qed

lemma parked_step:
  assumes inv: "interleaved_inv api inp out pf fresh s" and step: "interleaved_step api pf fresh s t"
  shows "calm_runs api pf fresh (parked (fst s) (snd s)) (parked (fst t) (snd t))"
  using step
proof (cases rule: interleaved_step.cases)
  case (fiber_accepted S r h)
  have "parked (accept_turn (map_accept_result Reading r) S) h = (parked S h)\<lparr>ls_server := accept_turn (map_accept_result Reading r) S\<rparr>"
    by (rule parked_server) (cases r; auto simp: nth_append less_Suc_eq)+
  with ls_accepted [of "parked S h" r fresh True api pf] fiber_accepted show ?thesis by (auto simp: parked_def)
next
  case (fiber_aborted S h)
  have "parked (accept_turn Accept_aborted S) h = (parked S h)\<lparr>ls_server := accept_turn Accept_aborted S\<rparr>"
    by (rule parked_server) simp_all
  with ls_aborted [of "parked S h" True api pf fresh] fiber_aborted show ?thesis by (auto simp: parked_def)
next
  case (fiber_served i S h)
  have "world_wf (sv_world S)" using inv by (simp add: fiber_served(1) interleaved_inv_def)
  from parked_turn [OF this fiber_served(2,3)] show ?thesis by (simp add: fiber_served(1))
next
  case (fiber_stopped S h)
  have "parked (server_stop S) h = (parked S h)\<lparr>ls_server := server_stop S\<rparr>"
    by (rule parked_server) (simp_all add: server_stop_def)
  with ls_stopped [of True api pf fresh "parked S h"] fiber_stopped show ?thesis by (auto simp: parked_def)
qed

interpretation fine: forward_simulation "interleaved_init api inp out pf fresh" "interleaved_step api pf fresh"
    "locked_server_init api inp out pf fresh" "locked_server_step True api pf fresh" "parked_rel api inp out pf fresh"
  for api inp out pf fresh
proof
  fix s t s'
  show "interleaved_init api inp out pf fresh s \<Longrightarrow> \<exists>t. locked_server_init api inp out pf fresh t \<and> parked_rel api inp out pf fresh s t"
    by (frule interleaved_inv_init) (auto simp: parked_rel_def locked_server_init_def interleaved_init_def parked_def parked_at_def
        parked_inside_def section_new_def server_start_def server_ctor_def fun_eq_iff)
  show "parked_rel api inp out pf fresh s t \<Longrightarrow> interleaved_step api pf fresh s s' \<Longrightarrow>
      \<exists>t'. calm_runs api pf fresh t t' \<and> parked_rel api inp out pf fresh s' t'"
    using parked_step [of api inp out pf fresh s s'] interleaved_inv_step [of api inp out pf fresh s s'] by (auto simp: parked_rel_def)
qed

end
