(* ===== verification/LockedServerProgress.thy ===== *)
theory LockedServerProgress
  imports LockedServer
begin

section \<open>No deadlock at a topic\<close>

text \<open>
  For all runs of the server under its locks, calm or not: whenever a session is inside an operation
  on a topic, some session inside that topic's operations, or a thread in the wake-up loop of
  its partition, can go on; and every such step uses up work. The locks of one topic are
  those of \<open>PartitionProgress\<close>; the sessions of other topics, and sessions that read and write
  their sockets, do not touch them.
\<close>

subsection \<open>The locks of a topic do not depend on its data\<close>

definition section_sound :: "section_t \<Rightarrow> bool" where
  "section_sound sc \<longleftrightarrow> (\<forall>W T. progress_inv (section_view W T sc))"

lemma section_soundI: "progress_inv (section_view W T sc) \<Longrightarrow> section_sound sc"
  by (simp add: section_sound_def progress_inv_def wall_inv_def)

lemma section_sound_after:
  "progress_inv v \<Longrightarrow> section_sound (section_after v)"
  by (simp add: section_sound_def section_after_def progress_inv_def wall_inv_def)

lemma section_sound_new: "section_sound section_new"
  by (simp add: section_sound_def section_new_def progress_inv_def wall_inv_def placed_def registered_def active_def sm_start_def
      sm_inv_def sm_unlocked_def um_unlocked_def)

lemma section_sound_moves:
  assumes ok: "section_sound sc" and idle: "sc_at sc f = Idle"
    and l: "\<not> writes l" "\<not> reads l" "\<not> logs l" "\<not> owns_write l" "\<not> owns_read l"
  shows "section_sound (sc\<lparr>sc_at := (sc_at sc)(f := l)\<rparr>)"
proof (rule section_soundI)
  fix W T
  have inv: "progress_inv (section_view W T sc)" using ok by (simp add: section_sound_def)
  show "progress_inv (section_view W T (sc\<lparr>sc_at := (sc_at sc)(f := l)\<rparr>))"
  proof (rule progress_move [OF inv, where f = f and l = l])
    show "wall_inv (section_view W T (sc\<lparr>sc_at := (sc_at sc)(f := l)\<rparr>))"
      by (rule wall_inv_move [where s = "section_view W T sc" and f = f and l = l])
        (use inv idle l in \<open>simp_all add: progress_inv_def\<close>)
  qed (use idle l in simp_all)
qed

lemma section_sound_wakes:
  assumes "section_sound sc" and "sm_exec Wake_next (sc_lock sc) = Some L"
  shows "section_sound (sc\<lparr>sc_lock := L\<rparr>)"
proof (rule section_soundI)
  fix W T
  have inv: "progress_inv (section_view W T sc)" using assms(1) by (simp add: section_sound_def)
  have view: "(section_view W T sc)\<lparr>lt_lock := L\<rparr> = section_view W T (sc\<lparr>sc_lock := L\<rparr>)" by (simp add: section_view_def)
  have "locked_step False small_malloc 0 0 [] (section_view W T sc) ((section_view W T sc)\<lparr>lt_lock := L\<rparr>)"
    by (rule waker_runs) (use assms(2) in \<open>simp del: sm_exec.simps\<close>)
  from progress_inv_step [OF inv this] show "progress_inv (section_view W T (sc\<lparr>sc_lock := L\<rparr>))" unfolding view .
qed

text \<open>Whether a piece can run does not depend on the index that it logs.\<close>

lemma piece_waits: "section_step malloc pad i n f l s = None \<longleftrightarrow> section_step malloc pad i' n f l s = None"
  by (cases l) (simp_all add: once_def)

definition section_work :: "section_t \<Rightarrow> nat" where
  "section_work sc = 2 * rank_sum (sc_at sc) + wake_work (sc_lock sc)"

lemma section_work_view: "work_left (section_view W T sc) = section_work sc"
  by (simp add: work_left_def section_work_def)

lemma section_work_after: "section_work (section_after v) = work_left v"
  by (simp add: work_left_def section_work_def section_after_def)

subsection \<open>The invariant of all runs\<close>

definition busy_inv :: "'k locked_server_t \<Rightarrow> bool" where
  "busy_inv s \<longleftrightarrow> (\<forall>n. section_sound (ls_sections s n))
   \<and> (\<forall>n f. sc_at (ls_sections s n) f \<noteq> Idle \<longleftrightarrow> ls_inside s f = Some n)
   \<and> (\<forall>n f. ls_inside s f = Some n \<longrightarrow> f < length (sv_sessions (ls_server s))
        \<and> sv_sessions (ls_server s) ! f \<noteq> None \<and> registry_find n (sv_world (ls_server s)) \<noteq> None)"

lemma busy_invD:
  assumes "busy_inv s"
  shows "section_sound (ls_sections s n)"
    and "sc_at (ls_sections s n) f \<noteq> Idle \<longleftrightarrow> ls_inside s f = Some n"
    and "ls_inside s f = Some n \<Longrightarrow> f < length (sv_sessions (ls_server s))"
    and "ls_inside s f = Some n \<Longrightarrow> \<exists>a. sv_sessions (ls_server s) ! f = Some a"
    and "ls_inside s f = Some n \<Longrightarrow> \<exists>T. registry_find n (sv_world (ls_server s)) = Some T"
  using assms by (simp_all add: busy_inv_def)

lemma busy_inv_init: "locked_server_init api inp out pf fresh s \<Longrightarrow> busy_inv s"
  by (simp add: locked_server_init_def busy_inv_def section_sound_new) (simp add: section_new_def)

text \<open>Topics stay registered.\<close>

lemma get_or_create_keeps:
  "get_or_create_topic can_open c name W = Inr W' \<Longrightarrow> registry_find n W \<noteq> None \<Longrightarrow> registry_find n W' \<noteq> None"
  by (auto simp: get_or_create_topic_def registry_emplace_def result_simps split: option.splits if_splits)

definition keeps_topics :: "world_t \<Rightarrow> 'k activity \<times> world_t \<times> event list \<Rightarrow> bool" where
  "keeps_topics W res \<longleftrightarrow> (\<forall>n. registry_find n W \<noteq> None \<longrightarrow> registry_find n (fst (snd res)) \<noteq> None)"

lemma reject_keeps: "reject pf k c e t W = Inr res \<Longrightarrow> keeps_topics W res"
  by (auto simp: reject_def keeps_topics_def)

lemma dispatch_keeps:
  assumes "dispatch pf hdr data k W = Inr res"
  shows "keeps_topics W res"
proof -
  have "keeps_topics W res" if "start_push pf hdr topic message k W = Inr res" for topic message
    using that get_or_create_keeps by (fastforce simp: start_push_def result_simps keeps_topics_def reject_def split: if_splits)
  moreover have "keeps_topics W res" if "start_pull pf hdr topic k W = Inr res" for topic
    using that by (auto simp: start_pull_def keeps_topics_def reject_def split: if_splits)
  moreover have "keeps_topics W res" if "start_delete pf hdr topic message k W = Inr res" for topic message
    using that by (auto simp: start_delete_def result_simps keeps_topics_def reject_def split: if_splits)
  ultimately show ?thesis
    using assms by (auto simp: dispatch_def Let_def intro: reject_keeps split: option.splits opcode_t.splits)
qed

lemma outside_keeps:
  assumes run: "fiber_step api pf a W = Inr res" and out: "section_topic a = None"
  shows "keeps_topics W res"
proof -
  have quiet: "keeps_topics W (b, W, es)" for b :: "'a activity" and es by (simp add: keeps_topics_def)
  show ?thesis
  proof (cases a)
    case (Reading k)
    with run show ?thesis
      by (auto simp: read_header_def Let_def quiet intro: dispatch_keeps split: option.splits if_splits prod.splits)
  next
    case (Reading_body k hdr)
    with run show ?thesis
      by (auto simp: read_body_def quiet intro: dispatch_keeps split: option.splits if_splits prod.splits)
  qed (use run out quiet in \<open>auto split: prod.splits bool.splits\<close>)
qed

lemma busy_inv_server:
  assumes "busy_inv s" and "length (sv_sessions (ls_server s)) \<le> length (sv_sessions S)"
    and "\<And>f. f < length (sv_sessions (ls_server s)) \<Longrightarrow> sv_sessions (ls_server s) ! f \<noteq> None \<Longrightarrow> sv_sessions S ! f \<noteq> None"
    and "\<And>n. registry_find n (sv_world (ls_server s)) \<noteq> None \<Longrightarrow> registry_find n (sv_world S) \<noteq> None"
  shows "busy_inv (s\<lparr>ls_server := S, ls_history := h\<rparr>)"
proof -
  have "f < length (sv_sessions S) \<and> sv_sessions S ! f \<noteq> None \<and> registry_find n (sv_world S) \<noteq> None"
    if "ls_inside s f = Some n" for n f
  proof -
    have "f < length (sv_sessions (ls_server s))" "sv_sessions (ls_server s) ! f \<noteq> None" "registry_find n (sv_world (ls_server s)) \<noteq> None"
      using assms(1) that by (simp_all add: busy_inv_def)
    with assms(2) assms(3) [of f] assms(4) [of n] show ?thesis by simp
  qed
  with assms(1) show ?thesis by (simp add: busy_inv_def)
qed

lemma busy_outside:
  assumes inv: "busy_inv s" and out: "sv_sessions (ls_server s) ! i = Some a" "section_topic a = None"
    and run: "fiber_turn api pf i (ls_server s, ls_history s) = Inr (S, h)"
  shows "busy_inv (s\<lparr>ls_server := S, ls_history := h\<rparr>)"
proof -
  from run out(1) obtain a' W' es where st: "fiber_step api pf a (sv_world (ls_server s)) = Inr (a', W', es)"
    and S: "S = (ls_server s)\<lparr>sv_sessions := (sv_sessions (ls_server s))[i := Some a'], sv_world := W'\<rparr>"
    by (auto simp: fiber_turn_def result_simps)
  have "sv_sessions S ! f \<noteq> None" if "sv_sessions (ls_server s) ! f \<noteq> None" "f < length (sv_sessions (ls_server s))" for f
    using that by (cases "f = i") (simp_all add: S)
  moreover have "registry_find n (sv_world S) \<noteq> None" if "registry_find n (sv_world (ls_server s)) \<noteq> None" for n
    using outside_keeps [OF st out(2)] that by (simp add: keeps_topics_def S)
  ultimately show ?thesis by (intro busy_inv_server [OF inv]) (simp_all add: S)
qed

text \<open>Where a session asks for a lock first.\<close>

fun first_location :: "location \<Rightarrow> bool" where
  "first_location (Asking_push r) = True"
| "first_location Asking_read = True"
| "first_location (Asking_check r) = True"
| "first_location (Asking_commit r) = True"
| "first_location l = False"

lemma enter_first: "enter_section pf a T = Inr l \<Longrightarrow> section_topic a \<noteq> None \<Longrightarrow> first_location l"
  by (cases a) (auto simp: result_simps)

lemma first_locationD:
  assumes "first_location l"
  shows "\<not> writes l" and "\<not> reads l" and "\<not> logs l" and "\<not> owns_write l" and "\<not> owns_read l" and "l \<noteq> Idle" and "rank l \<le> 9"
  using assms by (cases l; simp)+

lemma busy_enters:
  assumes inv: "busy_inv s" and i: "i < length (sv_sessions (ls_server s))"
    and a: "sv_sessions (ls_server s) ! i = Some a" "section_topic a = Some n" "ls_inside s i = None"
    and run: "enter_turn pf i a n s = Inr t"
  obtains l where "t = set_at n i l s" and "first_location l" and "sc_at (ls_sections s n) i = Idle" and "busy_inv t"
proof -
  from run obtain T l where T: "registry_find n (sv_world (ls_server s)) = Some T"
    and l: "enter_section pf a T = Inr l" and t: "t = set_at n i l s"
    by (auto simp: enter_turn_def result_simps split: option.splits)
  have first: "first_location l" by (rule enter_first [OF l]) (simp add: a(2))
  have idle: "sc_at (ls_sections s m) i = Idle" for m using busy_invD(2) [OF inv, of m i] a(3) by simp
  have "section_sound ((ls_sections s n)\<lparr>sc_at := (sc_at (ls_sections s n))(i := l)\<rparr>)"
    by (rule section_sound_moves [OF busy_invD(1) [OF inv] idle]) (use first_locationD [OF first] in simp_all)
  then have "busy_inv t"
    using inv i a T first_locationD(6) [OF first] idle by (auto simp: busy_inv_def t set_at_def)
  with that t first idle show thesis by blast
qed

lemma busy_piece:
  assumes inv: "busy_inv s" and inside: "ls_inside s i = Some n" and run: "piece_turn pf i a n s = Some (Inr t)"
  shows "busy_inv t" and "section_work (ls_sections t n) < section_work (ls_sections s n)"
    and "m \<noteq> n \<Longrightarrow> ls_sections t m = ls_sections s m"
proof -
  let ?W = "sv_world (ls_server s)" and ?sc = "ls_sections s n"
  obtain T where T: "registry_find n ?W = Some T" using busy_invD(5) [OF inv inside] by blast
  let ?v0 = "section_view ?W T ?sc"
  from run T obtain v where v: "section_step (pf_malloc pf) (pf_wall_pad pf) (section_index pf (sc_at ?sc i) T) n i (lt_at ?v0 i) ?v0 = Some (Inr v)"
    and t: "t = leave_piece pf i a n T v s"
    by (auto simp: piece_turn_def Let_def map_option_eq_Some result_simps)
  have p0: "progress_inv ?v0" using busy_invD(1) [OF inv, of n] by (simp add: section_sound_def)
  have "progress_inv v" by (rule section_keeps_progress [OF p0 v])
  then have sound: "section_sound (section_after v)" by (rule section_sound_after)
  have moves: "lt_at v f = sc_at ?sc f" if "f \<noteq> i" for f
    using v that by (cases "lt_at ?v0 i") (auto simp: through_lock_Some Let_def result_simps split: if_splits)
  have "sc_at (ls_sections t m) f \<noteq> Idle \<longleftrightarrow> ls_inside t f = Some m" for m f
    using busy_invD(2) [OF inv, of m f] inside moves
    by (cases "f = i"; cases "m = n") (auto simp: t leave_piece_def section_after_def Let_def)
  moreover have "section_sound (ls_sections t m)" for m
    using sound busy_invD(1) [OF inv, of m] by (simp add: t leave_piece_def Let_def)
  moreover have "f < length (sv_sessions (ls_server t)) \<and> sv_sessions (ls_server t) ! f \<noteq> None
      \<and> registry_find m (sv_world (ls_server t)) \<noteq> None" if "ls_inside t f = Some m" for m f
  proof -
    have "ls_inside s f = Some m" using that inside by (auto simp: t leave_piece_def Let_def split: if_splits)
    from busy_invD(3-5) [OF inv this] show ?thesis
      by (cases "f = i") (auto simp: t leave_piece_def Let_def world_after_def)
  qed
  ultimately show "busy_inv t" by (simp add: busy_inv_def)
  have "work_left v < work_left ?v0" by (rule piece_uses_work [OF v]) (use p0 in \<open>simp add: progress_inv_def\<close>)
  then show "section_work (ls_sections t n) < section_work (ls_sections s n)"
    by (simp add: t leave_piece_def Let_def section_work_after section_work_view)
  show "m \<noteq> n \<Longrightarrow> ls_sections t m = ls_sections s m" by (simp add: t leave_piece_def Let_def)
qed

text \<open>What a turn of a session does to the locks of a topic.\<close>

lemma busy_turn:
  assumes inv: "busy_inv s" and i: "i < length (sv_sessions (ls_server s))" and run: "locked_turn api pf i s = Some (Inr t)"
  shows "busy_inv t" and "ls_inside s i = Some n \<Longrightarrow> section_work (ls_sections t n) < section_work (ls_sections s n)"
    and "ls_inside s i \<noteq> Some n \<Longrightarrow> section_work (ls_sections t n) \<le>
       section_work (ls_sections s n) + (if ls_inside t i = Some n then 18 else 0)"
proof -
  from run obtain a where a: "sv_sessions (ls_server s) ! i = Some a" by (auto simp: locked_turn_def split: option.splits)
  have "busy_inv t \<and> (ls_inside s i = Some n \<longrightarrow> section_work (ls_sections t n) < section_work (ls_sections s n))
    \<and> (ls_inside s i \<noteq> Some n \<longrightarrow> section_work (ls_sections t n) \<le>
         section_work (ls_sections s n) + (if ls_inside t i = Some n then 18 else 0))"
  proof (cases "ls_inside s i")
    case (Some m)
    with run a have "piece_turn pf i a m s = Some (Inr t)" by (simp add: locked_turn_def)
    note piece = busy_piece [OF inv Some this]
    from piece(1) piece(2) piece(3) [of n] Some show ?thesis by (cases "n = m") auto
  next
    case None
    show ?thesis
    proof (cases "section_topic a")
      case (Some m)
      with run a None have "enter_turn pf i a m s = Inr t" by (simp add: locked_turn_def)
      then obtain l where t: "t = set_at m i l s" and l: "first_location l" and idle: "sc_at (ls_sections s m) i = Idle"
        and inv': "busy_inv t"
        by (rule busy_enters [OF inv i a Some None])
      have "finite (active (sc_at (ls_sections s m)))"
        using busy_invD(1) [OF inv, of m] by (simp add: section_sound_def progress_inv_def)
      from rank_sum_move [OF this, of i l] idle first_locationD(7) [OF l]
      have "section_work (ls_sections t m) \<le> section_work (ls_sections s m) + 18"
        by (simp add: t set_at_def section_work_def)
      moreover have "n \<noteq> m \<Longrightarrow> ls_sections t n = ls_sections s n" by (simp add: t set_at_def)
      ultimately show ?thesis
        using inv' None first_locationD(6) [OF l] by (cases "n = m") (auto simp: t set_at_def)
    next
      case out: None
      with run a None obtain S h where st: "fiber_turn api pf i (ls_server s, ls_history s) = Inr (S, h)"
        and t: "t = s\<lparr>ls_server := S, ls_history := h\<rparr>" by (auto simp: locked_turn_def result_simps)
      from busy_outside [OF inv a out st] None show ?thesis by (simp add: t)
    qed
  qed
  then show "busy_inv t" "ls_inside s i = Some n \<Longrightarrow> section_work (ls_sections t n) < section_work (ls_sections s n)"
    "ls_inside s i \<noteq> Some n \<Longrightarrow> section_work (ls_sections t n) \<le>
       section_work (ls_sections s n) + (if ls_inside t i = Some n then 18 else 0)" by blast+
qed

lemma busy_wakes:
  assumes inv: "busy_inv s" and wake: "sm_exec Wake_next (sc_lock (ls_sections s n)) = Some L"
  shows "busy_inv (set_lock n L s)" and "section_work (ls_sections (set_lock n L s) n) < section_work (ls_sections s n)"
proof -
  have "section_sound ((ls_sections s n)\<lparr>sc_lock := L\<rparr>)" by (rule section_sound_wakes [OF busy_invD(1) [OF inv] wake])
  with inv show "busy_inv (set_lock n L s)" by (simp add: busy_inv_def set_lock_def)
  show "section_work (ls_sections (set_lock n L s) n) < section_work (ls_sections s n)"
    using wake_uses_work [OF wake] by (simp add: set_lock_def section_work_def)
qed

lemma busy_inv_step:
  assumes inv: "busy_inv s" and step: "locked_server_step calm api pf fresh s t"
  shows "busy_inv t"
proof -
  have server: "busy_inv (s\<lparr>ls_server := S\<rparr>)" if "length (sv_sessions (ls_server s)) \<le> length (sv_sessions S)"
      "\<And>f. f < length (sv_sessions (ls_server s)) \<Longrightarrow> sv_sessions S ! f = sv_sessions (ls_server s) ! f"
      "sv_world S = sv_world (ls_server s)" for S
    using busy_inv_server [OF inv, of S "ls_history s"] that by simp
  from step show ?thesis
  proof (cases rule: locked_server_step.cases)
    case (ls_accepted r)
    then show ?thesis by (simp only:) (rule server; cases r; simp add: nth_append)
  next
    case ls_aborted
    then show ?thesis by (simp only:) (rule server; simp)
  next
    case ls_stopped
    then show ?thesis by (simp only:) (rule server; simp add: server_stop_def)
  next
    case (ls_turn i)
    from busy_turn(1) [OF inv ls_turn(1,3)] show ?thesis .
  next
    case (ls_wakes n L)
    then show ?thesis using busy_wakes(1) [OF inv] by simp
  qed
qed

interpretation busy: invariant_system "locked_server_init api inp out pf fresh" "locked_server_step calm api pf fresh" busy_inv
  for api inp out pf fresh calm
  by unfold_locales (erule busy_inv_init, erule (1) busy_inv_step)

lemma session_waits:
  assumes inv: "busy_inv s" and inside: "ls_inside s j = Some n" and T: "registry_find n (sv_world (ls_server s)) = Some T"
    and wait: "locked_turn api pf j s = None"
  shows "section_step (pf_malloc pf) (pf_wall_pad pf) 0 n j (sc_at (ls_sections s n) j) (section_view (sv_world (ls_server s)) T (ls_sections s n)) = None"
proof -
  obtain a where "sv_sessions (ls_server s) ! j = Some a" using busy_invD(4) [OF inv inside] by blast
  with wait inside T have "section_step (pf_malloc pf) (pf_wall_pad pf) (section_index pf (sc_at (ls_sections s n) j) T) n j
      (sc_at (ls_sections s n) j) (section_view (sv_world (ls_server s)) T (ls_sections s n)) = None"
    by (simp add: locked_turn_def piece_turn_def Let_def)
  then show ?thesis by (subst piece_waits)
qed

text \<open>If all who are inside a topic wait, nobody is inside.\<close>

lemma somebody_goes_on:
  assumes inv: "busy_inv s" and inside: "ls_inside s i = Some n"
  shows "(\<exists>j. ls_inside s j = Some n \<and> locked_turn api pf j s \<noteq> None) \<or> sm_exec Wake_next (sc_lock (ls_sections s n)) \<noteq> None"
proof (rule ccontr)
  assume none: "\<not> ?thesis"
  obtain T where T: "registry_find n (sv_world (ls_server s)) = Some T" using busy_invD(5) [OF inv inside] by blast
  let ?v = "section_view (sv_world (ls_server s)) T (ls_sections s n)"
  have "section_step (pf_malloc pf) (pf_wall_pad pf) 0 n f (lt_at ?v f) ?v = None" for f
  proof (cases "ls_inside s f = Some n")
    case True
    with none session_waits [OF inv True T, of api pf] show ?thesis by auto
  next
    case False
    then show ?thesis using busy_invD(2) [OF inv, of n f] by simp
  qed
  with none have "stuck (pf_malloc pf) (pf_wall_pad pf) 0 n ?v" by (simp add: stuck_def del: sm_exec.simps)
  moreover have "progress_inv ?v" using busy_invD(1) [OF inv, of n] by (simp add: section_sound_def)
  ultimately have "lt_at ?v i = Idle" using stuck_is_idle by blast
  with busy_invD(2) [OF inv, of n i] inside show False by simp
qed

end
