(* ===== verification/LockedServerProps.thy ===== *)
theory LockedServerProps
  imports LockedServerExact LockedServerProgress
begin

section \<open>Properties of the server under its locks\<close>

subsection \<open>A session that holds a lock\<close>

lemma calm_step_runs: "locked_server_step True api pf fresh s t \<Longrightarrow> locked_server_step False api pf fresh s t"
  by (induction rule: locked_server_step.induct) (blast intro: locked_server_step.intros)+

text \<open>What holds of the calm runs is what holds of atomic critical sections.\<close>

lemma calm_server_inv:
  assumes "reachable (locked_server_init api inp out pf fresh) (locked_server_step True api pf fresh) s"
  shows "calm_inv api inp out pf fresh s"
    and "reachable (interleaved_init api inp out pf fresh) (interleaved_step api pf fresh) (ls_server s, ls_history s)"
    and "interleaved_inv api inp out pf fresh (ls_server s, ls_history s)"
  using coarse.reachable_simulated [OF assms] by (auto simp: coarse_rel_def calm_inv_def)

text \<open>What one interleaving reaches, the calm runs reach, with all locks free.\<close>

lemma parked_reachable:
  assumes "reachable (interleaved_init api inp out pf fresh) (interleaved_step api pf fresh) (S, h)"
  shows "reachable (locked_server_init api inp out pf fresh) (locked_server_step True api pf fresh) (parked S h)"
  using fine.reachable_simulated [OF assms] by (auto simp: parked_rel_def)

text \<open>Two clients have connected; the first one's push to a new topic has been given the lock of its partition.\<close>

lemma demo_holding:
  obtains s where "reachable (locked_server_init pair_socket fst snd demo_platform no_output)
       (locked_server_step True pair_socket demo_platform no_output) s"
    and "ls_history s = [(0, Created (lit ''t''))]" and "ls_inside s 0 = Some (lit ''t'')"
    and "sm_writers (sc_lock (ls_sections s (lit ''t''))) = [0]" and "length (sv_sessions (ls_server s)) = 2"
proof -
  let ?t = "lit ''t''"
  obtain k r W where window: "\<forall>k'. snd k' = [] \<longrightarrow>
      demo_reachable (two_sessions (Pushing k ?t r) (Reading k') W, [(0, Created ?t)])"
    and W: "world_wf W" "world_abs W = [?t \<mapsto> []]" and r: "partition_id r = 0"
    by (rule demo_window)
  let ?S = "two_sessions (Pushing k ?t r) (Reading ([], [])) W" and ?h = "[(0, Created ?t)]"
  let ?c = "\<lambda>L l. section_with L ((parked_at ?S ?t)(0 := l))"
  have "demo_reachable (?S, ?h)" using window by simp
  note parked = parked_reachable [OF this [unfolded demo_reachable_def]]
  have "world_abs W ?t \<noteq> None" by (simp add: W(2) del: world_abs_None)
  then obtain T where T: "registry_find ?t W = Some T" by auto
  have T1: "length (tp_storage T) = 1" by (rule world_wfD(3) [OF W(1) T])
  let ?step = "locked_server_step True pair_socket demo_platform no_output" and ?P = "parked ?S ?h"
  have enter: "enter_section demo_platform (Pushing k ?t r) T = Inr (Asking_push r)"
    using r T1 by (simp add: push_index_def INVALID_TOPIC_ID_def storage_at_def)
  have s1: "?step ?P (put_section 0 ?t (?c sm_start (Asking_push r)) ?P)"
    by (rule parked_enters [OF _ _ _ _ _ enter]) (simp_all add: T)
  have "tp_storage T \<noteq> []" using T1 by auto
  then have "stands 0 (Pushing k ?t r) ?t T ?P" using T by (simp add: stands_def parked_def)
  then have s2: "?step (put_section 0 ?t (?c sm_start (Asking_push r)) ?P) (put_section 0 ?t (?c (writer_alone 0) (At_push r)) ?P)"
    by (rule run_asks(1))
  let ?init = "locked_server_init pair_socket fst snd demo_platform no_output"
  have "reachable ?init ?step (put_section 0 ?t (?c sm_start (Asking_push r)) ?P)"
    using parked s1 by (rule reachable.next_state)
  then have run: "reachable ?init ?step (put_section 0 ?t (?c (writer_alone 0) (At_push r)) ?P)"
    using s2 by (rule reachable.next_state)
  have "ls_history ?P = ?h" "length (sv_sessions (ls_server ?P)) = 2" by (simp_all add: parked_def)
  then show thesis by (intro that [OF run]) simp_all
qed

subsection \<open>Properties\<close>

text \<open>
  C6: taking a critical section as one step is exact. The server states and histories that
  \<open>interleaved_step\<close> reaches are those that the server under all its locks reaches, with any number
  of sessions waiting at the mutexes of any number of topics, in the runs in which no
  writer is let in in the middle of a wake-up loop; woken readers may come and go in it. In both,
  the lookup and the insertion of a topic are one step (\<open>RacingRegistry\<close> takes them apart).
\<close>

theorem interleaving_is_calm_server:
  "reachable (interleaved_init api inp out pf fresh) (interleaved_step api pf fresh) (S, h) \<longleftrightarrow>
     (\<exists>s. reachable (locked_server_init api inp out pf fresh) (locked_server_step True api pf fresh) s
        \<and> ls_server s = S \<and> ls_history s = h)"
proof
  assume "reachable (interleaved_init api inp out pf fresh) (interleaved_step api pf fresh) (S, h)"
  from parked_reachable [OF this]
  show "\<exists>s. reachable (locked_server_init api inp out pf fresh) (locked_server_step True api pf fresh) s \<and> ls_server s = S \<and> ls_history s = h"
    by (auto simp: parked_def)
next
  assume "\<exists>s. reachable (locked_server_init api inp out pf fresh) (locked_server_step True api pf fresh) s \<and> ls_server s = S \<and> ls_history s = h"
  then obtain s where s: "reachable (locked_server_init api inp out pf fresh) (locked_server_step True api pf fresh) s"
    "ls_server s = S" "ls_history s = h" by blast
  from calm_server_inv(2) [OF s(1)] s(2,3)
  show "reachable (interleaved_init api inp out pf fresh) (interleaved_step api pf fresh) (S, h)" by simp
qed

text \<open>
  C7: the server under its locks is linearizable, and the critical sections exclude each other. In
  every calm run, one in which no writer is let in in the middle of a wake-up loop, the events are, in their order, a run of the abstract broker that ends in
  what the world stores; each session has written, or has ready, the answers to its events;
  and a session that holds the mutex of a partition for writing is its only holder.
\<close>

theorem locked_server_linearizes:
  assumes "reachable (locked_server_init api inp out pf fresh) (locked_server_step True api pf fresh) s"
  shows "run_history Map.empty (map snd (ls_history s)) = Some (world_abs (sv_world (ls_server s)))
     \<and> (\<forall>i<length (sv_sessions (ls_server s)). \<forall>a. sv_sessions (ls_server s) ! i = Some a \<longrightarrow>
          spoken out a = answer_bytes pf (events_of i (ls_history s)))
     \<and> (i \<in> set (sm_writers (sc_lock (ls_sections s n))) \<longrightarrow>
          sm_writers (sc_lock (ls_sections s n)) = [i] \<and> sm_readers (sc_lock (ls_sections s n)) = [] \<and> ls_inside s i = Some n)"
proof -
  note inv = calm_server_inv(1) [OF assms]
  then have il: "interleaved_inv api inp out pf fresh (ls_server s, ls_history s)"
    and ok: "sm_calm_inv (sc_lock (ls_sections s n))" "placed (sc_at (ls_sections s n)) (sc_lock (ls_sections s n))"
    and wh: "whereabouts pf s"
    by (simp_all add: calm_inv_def locks_ok_def)
  have "sm_writers (sc_lock (ls_sections s n)) = [i] \<and> sm_readers (sc_lock (ls_sections s n)) = [] \<and> ls_inside s i = Some n"
    if w: "i \<in> set (sm_writers (sc_lock (ls_sections s n)))"
  proof -
    have "writes (sc_at (ls_sections s n) i)" using ok(2) w by (simp add: placed_def)
    then have "ls_inside s i = Some n" using whereaboutsD(1) [OF wh, of n i] by auto
    moreover have "sm_writers (sc_lock (ls_sections s n)) = [i]" "sm_readers (sc_lock (ls_sections s n)) = []"
      using ok(1) w by (cases "sm_writers (sc_lock (ls_sections s n))"; auto simp: sm_calm_inv_def split: if_splits)+
    ultimately show ?thesis by simp
  qed
  with il show ?thesis by (simp add: interleaved_inv_def)
qed

theorem locked_server_linearizes_witness:
  "\<exists>s. ls_inside s 0 = Some (lit ''t'') \<and> sm_writers (sc_lock (ls_sections s (lit ''t''))) = [0]
     \<and> sm_readers (sc_lock (ls_sections s (lit ''t''))) = []
     \<and> world_abs (sv_world (ls_server (s :: (byte list \<times> byte list) locked_server_t))) = [lit ''t'' \<mapsto> []]"
proof -
  obtain s where s: "reachable (locked_server_init pair_socket fst snd demo_platform no_output)
       (locked_server_step True pair_socket demo_platform no_output) s"
    "ls_history s = [(0, Created (lit ''t''))]" "ls_inside s 0 = Some (lit ''t'')" "sm_writers (sc_lock (ls_sections s (lit ''t''))) = [0]"
    by (rule demo_holding)
  from locked_server_linearizes [OF s(1), of 0 "lit ''t''"] s(2-4) show ?thesis by (intro exI [of _ s]) simp
qed

text \<open>
  C9: no deadlock, and bounded work for the operations under way, in any run, calm or not. While a
  session is inside an operation on a topic, some session inside that topic's operations, or a thread
  in its wake-up loop, can go on (a step that crashes the process counts). Each such step uses
  up work of that topic, and nobody adds to it but a session that enters, by at most 18. This
  does not say that a given session gets its turn: as long as others keep entering it can
  starve, as \<open>sm_readers_starve\<close> shows for a reader.
\<close>

theorem sessions_never_deadlock:
  assumes "reachable (locked_server_init api inp out pf fresh) (locked_server_step False api pf fresh) s"
  shows "(ls_inside s i = Some n \<longrightarrow>
        (\<exists>j. ls_inside s j = Some n \<and> locked_turn api pf j s \<noteq> None) \<or> sm_exec Wake_next (sc_lock (ls_sections s n)) \<noteq> None)
   \<and> (j < length (sv_sessions (ls_server s)) \<longrightarrow> locked_turn api pf j s = Some (Inr t) \<longrightarrow>
        (if ls_inside s j = Some n then section_work (ls_sections t n) < section_work (ls_sections s n)
         else section_work (ls_sections t n) \<le> section_work (ls_sections s n) + (if ls_inside t j = Some n then 18 else 0)))
   \<and> (sm_exec Wake_next (sc_lock (ls_sections s n)) = Some L \<longrightarrow>
        section_work (ls_sections (set_lock n L s) n) < section_work (ls_sections s n))"
proof -
  have inv: "busy_inv s" by (rule busy.reachable_inv [OF assms])
  show ?thesis
    using somebody_goes_on [OF inv, of i n api pf] busy_turn(2,3) [OF inv, of j api pf t n] busy_wakes(2) [OF inv, of n L]
    by (simp del: sm_exec.simps)
qed

theorem sessions_never_deadlock_witness:
  "\<exists>s. ls_inside s 0 = Some (lit ''t'') \<and> ((\<exists>j. ls_inside s j = Some (lit ''t'') \<and> locked_turn pair_socket demo_platform j s \<noteq> None)
     \<or> sm_exec Wake_next (sc_lock (ls_sections s (lit ''t''))) \<noteq> None)"
proof -
  obtain s where s: "reachable (locked_server_init pair_socket fst snd demo_platform no_output)
       (locked_server_step True pair_socket demo_platform no_output) s" "ls_inside s 0 = Some (lit ''t'')"
    by (rule demo_holding)
  note any = reachable_mono [OF s(1) calm_step_runs]
  from sessions_never_deadlock [OF any, THEN conjunct1] s(2) show ?thesis by blast
qed

end
