(* ===== verification/WriteAheadLog.thy ===== *)
theory WriteAheadLog
  imports LockedServerProps
begin

section \<open>The write-ahead logs of a running server\<close>

text \<open>
  What the log files hold while all sessions run: the records of a topic's log are the pushes
  to it and the removals from it, in the order in which they happened, each with the length
  of its message. From them the number and the lengths of the messages of a topic can be
  told, but not the messages.
\<close>

subsection \<open>What a history leaves in the log\<close>

text \<open>A line of a log: a push or a removal, and the length of the message.\<close>

type_synonym log_line = "bool \<times> nat"

fun logged_by :: "byte list \<Rightarrow> event \<Rightarrow> log_line list" where
  "logged_by n (Pushed n' m) = (if n' = n then [(True, length m)] else [])"
| "logged_by n (Removed n' m b) = (if n' = n \<and> b then [(False, length m)] else [])"
| "logged_by n e = []"

definition log_lines :: "byte list \<Rightarrow> event list \<Rightarrow> log_line list" where
  "log_lines n es = concat (map (logged_by n) es)"

definition record_line :: "wall_data_t \<Rightarrow> log_line" where
  "record_line d = (wd_is_push_operation d, unat (sv_size (wd_message d)))"

text \<open>A record that the topics of the server write: they have one partition.\<close>

definition record_ok :: "wall_data_t \<Rightarrow> bool" where
  "record_ok d \<longleftrightarrow> wd_magic d = WALL_DATA_MAGIC \<and> wd_identifier d = 0"

text \<open>Reading the lengths of the messages of a topic out of its log.\<close>

fun replay_line :: "nat list \<Rightarrow> log_line \<Rightarrow> nat list" where
  "replay_line ls (True, l) = ls @ [l]"
| "replay_line ls (False, l) = tl ls"

definition replay_lengths :: "wall_data_t list \<Rightarrow> nat list" where
  "replay_lengths ds = foldl replay_line [] (map record_line ds)"

lemma log_lines_simps [simp]:
  "log_lines n [] = []" "log_lines n (es @ fs) = log_lines n es @ log_lines n fs"
  "log_lines n (e # es) = logged_by n e @ log_lines n es"
  by (simp_all add: log_lines_def)

text \<open>Replaying the lines of one event has the event's effect on the lengths.\<close>

lemma effect_replay:
  "effect B e = Some B' \<Longrightarrow>
     foldl replay_line (map length (messages_of B n)) (logged_by n e) = map length (messages_of B' n)"
  by (cases e) (auto simp: messages_of_def split: option.splits if_splits list.splits)

lemma run_history_replay:
  "run_history B es = Some B' \<Longrightarrow>
     foldl replay_line (map length (messages_of B n)) (log_lines n es) = map length (messages_of B' n)"
proof (induction es arbitrary: B)
  case (Cons e es)
  then obtain B1 where B1: "effect B e = Some B1" "run_history B1 es = Some B'" by (auto split: option.splits)
  then show ?case using Cons.IH effect_replay [OF B1(1), of n] by simp
qed simp

lemma effect_unlogged: "effect B e = Some B' \<Longrightarrow> B' n = None \<Longrightarrow> B n = None \<and> logged_by n e = []"
  by (cases e) (auto split: option.splits if_splits list.splits)

lemma run_history_unlogged: "run_history B es = Some B' \<Longrightarrow> B' n = None \<Longrightarrow> B n = None \<and> log_lines n es = []"
proof (induction es arbitrary: B)
  case (Cons e es)
  then obtain B1 where "effect B e = Some B1" "run_history B1 es = Some B'" by (auto split: option.splits)
  then show ?case using Cons.IH Cons.prems(2) effect_unlogged by fastforce
qed simp

subsection \<open>What a step writes\<close>

definition log_grows :: "log_line list \<Rightarrow> byte list \<Rightarrow> byte list \<Rightarrow> bool" where
  "log_grows ls old new \<longleftrightarrow>
     (\<exists>rs. new = old @ wall_log rs \<and> map (record_line \<circ> snd) rs = ls \<and> list_all (record_ok \<circ> snd) rs)"

lemma log_grows_same [simp]: "log_grows [] old old"
  by (auto simp: log_grows_def wall_log_def)

lemma log_grows_trans: "log_grows ls a b \<Longrightarrow> log_grows ls' b c \<Longrightarrow> log_grows (ls @ ls') a c"
proof -
  assume "log_grows ls a b" and "log_grows ls' b c"
  then obtain rs rs' where "b = a @ wall_log rs" "c = b @ wall_log rs'"
    "map (record_line \<circ> snd) rs = ls" "map (record_line \<circ> snd) rs' = ls'"
    "list_all (record_ok \<circ> snd) rs" "list_all (record_ok \<circ> snd) rs'"
    by (auto simp: log_grows_def)
  then show ?thesis unfolding log_grows_def by (intro exI [of _ "rs @ rs'"]) (simp add: wall_log_def)
qed

lemma log_grows_record:
  "new = old @ wall_data_image pad d \<Longrightarrow> record_ok d \<Longrightarrow> log_grows [record_line d] old new"
  unfolding log_grows_def by (intro exI [of _ "[(pad, d)]"]) (simp add: wall_log_def)

text \<open>
  The events of a step account for what it writes: a topic that is there after it was there
  before and its log has grown by their lines, or the step has created it, with an empty log.
\<close>

definition logs_events :: "world_t \<Rightarrow> event list \<Rightarrow> world_t \<Rightarrow> bool" where
  "logs_events W es W' \<longleftrightarrow> (\<forall>n. registry_find n W' \<noteq> None \<longrightarrow>
     (if registry_find n W = None then topic_log_of n W' = [] \<and> log_lines n es = []
      else log_grows (log_lines n es) (topic_log_of n W) (topic_log_of n W')))"

lemma logs_nothing: "(\<And>n. log_lines n es = []) \<Longrightarrow> logs_events W es W"
  by (simp add: logs_events_def)

lemma registered_log: "world_wf W \<Longrightarrow> registry_find n W = Some T \<Longrightarrow> topic_log_of n W = topic_file (wo_env W, T)"
  using world_wfD(2) [of W n T] by (simp add: topic_log_of_def topic_file_def topic_path_def)

text \<open>One record for one event of a registered topic.\<close>

lemma logs_record:
  assumes wf: "world_wf W" and T: "registry_find n W = Some T" and t: "topic_wf t" "topic_frame (wo_env W, T) t"
    and written: "topic_file t = topic_file (wo_env W, T) @ wall_data_image pad d"
    and d: "record_ok d" "logged_by n e = [record_line d]" "\<And>m. m \<noteq> n \<Longrightarrow> logged_by m e = []"
  shows "logs_events W [e] (set_topic n t W)"
proof -
  have path: "topic_path t = lit ''/tmp/'' @ n" using t(2) world_wfD(2) [OF wf T] by (simp add: topic_frame_def)
  then have "topic_log_of n (set_topic n t W) = topic_file t"
    by (cases t) (simp add: topic_log_of_def topic_file_def topic_path_def)
  then have "log_grows (log_lines n [e]) (topic_log_of n W) (topic_log_of n (set_topic n t W))"
    using log_grows_record [OF written d(1)] registered_log [OF wf T] d(2) by simp
  then show ?thesis
    using world_topic_update(3) [OF wf T t] T d(3) by (auto simp: logs_events_def)
qed

lemma record_line_for:
  assumes "view_read r (message_view r) = Inr m"
  shows "record_line (wall_data_for i p r) = (p, length m)" and "record_ok (wall_data_for 0 p r)"
  using view_read_message_length [OF assms]
  by (simp_all add: record_line_def record_ok_def wall_data_for_def message_view_def unsigned_ucast_eq take_bit_nat_eq_self_iff
      del: length_greater_0_conv)

lemma push_logs:
  assumes wf: "world_wf W" and snd: "malloc_sound malloc"
    and run: "on_topic n (\<lambda>s. rbind (topic_push malloc hash pad f r s) (\<lambda>t. Inr (t, ()))) W = Inr (W', u)"
  shows "logs_events W [Pushed n (request_message r)] W'"
proof -
  from run obtain T t where T: "registry_find n W = Some T" and push: "topic_push malloc hash pad f r (wo_env W, T) = Inr t"
    and W': "W' = set_topic n t W"
    by (auto elim!: on_topic_Inr simp: result_simps)
  note w = world_wfD [OF wf T]
  obtain i m where a: "push_index hash r T = Inr i" "unat i < length (tp_storage T)"
    "view_read r (message_view r) = Inr m" "malloc (en_heap (wo_env W)) (8 + length m) \<noteq> 0"
    by (rule topic_push_Inr [OF push])
  have i: "i = 0" using a(2) w(3) by (simp add: unat_eq_0)
  obtain t' where t': "topic_push malloc hash pad f r (wo_env W, T) = Inr t'" "topic_wf t'"
    "topic_file t' = topic_file (wo_env W, T) @ wall_data_image pad (wall_data_for 0 True r)" "topic_frame (wo_env W, T) t'"
    by (rule topic_push_ok [OF w(1) a(1-3) snd a(4)]) (simp add: i)
  have "t' = t" using push t'(1) by simp
  then show ?thesis
    using t' a(3) record_line_for [OF a(3)] unfolding W' by (intro logs_record [OF wf T]) auto
qed

lemma commit_logs:
  assumes wf: "world_wf W" and run: "on_topic n (remove_commit pad f r) W = Inr (W', b)"
  shows "logs_events W [Removed n (request_message r) b] W'"
proof -
  obtain T t where T: "registry_find n W = Some T" and com: "remove_commit pad f r (wo_env W, T) = Inr (t, b)"
    and W': "W' = set_topic n t W"
    by (rule on_topic_Inr [OF run])
  note w = world_wfD [OF wf T]
  obtain m ms msg where a: "unat (partition_id r) < length (tp_storage T)" "view_read r (message_view r) = Inr msg"
    "topic_abs (wo_env W, T) ! unat (partition_id r) = m # ms" "b \<longleftrightarrow> m = msg"
    by (rule remove_commit_Inr [OF w(1) com])
  have pid: "partition_id r = 0" using a(1) w(3) by (simp add: unat_eq_0)
  show ?thesis
  proof (cases "m = msg")
    case False
    then have "t = (wo_env W, T)" using remove_commit_other [OF w(1) a(1-3) False, of pad f] com by simp
    then show ?thesis using a(4) False by (simp add: W' set_topic_same [OF T] logs_nothing)
  next
    case True
    with a(3) have front: "topic_abs (wo_env W, T) ! unat (partition_id r) = msg # ms" by simp
    obtain t' where t': "remove_commit pad f r (wo_env W, T) = Inr (t', True)" "topic_wf t'"
      "topic_file t' = topic_file (wo_env W, T) @ wall_data_image pad (wall_data_for 0 False r)" "topic_frame (wo_env W, T) t'"
      by (rule remove_commit_match [OF w(1) a(1,2) front, of pad f]) (simp add: pid)
    have "t' = t" using com t'(1) by simp
    then show ?thesis
      using t' a True record_line_for [OF a(2)] unfolding W' by (intro logs_record [OF wf T]) auto
  qed
qed

lemma start_push_logs:
  assumes wf: "world_wf W" and run: "start_push pf hdr topic message k W = Inr (a', W', es)"
  shows "logs_events W es W'"
proof (cases "topic = []")
  case True
  with run show ?thesis by (auto simp: start_push_def reject_def intro: logs_nothing)
next
  case False
  with run have W': "get_or_create_topic (pf_can_open pf) 1 topic W = Inr W'"
    and es: "es = (if get_topic topic W = None then [Created topic] else [])"
    by (auto simp: start_push_def result_simps)
  have can: "registry_find topic W = None \<Longrightarrow> pf_can_open pf (lit ''/tmp/'' @ topic)"
    using W' get_or_create_refused [of topic W "pf_can_open pf" 1] by auto
  obtain W1 where W1: "get_or_create_topic (pf_can_open pf) 1 topic W = Inr W1"
    "world_abs W1 = (case world_abs W topic of None \<Rightarrow> (world_abs W)(topic \<mapsto> []) | Some q \<Rightarrow> world_abs W)"
    "\<forall>n. topic_log_of n W1 = (if n = topic \<and> registry_find topic W = None then [] else topic_log_of n W)"
    by (rule get_or_create_ok [OF wf, of topic "pf_can_open pf", OF can])
  have same: "W1 = W'" using W' W1(1) by simp
  have "registry_find n W' = None \<longleftrightarrow> n \<noteq> topic \<and> registry_find n W = None" for n
    using W1(2) world_abs_None [of W' n] world_abs_None [of W n] world_abs_None [of W topic]
    by (auto simp: same fun_upd_def simp del: world_abs_None split: option.splits if_splits)
  then show ?thesis using W1(3) by (auto simp: logs_events_def es same)
qed

lemma dispatch_logs:
  assumes "world_wf W" and "dispatch pf hdr data k W = Inr (a', W', es)"
  shows "logs_events W es W'"
  using assms start_push_logs [OF assms(1)]
  by (auto simp: dispatch_def Let_def start_pull_def start_delete_def reject_def result_simps
      intro!: logs_nothing split: option.splits opcode_t.splits if_splits)

lemma fiber_step_logs:
  assumes wf: "world_wf W" and snd: "malloc_sound (pf_malloc pf)"
    and run: "fiber_step api pf a W = Inr (a', W', es)"
  shows "logs_events W es W'"
proof (cases a)
  case (Reading k)
  with run show ?thesis
    by (auto simp: read_header_def Let_def intro: logs_nothing dispatch_logs [OF wf]
        split: option.splits prod.splits if_splits)
next
  case (Reading_body k hdr)
  with run show ?thesis
    by (auto simp: read_body_def intro: logs_nothing dispatch_logs [OF wf] split: option.splits prod.splits if_splits)
next
  case (Pushing k topic r)
  with run show ?thesis by (auto simp: result_simps dest: push_logs [OF wf snd])
next
  case (Pulling k topic pid)
  with run show ?thesis by (auto simp: result_simps intro: logs_nothing dest!: pull_section [OF wf])
next
  case (Checking k topic r)
  with run show ?thesis by (auto simp: result_simps intro: logs_nothing dest!: check_section [OF wf])
next
  case (Committing k topic r)
  with run show ?thesis by (auto simp: result_simps dest: commit_logs [OF wf])
qed (use run in \<open>auto intro: logs_nothing split: prod.splits bool.splits\<close>)

subsection \<open>The invariant\<close>

definition log_inv :: "'k run_state \<Rightarrow> bool" where
  "log_inv s \<longleftrightarrow> (case s of (S, h) \<Rightarrow> \<forall>n. registry_find n (sv_world S) \<noteq> None \<longrightarrow>
     log_grows (log_lines n (map snd h)) [] (topic_log_of n (sv_world S)))"

definition logged_inv :: "'k socket_api \<Rightarrow> ('k \<Rightarrow> byte list) \<Rightarrow> ('k \<Rightarrow> byte list) \<Rightarrow> platform_t \<Rightarrow> ('k \<Rightarrow> bool)
    \<Rightarrow> 'k run_state \<Rightarrow> bool" where
  "logged_inv api inp out pf fresh s \<longleftrightarrow> interleaved_inv api inp out pf fresh s \<and> log_inv s"

lemma log_inv_events:
  assumes inv: "interleaved_inv api inp out pf fresh (S, h)" and log: "log_inv (S, h)"
    and es: "logs_events (sv_world S) es (sv_world T)" and h': "map snd h' = map snd h @ es"
  shows "log_inv (T, h')"
proof -
  let ?W = "sv_world S" and ?W' = "sv_world T" and ?hs = "map snd h"
  have "log_grows (log_lines n (?hs @ es)) [] (topic_log_of n ?W')" if n: "registry_find n ?W' \<noteq> None" for n
  proof (cases "registry_find n ?W = None")
    case True
    have "run_history Map.empty ?hs = Some (world_abs ?W)" using inv by (simp add: interleaved_inv_def)
    then have "log_lines n ?hs = []" using True run_history_unlogged [of _ ?hs _ n] by simp
    with True n es show ?thesis by (auto simp: logs_events_def)
  next
    case False
    with n es have "log_grows (log_lines n es) (topic_log_of n ?W) (topic_log_of n ?W')"
      unfolding logs_events_def by auto
    then show ?thesis using log False log_grows_trans by (fastforce simp: log_inv_def)
  qed
  then show ?thesis by (simp add: log_inv_def h')
qed

lemma logged_inv_init: "interleaved_init api inp out pf fresh s \<Longrightarrow> logged_inv api inp out pf fresh s"
  by (auto simp: logged_inv_def interleaved_inv_init log_inv_def interleaved_init_def server_start_def server_ctor_def
      registry_find_def registry_new_def)

lemma logged_inv_step:
  fixes s :: "'k run_state"
  assumes inv: "logged_inv api inp out pf fresh s" and step: "interleaved_step api pf fresh s t"
  shows "logged_inv api inp out pf fresh t"
proof -
  have il: "interleaved_inv api inp out pf fresh s" and log: "log_inv s" using inv by (simp_all add: logged_inv_def)
  have quiet: "log_inv (S', h)" if "s = (S, h)" "sv_world S' = sv_world S" for S S' :: "'k activity server_t" and h
    using log that by (simp add: log_inv_def)
  have "log_inv t"
    using step
  proof (cases rule: interleaved_step.cases)
    case (fiber_served i S h)
    show ?thesis
    proof (cases "sv_sessions S ! i")
      case None
      with fiber_served log show ?thesis by (simp add: fiber_turn_def)
    next
      case (Some a)
      with fiber_served(3) obtain a' W' es where st: "fiber_step api pf a (sv_world S) = Inr (a', W', es)"
        and t: "t = (S\<lparr>sv_sessions := (sv_sessions S)[i := Some a'], sv_world := W'\<rparr>, h @ map (Pair i) es)"
        by (auto simp: fiber_turn_def result_simps)
      have "world_wf (sv_world S)" "malloc_sound (pf_malloc pf)"
        using il fiber_served(1) by (simp_all add: interleaved_inv_def)
      then have "logs_events (sv_world S) es W'" using st by (rule fiber_step_logs)
      then show ?thesis
        unfolding t
        by (intro log_inv_events [OF il [unfolded fiber_served(1)] log [unfolded fiber_served(1)], where es = es])
          (simp_all add: comp_def)
    qed
  next
    case (fiber_accepted S r h)
    then show ?thesis using quiet [of S h "accept_turn (map_accept_result Reading r) S"] by simp
  next
    case (fiber_aborted S h)
    then show ?thesis using quiet [of S h "accept_turn Accept_aborted S"] by simp
  next
    case (fiber_stopped S h)
    then show ?thesis using quiet [of S h "server_stop S"] by (simp add: server_stop_def)
  qed
  then show ?thesis using interleaved_inv_step [OF il step] by (simp add: logged_inv_def)
qed

interpretation wal: invariant_system "interleaved_init api inp out pf fresh" "interleaved_step api pf fresh"
    "logged_inv api inp out pf fresh" for api inp out pf fresh
  by unfold_locales (erule logged_inv_init, erule (1) logged_inv_step)

subsection \<open>A server that has done one push\<close>

text \<open>Its log is the record of a message of that length.\<close>

lemma demo_push_logged:
  assumes "length m \<le> 1000"
  obtains W r where "handle demo_platform (demo_push 0 m) world_new = Inr (W, ok_response demo_platform (opcode_value PUSH))"
    and "world_abs W = [lit ''t'' \<mapsto> [m]]"
    and "\<forall>n. topic_log_of n W = (if n = lit ''t'' then wall_data_image 0 (wall_data_for 0 True r) else [])"
    and "message_view r = \<lparr>sv_data = pf_buffer demo_platform + 7, sv_size = of_nat (length m)\<rparr>"
proof -
  let ?hdr = "header_of (demo_push 0 m)" and ?t = "lit ''t''"
  have fits: "fits_buffer ?t m" using assms by (simp add: fits_buffer_def)
  have mem: "has_memory 4 (Suc 0) world_new" by (simp add: has_memory_def memory_left_def world_new_def)
  obtain W r where W: "handle_push demo_platform ?hdr ?t m world_new = Inr (W, ok_response demo_platform (opcode_value PUSH))"
    "world_abs W = (world_abs world_new)(?t \<mapsto> messages_of (world_abs world_new) ?t @ [m])"
    "topic_log_of ?t W = (if registry_find ?t world_new = None then [] else topic_log_of ?t world_new)
        @ wall_data_image (pf_wall_pad demo_platform) (wall_data_for 0 True r)"
    "\<forall>other. other \<noteq> ?t \<longrightarrow> topic_log_of other W = topic_log_of other world_new"
    "create_request (request_buffer demo_platform) ?t (rh_partition_id ?hdr) m = Inr r"
    by (rule handle_push_accepted [OF world_new_wf demo_platform_sound mem _ _ fits, of ?hdr]) (simp_all add: demo_push_def)
  obtain r' where r': "create_request (request_buffer demo_platform) ?t (rh_partition_id ?hdr) m = Inr r'"
    "rq_base r' = pf_buffer demo_platform" "message_len r' = of_nat (length m)" "topic_name_len r' = of_nat (length ?t)"
    by (rule create_request_views [OF fits])
  have "r' = r" using W(5) r'(1) by simp
  with r' have "message_view r = \<lparr>sv_data = pf_buffer demo_platform + 7, sv_size = ucast (of_nat (length m) :: u16)\<rparr>"
    by (simp add: message_view_def)
  moreover have "ucast (of_nat (length m) :: u16) = (of_nat (length m) :: u64)"
    using assms by (intro unsigned_word_eqI [where ?'a = nat]) (simp add: unsigned_ucast_eq unsigned_of_nat take_bit_nat_eq_self)
  moreover have "handle demo_platform (demo_push 0 m) world_new = handle_push demo_platform ?hdr ?t m world_new"
    by (simp add: handle_def handle_request_def demo_push_def del: opcode_value.simps)
  moreover have "topic_log_of n world_new = []" for n by (simp add: topic_log_of_def world_new_def file_of_def)
  moreover have "pf_wall_pad demo_platform = 0" by (simp add: demo_platform_def)
  ultimately show thesis using W(1-4) by (intro that [of W r]) (auto simp: messages_of_def)
qed

lemma demo_push_served:
  assumes "length m \<le> 1000" and "handle demo_platform (demo_push 0 m) world_new = Inr (W, ok_response demo_platform (opcode_value PUSH))"
  obtains s where "reachable (locked_server_init pair_socket fst snd demo_platform no_output)
      (locked_server_step True pair_socket demo_platform no_output) s" and "sv_world (ls_server s) = W"
proof -
  let ?q = "demo_push 0 m" and ?S = "\<lambda>ss. \<lparr>sv_open = True, sv_accepting = True, sv_sessions = ss, sv_world = world_new\<rparr>"
  let ?k = "(frame_of 0 ?q, []) :: byte list \<times> byte list"
  let ?init = "interleaved_init pair_socket fst snd demo_platform no_output"
  let ?step = "interleaved_step pair_socket demo_platform no_output"
  have s0: "reachable ?init ?step (?S [], [])"
    by (rule reachable.start) (auto simp: interleaved_init_def pair_socket_ok no_output_def small_malloc_sound
        demo_platform_def server_start_def server_ctor_def world_new_def)
  have s1: "?step (?S [], []) (?S [Some (Reading ?k)], [])"
    using accept_step [of "?S []" no_output ?k] by (simp add: no_output_def)
  have "frame_fits ?q" using assms(1) by (simp add: frame_fits_def session_buffer_size_def sizeof_header_def demo_push_def)
  then obtain k' where k': "session_round pair_socket demo_platform ?k world_new = Next_request k' W"
    using session_round_frame [OF pair_socket_ok, of ?q ?k 0 "[]" demo_platform world_new] assms(2) by auto
  obtain h' where run: "?step\<^sup>*\<^sup>* (?S [Some (Reading ?k)], []) ((?S [Some (Reading k')])\<lparr>sv_world := W\<rparr>, h')"
    using round_runs(1) [of "?S [Some (Reading ?k)]" 0 ?k pair_socket demo_platform k' W no_output "[]"] k' by auto
  have "reachable ?init ?step (?S [Some (Reading ?k)], [])" using s0 s1 by (rule reachable.next_state)
  with run have "reachable ?init ?step ((?S [Some (Reading k')])\<lparr>sv_world := W\<rparr>, h')" by (rule reachable_steps)
  then obtain s where s: "reachable (locked_server_init pair_socket fst snd demo_platform no_output)
      (locked_server_step True pair_socket demo_platform no_output) s" "ls_server s = (?S [Some (Reading k')])\<lparr>sv_world := W\<rparr>"
    using fine.reachable_simulated [of pair_socket fst snd demo_platform no_output] by (fastforce simp: parked_rel_def parked_def)
  then show thesis by (intro that [OF s(1)]) simp
qed

subsection \<open>Properties\<close>

text \<open>
  C27: the log is the history, as long as a topic is looked up and inserted in one step, as it would
  be under the registry's mutex, which the code never takes (without it the log can be corrupted,
  as \<open>registry_race_corrupts_log\<close> shows). In every calm run of the server under its other locks, those
  in which no writer is let in in the middle of a wake-up loop, also in the middle of critical
  sections, the log of a topic consists of whole records of partition 0; they
  are, in their order, the pushes to the topic and the removals from it since the topic was
  created, each with the length of its message; and replaying them gives the number and the
  lengths of the messages that the topic holds.
\<close>

theorem server_log_is_history:
  assumes "reachable (locked_server_init api inp out pf fresh) (locked_server_step True api pf fresh) s"
    and "world_abs (sv_world (ls_server s)) n = Some q"
  shows "length (topic_log_of n (sv_world (ls_server s)))
         = sizeof_wall_data * length (wall_records (topic_log_of n (sv_world (ls_server s))))
     \<and> list_all record_ok (wall_records (topic_log_of n (sv_world (ls_server s))))
     \<and> map record_line (wall_records (topic_log_of n (sv_world (ls_server s)))) = log_lines n (map snd (ls_history s))
     \<and> replay_lengths (wall_records (topic_log_of n (sv_world (ls_server s)))) = map length q"
proof -
  let ?S = "ls_server s" and ?h = "ls_history s"
  have inv: "logged_inv api inp out pf fresh (?S, ?h)" by (rule wal.reachable_inv [OF calm_server_inv(2) [OF assms(1)]])
  have "registry_find n (sv_world ?S) \<noteq> None" using assms(2) world_abs_None [of "sv_world ?S" n] by auto
  with inv obtain rs where rs: "topic_log_of n (sv_world ?S) = wall_log rs" "list_all (record_ok \<circ> snd) rs"
    "map (record_line \<circ> snd) rs = log_lines n (map snd ?h)"
    by (auto simp: logged_inv_def log_inv_def log_grows_def)
  have hist: "run_history Map.empty (map snd ?h) = Some (world_abs (sv_world ?S))"
    using inv by (simp add: logged_inv_def interleaved_inv_def)
  have "foldl replay_line [] (log_lines n (map snd ?h)) = map length q"
    using run_history_replay [OF hist, of n] assms(2) by (simp add: messages_of_def)
  then show ?thesis
    using rs by (simp add: wall_records_log length_wall_log sizeof_wall_data_def replay_lengths_def list_all_iff comp_def)
qed

theorem server_log_is_history_witness:
  "\<exists>W. world_abs W = [lit ''t'' \<mapsto> [lit ''hello'']] \<and> length (wall_records (topic_log_of (lit ''t'') W)) = 1
     \<and> replay_lengths (wall_records (topic_log_of (lit ''t'') W)) = [5]"
proof -
  obtain W r where W: "handle demo_platform (demo_push 0 (lit ''hello'')) world_new = Inr (W, ok_response demo_platform (opcode_value PUSH))"
    "world_abs W = [lit ''t'' \<mapsto> [lit ''hello'']]"
    "\<forall>n. topic_log_of n W = (if n = lit ''t'' then wall_data_image 0 (wall_data_for 0 True r) else [])"
    by (rule demo_push_logged [of "lit ''hello''"]) simp_all
  obtain s where s: "reachable (locked_server_init pair_socket fst snd demo_platform no_output)
      (locked_server_step True pair_socket demo_platform no_output) s" "sv_world (ls_server s) = W"
    by (rule demo_push_served [OF _ W(1)]) simp_all
  have "world_abs (sv_world (ls_server s)) (lit ''t'') = Some [lit ''hello'']" by (simp add: s(2) W(2) del: world_abs_None)
  from server_log_is_history [OF s(1) this] W show ?thesis
    by (intro exI [of _ W]) (simp add: s(2) sizeof_wall_data_def)
qed

text \<open>
  C29: the log cannot restore the messages. For any two messages of the same length, the server
  can be in a state in which a topic holds the one and in a state in which it holds the other,
  and all log files are the same.
\<close>

theorem log_cannot_restore_messages:
  assumes "length a = length b" and "length a \<le> 1000"
  shows "\<exists>s t. reachable (locked_server_init pair_socket fst snd demo_platform no_output)
         (locked_server_step True pair_socket demo_platform no_output) s
     \<and> reachable (locked_server_init pair_socket fst snd demo_platform no_output)
         (locked_server_step True pair_socket demo_platform no_output) t
     \<and> world_abs (sv_world (ls_server s)) = [lit ''t'' \<mapsto> [a]]
     \<and> world_abs (sv_world (ls_server t)) = [lit ''t'' \<mapsto> [b]]
     \<and> (\<forall>n. topic_log_of n (sv_world (ls_server s)) = topic_log_of n (sv_world (ls_server t)))"
proof -
  obtain W r where W: "handle demo_platform (demo_push 0 a) world_new = Inr (W, ok_response demo_platform (opcode_value PUSH))"
    "world_abs W = [lit ''t'' \<mapsto> [a]]"
    "\<forall>n. topic_log_of n W = (if n = lit ''t'' then wall_data_image 0 (wall_data_for 0 True r) else [])"
    "message_view r = \<lparr>sv_data = pf_buffer demo_platform + 7, sv_size = of_nat (length a)\<rparr>"
    by (rule demo_push_logged [OF assms(2)])
  have b: "length b \<le> 1000" using assms by simp
  obtain V q where V: "handle demo_platform (demo_push 0 b) world_new = Inr (V, ok_response demo_platform (opcode_value PUSH))"
    "world_abs V = [lit ''t'' \<mapsto> [b]]"
    "\<forall>n. topic_log_of n V = (if n = lit ''t'' then wall_data_image 0 (wall_data_for 0 True q) else [])"
    "message_view q = \<lparr>sv_data = pf_buffer demo_platform + 7, sv_size = of_nat (length b)\<rparr>"
    by (rule demo_push_logged [OF b])
  have "wall_data_for 0 True r = wall_data_for 0 True q" using W(4) V(4) assms(1) by (simp add: wall_data_for_def)
  then have "topic_log_of n W = topic_log_of n V" for n by (simp add: W(3) V(3))
  with demo_push_served [OF assms(2) W(1)] demo_push_served [OF b V(1)] W(2) V(2) show ?thesis by metis
qed

theorem log_cannot_restore_messages_witness:
  "\<exists>W V. world_abs W = [lit ''t'' \<mapsto> [lit ''pay 10'']] \<and> world_abs V = [lit ''t'' \<mapsto> [lit ''pay 99'']]
     \<and> (\<forall>n. topic_log_of n W = topic_log_of n V)"
  using log_cannot_restore_messages [of "lit ''pay 10''" "lit ''pay 99''"] by auto

end
