(* ===== verification/LostMessage.thy ===== *)
theory LostMessage
  imports LockedServerProps
begin

section \<open>How the server loses a message\<close>

text \<open>
  Runs of one partition, calm or not, are runs of the server: while some sessions are in the
  operations of a topic, the moves of that topic's partition can be made by the sessions and
  the threads in its wake-up loop. So the run that loses a message (\<open>LockedPartition\<close>) happens to
  a whole server, with six clients, from the bytes they send to the answers they get.
\<close>

subsection \<open>The moves of a partition, made by sessions\<close>

definition activity_after :: "platform_t \<Rightarrow> 'k activity list \<Rightarrow> (fiber \<times> event) list \<Rightarrow> nat \<Rightarrow> 'k activity" where
  "activity_after pf acts h i = foldl (after_event pf) (acts ! i) (events_of i h)"

text \<open>
  The server \<open>s\<close> with the history \<open>h0\<close> and what \<open>v\<close> adds to it: its topic \<open>n\<close> is the partition \<open>v\<close>, and its
  sessions, which were at \<open>acts\<close>, are in the operations of this topic or outside all topics.
\<close>

definition shows_partition :: "platform_t \<Rightarrow> byte list \<Rightarrow> 'k activity list \<Rightarrow> (nat \<times> event) list \<Rightarrow> 'k locked_server_t
    \<Rightarrow> locked_t \<Rightarrow> bool" where
  "shows_partition pf n acts h0 s v \<longleftrightarrow>
     (\<exists>T. registry_find n (sv_world (ls_server s)) = Some T \<and> length (tp_storage T) = 1
        \<and> section_view (sv_world (ls_server s)) T (ls_sections s n) = v\<lparr>lt_history := []\<rparr>)
   \<and> sv_sessions (ls_server s) = map (\<lambda>i. Some (activity_after pf acts (lt_history v) i)) [0..<length acts]
   \<and> ls_history s = h0 @ lt_history v
   \<and> (\<forall>i. ls_inside s i = (if lt_at v i = Idle then None else Some n))
   \<and> (\<forall>i. lt_at v i \<noteq> Idle \<longrightarrow> i < length acts \<and> fits pf n (activity_after pf acts (lt_history v) i) (lt_at v i))"

lemma piece_events:
  assumes "lt_history s = []" and "section_step malloc pad i n f l s = Some (Inr t)"
  shows "lt_history t = [] \<or> (\<exists>e. lt_history t = [(f, e)])"
  using assms by (cases l) (auto simp: through_lock_Some Let_def result_simps split: if_splits)

lemma section_view_after:
  assumes "length (tp_storage T) = 1"
  shows "section_view (world_after n T v W) (topic_after T v) (section_after v) = v\<lparr>lt_history := []\<rparr>"
  using assms by (cases v) (simp add: section_view_def world_after_def topic_after_def section_after_def)

lemma fits_index: "fits pf n a l \<Longrightarrow> length (tp_storage T) = 1 \<Longrightarrow> section_index pf l T = 0"
  by (cases l) (auto simp: routed_def)

lemma run_shown:
  assumes pad: "pf_wall_pad pf = 0" and shown: "shows_partition pf n acts h0 s v"
    and run: "section_step (pf_malloc pf) 0 0 n f (lt_at v f) v = Some (Inr v')"
  shows "\<exists>s'. locked_server_step False api pf fresh s s' \<and> shows_partition pf n acts h0 s' v'"
proof -
  let ?W = "sv_world (ls_server s)" and ?sc = "ls_sections s n" and ?a = "activity_after pf acts (lt_history v) f"
  from shown obtain T where T: "registry_find n ?W = Some T" "length (tp_storage T) = 1"
    and view: "section_view ?W T ?sc = v\<lparr>lt_history := []\<rparr>"
    by (auto simp: shows_partition_def)
  have busy: "lt_at v f \<noteq> Idle" using run by auto
  with shown have f: "f < length acts" and fit: "fits pf n ?a (lt_at v f)" and inside: "ls_inside s f = Some n"
    and ss: "sv_sessions (ls_server s) = map (\<lambda>i. Some (activity_after pf acts (lt_history v) i)) [0..<length acts]"
    and hist: "ls_history s = h0 @ lt_history v"
    by (simp_all add: shows_partition_def)
  have at: "sc_at ?sc f = lt_at v f" using arg_cong [OF view, of "\<lambda>u. lt_at u f"] by simp
  have "section_step (pf_malloc pf) 0 0 n f (lt_at v f) ((v\<lparr>lt_history := []\<rparr>)\<lparr>lt_history := lt_history v\<rparr>) =
      map_option (map_sum id (\<lambda>t. t\<lparr>lt_history := lt_history v @ lt_history t\<rparr>))
        (section_step (pf_malloc pf) 0 0 n f (lt_at v f) (v\<lparr>lt_history := []\<rparr>))"
    by (rule section_step_history) simp
  then have "map_option (map_sum id (\<lambda>t. t\<lparr>lt_history := lt_history v @ lt_history t\<rparr>))
      (section_step (pf_malloc pf) 0 0 n f (lt_at v f) (v\<lparr>lt_history := []\<rparr>)) = Some (Inr v')"
    using run by simp
  then obtain r where "section_step (pf_malloc pf) 0 0 n f (lt_at v f) (v\<lparr>lt_history := []\<rparr>) = Some r"
    "map_sum id (\<lambda>t. t\<lparr>lt_history := lt_history v @ lt_history t\<rparr>) r = Inr v'"
    by (auto simp: map_option_eq_Some)
  then obtain t where t: "section_step (pf_malloc pf) 0 0 n f (lt_at v f) (v\<lparr>lt_history := []\<rparr>) = Some (Inr t)"
    and v': "v' = t\<lparr>lt_history := lt_history v @ lt_history t\<rparr>" by (cases r) auto
  let ?s' = "leave_piece pf f ?a n T t s"
  have "locked_turn api pf f s = Some (Inr ?s')"
    using f ss inside T t at fits_index [OF fit T(2)]
    by (simp add: locked_turn_def piece_turn_def Let_def view pad)
  then have step: "locked_server_step False api pf fresh s ?s'"
    using f ss by (intro ls_turn [of f]) simp_all
  have ev: "lt_history t = [] \<or> (\<exists>e. lt_history t = [(f, e)])" by (rule piece_events [OF _ t]) simp
  have acts: "activity_after pf acts (lt_history v @ lt_history t) i =
      (if i = f then foldl (after_event pf) ?a (map snd (lt_history t)) else activity_after pf acts (lt_history v) i)" for i
    using ev by (auto simp: activity_after_def events_of_def)
  have moves: "lt_at t i = lt_at v i" if "i \<noteq> f" for i
    using piece_moves_one [of "pf_malloc pf" 0 0 n f "v\<lparr>lt_history := []\<rparr>" t i] t that by simp
  have "fits pf n (foldl (after_event pf) ?a (map snd (lt_history t))) (lt_at t f)"
    using piece_fits [of pf n ?a "v\<lparr>lt_history := []\<rparr>" f "pf_malloc pf" 0 0 t] fit t by simp
  with f acts have here: "f < length acts \<and> fits pf n (activity_after pf acts (lt_history v') f) (lt_at v' f)" by (simp add: v')
  have there: "i < length acts \<and> fits pf n (activity_after pf acts (lt_history v') i) (lt_at v' i)"
    if "lt_at v' i \<noteq> Idle" for i
    using shown here acts [of i] moves [of i] that by (cases "i = f") (auto simp: v' shows_partition_def)
  have inside': "ls_inside ?s' i = (if lt_at v' i = Idle then None else Some n)" for i
    using shown moves [of i] by (auto simp: leave_piece_def Let_def v' shows_partition_def)
  have sessions: "sv_sessions (ls_server ?s') = map (\<lambda>i. Some (activity_after pf acts (lt_history v') i)) [0..<length acts]"
    by (rule nth_equalityI) (simp_all add: leave_piece_def Let_def ss v' acts nth_list_update)
  have world: "registry_find n (sv_world (ls_server ?s')) = Some (topic_after T t)" "length (tp_storage (topic_after T t)) = 1"
    "section_view (sv_world (ls_server ?s')) (topic_after T t) (ls_sections ?s' n) = v'\<lparr>lt_history := []\<rparr>"
    using T(2) section_view_after [OF T(2), of n t ?W]
    by (simp_all add: leave_piece_def Let_def v') (simp_all add: world_after_def topic_after_def)
  have "ls_history ?s' = h0 @ lt_history v'" by (simp add: leave_piece_def Let_def v' hist)
  then have "shows_partition pf n acts h0 ?s' v'"
    using world sessions inside' there unfolding shows_partition_def by blast
  with step show ?thesis by blast
qed

lemma wake_shown:
  assumes shown: "shows_partition pf n acts h0 s v" and run: "sm_exec Wake_next (lt_lock v) = Some L"
  shows "locked_server_step False api pf fresh s (set_lock n L s)"
    and "shows_partition pf n acts h0 (set_lock n L s) (v\<lparr>lt_lock := L\<rparr>)"
proof -
  from shown obtain T where T: "registry_find n (sv_world (ls_server s)) = Some T" "length (tp_storage T) = 1"
    and view: "section_view (sv_world (ls_server s)) T (ls_sections s n) = v\<lparr>lt_history := []\<rparr>"
    by (auto simp: shows_partition_def)
  have "sc_lock (ls_sections s n) = lt_lock v" using arg_cong [OF view, of lt_lock] by simp
  with run show "locked_server_step False api pf fresh s (set_lock n L s)" by (intro ls_wakes) simp
  have "section_view (sv_world (ls_server s)) T ((ls_sections s n)\<lparr>sc_lock := L\<rparr>) = (v\<lparr>lt_lock := L\<rparr>)\<lparr>lt_history := []\<rparr>"
    using view by (cases v) (auto simp: section_view_def)
  then show "shows_partition pf n acts h0 (set_lock n L s) (v\<lparr>lt_lock := L\<rparr>)"
    using shown T by (simp add: shows_partition_def set_lock_def)
qed

fun calls :: "move \<Rightarrow> bool" where
  "calls (Call f l) = True"
| "calls m = False"

lemma moves_shown:
  assumes "pf_wall_pad pf = 0" and "shows_partition pf n acts h0 s v" and "list_all (\<lambda>m. \<not> calls m) ms"
    and "run_moves False (pf_malloc pf) n ms v = Some v'"
  shows "\<exists>s'. (locked_server_step False api pf fresh)\<^sup>*\<^sup>* s s' \<and> shows_partition pf n acts h0 s' v'"
  using assms(2-4)
proof (induction ms arbitrary: s v)
  case Nil
  then show ?case by auto
next
  case (Cons m ms)
  from Cons.prems(3) obtain u where u: "perform False (pf_malloc pf) n m v = Some u"
    and rest: "run_moves False (pf_malloc pf) n ms u = Some v'" by (auto split: option.splits)
  have "\<exists>s1. locked_server_step False api pf fresh s s1 \<and> shows_partition pf n acts h0 s1 u"
  proof (cases m)
    case (Run f)
    with u have "section_step (pf_malloc pf) 0 0 n f (lt_at v f) v = Some (Inr u)" by (auto split: option.splits sum.splits)
    from run_shown [OF assms(1) Cons.prems(1) this] show ?thesis .
  next
    case Wake
    with u obtain L where "sm_exec Wake_next (lt_lock v) = Some L" "u = v\<lparr>lt_lock := L\<rparr>" by (auto simp: map_option_eq_Some)
    with wake_shown [OF Cons.prems(1)] show ?thesis by blast
  qed (use Cons.prems(2) in simp)
  then obtain s1 where "locked_server_step False api pf fresh s s1" "shows_partition pf n acts h0 s1 u" by blast
  with Cons.IH [OF _ _ rest] Cons.prems(2) show ?case by (auto intro: converse_rtranclp_into_rtranclp)
qed

subsection \<open>Six clients\<close>

text \<open>Two push, two pull, and two delete the first message.\<close>

definition lost_requests :: "broker_request list" where
  "lost_requests = [demo_push 0 (lit ''a''), demo_push 0 (lit ''b''), demo_pull 0, demo_pull 0,
     demo_delete 0 (lit ''a''), demo_delete 0 (lit ''a'')]"

abbreviation demo_server :: "'k activity list \<Rightarrow> world_t \<Rightarrow> 'k activity server_t" where
  "demo_server acts W \<equiv> \<lparr>sv_open = True, sv_accepting = True, sv_sessions = map Some acts, sv_world = W\<rparr>"

lemma demo_turn:
  assumes "demo_reachable (demo_server acts W, h)" and "i < length acts"
    and "fiber_step pair_socket demo_platform (acts ! i) W = Inr (a, W', es)"
  shows "demo_reachable (demo_server (acts[i := a]) W', h @ map (Pair i) es)"
proof -
  have "interleaved_step pair_socket demo_platform no_output (demo_server acts W, h)
      ((demo_server acts W)\<lparr>sv_sessions := (sv_sessions (demo_server acts W))[i := Some a], sv_world := W'\<rparr>, h @ map (Pair i) es)"
    using assms(2,3) by (intro turn_step) simp_all
  then show ?thesis using demo_next [OF assms(1)] by (simp add: map_update)
qed

lemma demo_accepts:
  assumes "demo_reachable (demo_server acts W, h)" and "list_all no_output ks"
  shows "demo_reachable (demo_server (acts @ map Reading ks) W, h)"
  using assms
proof (induction ks arbitrary: acts)
  case (Cons k ks)
  have "interleaved_step pair_socket demo_platform no_output (demo_server acts W, h) (demo_server (acts @ [Reading k]) W, h)"
    using accept_step [of "demo_server acts W" no_output k] Cons.prems(2) by simp
  then have "demo_reachable (demo_server (acts @ [Reading k]) W, h)" by (rule demo_next [OF Cons.prems(1)])
  with Cons.IH [of "acts @ [Reading k]"] Cons.prems(2) show ?case by simp
qed simp

text \<open>A session reads its request and goes on to what the request calls for.\<close>

lemma demo_arrives:
  assumes run: "demo_reachable (demo_server acts W, h)" and i: "i < length acts" "acts ! i = Reading (frame_of 0 q, [])"
    and q: "br_topic q = lit ''t''" "frame_fits q"
    and disp: "\<forall>k. dispatch demo_platform (header_of q) (br_topic q @ br_message q) k W = Inr (act k, W', es)"
  shows "\<exists>k. snd k = [] \<and> demo_reachable (demo_server (acts[i := act k]) W', h @ map (Pair i) es)"
proof -
  obtain k1 k2 where rd: "fiber_step pair_socket demo_platform (Reading (frame_of 0 q, [])) W = Inr (Reading_body k1 (header_of q), W, [])"
    "fiber_step pair_socket demo_platform (Reading_body k1 (header_of q)) W =
      dispatch demo_platform (header_of q) (br_topic q @ br_message q) k2 W" "snd k2 = []"
    by (rule demo_second_reads [OF q])
  have s1: "demo_reachable (demo_server (acts[i := Reading_body k1 (header_of q)]) W, h)"
    using demo_turn [OF run i(1), of "Reading_body k1 (header_of q)" W "[]"] i(2) rd(1) by simp
  have "demo_reachable (demo_server (acts[i := act k2]) W', h @ map (Pair i) es)"
    using demo_turn [OF s1, of i "act k2" W' es] i(1) trans [OF rd(2) disp [rule_format]] by simp
  with rd(3) show ?thesis by blast
qed

lemma demo_fits:
  assumes "length m \<le> 1000"
  shows "frame_fits (demo_push 0 m)" "frame_fits (demo_pull 0)" "frame_fits (demo_delete 0 m)"
  using assms
  by (simp_all add: demo_push_def demo_pull_def demo_delete_def frame_fits_def session_buffer_size_def sizeof_header_def)

lemma demo_request_parts [simp]:
  "br_topic (demo_push p m) = lit ''t''" "br_topic (demo_pull p) = lit ''t''" "br_topic (demo_delete p m) = lit ''t''"
  "br_message (demo_push p m) = m" "br_message (demo_pull p) = []" "br_message (demo_delete p m) = m"
  "br_pid (demo_push p m) = p" "br_pid (demo_pull p) = p" "br_pid (demo_delete p m) = p"
  "opcode_of (br_opcode (demo_push p m)) = Some PUSH" "opcode_of (br_opcode (demo_pull p)) = Some PULL"
  "opcode_of (br_opcode (demo_delete p m)) = Some DELETE"
  by (simp_all add: demo_push_def demo_pull_def demo_delete_def del: opcode_value.simps)

text \<open>What the requests of the demonstration call for when the topic exists.\<close>

lemma demo_dispatch:
  assumes T: "registry_find (lit ''t'') W = Some T" and m: "length m \<le> 1000"
    and r: "create_request (request_buffer demo_platform) (lit ''t'') 0 m = Inr r"
  shows "\<forall>k. dispatch demo_platform (header_of (demo_push 0 m)) (br_topic (demo_push 0 m) @ br_message (demo_push 0 m)) k W =
       Inr (Pushing k (lit ''t'') r, W, [])"
    and "\<forall>k. dispatch demo_platform (header_of (demo_pull 0)) (br_topic (demo_pull 0) @ br_message (demo_pull 0)) k W =
       Inr (Pulling k (lit ''t'') 0, W, [])"
    and "\<forall>k. dispatch demo_platform (header_of (demo_delete 0 m)) (br_topic (demo_delete 0 m) @ br_message (demo_delete 0 m)) k W =
       Inr (Checking k (lit ''t'') r, W, [])"
  unfolding dispatch_request [OF demo_fits(1) [OF m]] dispatch_request [OF demo_fits(2) [OF m]]
    dispatch_request [OF demo_fits(3) [OF m]]
  using T r
  by (simp_all add: start_push_def start_pull_def start_delete_def get_topic_def get_or_create_topic_def INVALID_TOPIC_ID_def)

lemma demo_first_push:
  obtains r W1 W where
    "\<forall>k :: byte list \<times> byte list. dispatch demo_platform (header_of (demo_push 0 (lit ''a''))) (br_topic (demo_push 0 (lit ''a'')) @ br_message (demo_push 0 (lit ''a'')))
       k world_new = Inr (Pushing k (lit ''t'') r, W1, [Created (lit ''t'')])"
    and "\<forall>k. fiber_step pair_socket demo_platform (Pushing k (lit ''t'') r) W1 =
       Inr (Answering k (ok_response demo_platform (opcode_value PUSH)), W, [Pushed (lit ''t'') (lit ''a'')])"
    and "world_wf W" and "world_abs W = [lit ''t'' \<mapsto> [lit ''a'']]" and "has_memory 4 3 W"
proof -
  let ?t = "lit ''t''" and ?q = "demo_push 0 (lit ''a'')"
  obtain W where W: "handle demo_platform ?q world_new = Inr (W, ok_response demo_platform (opcode_value PUSH))"
    "world_wf W" "world_abs W = [?t \<mapsto> [lit ''a'']]" "has_memory 4 3 W"
    by (rule demo_pushed [of "lit ''a''"]) simp
  have q: "opcode_of (br_opcode ?q) = Some PUSH" by simp
  obtain r where r: "create_request (request_buffer demo_platform) ?t 0 (lit ''a'') = Inr r" "view_read r (message_view r) = Inr (lit ''a'')"
    by (rule create_request_views [of ?t "lit ''a''"]) (simp add: fits_buffer_def)
  from W(1) obtain W1 where W1: "get_or_create_topic (pf_can_open demo_platform) 1 ?t world_new = Inr W1"
    "on_topic ?t (\<lambda>s. rbind (topic_push (pf_malloc demo_platform) (request_hash (pf_hash_char demo_platform))
       (pf_wall_pad demo_platform) (pf_fiber demo_platform) r s) (\<lambda>t. Inr (t, ()))) W1 = Inr (W, ())"
    by (auto simp: handle_def handle_request_def handle_push_def r(1) result_simps simp del: opcode_value.simps)
  have "dispatch demo_platform (header_of ?q) (br_topic ?q @ br_message ?q) k world_new = Inr (Pushing k ?t r, W1, [Created ?t])" for k :: "byte list \<times> byte list"
    unfolding dispatch_request [OF demo_fits(1) [of "lit ''a''", simplified]]
    using W1(1) r(1) by (simp add: start_push_def get_topic_def)
  moreover have "fiber_step pair_socket demo_platform (Pushing k ?t r) W1 =
      Inr (Answering k (ok_response demo_platform (opcode_value PUSH)), W, [Pushed ?t (lit ''a'')])" for k
    using W1(2) r(2) by simp
  ultimately show thesis using W(2-4) by (intro that [of r W1 W]) blast+
qed

lemma demo_check_turn:
  assumes "world_wf W" and "world_abs W = [lit ''t'' \<mapsto> [lit ''a'']]" and "partition_id r = 0" and "view_read r (message_view r) = Inr (lit ''a'')"
  shows "fiber_step pair_socket demo_platform (Checking k (lit ''t'') r) W = Inr (Committing k (lit ''t'') r, W, [Compared (lit ''t'') (lit ''a'') True])"
proof -
  have "world_abs W (lit ''t'') \<noteq> None" by (simp add: assms(2) del: world_abs_None)
  then obtain T where T: "registry_find (lit ''t'') W = Some T" by auto
  note w = world_wfD [OF assms(1) T]
  have "topic_abs (wo_env W, T) ! 0 = [lit ''a'']" using w(5) assms(2) by simp
  then have "remove_check (pf_fiber demo_platform) r (wo_env W, T) = Inr ((wo_env W, T), True)"
    using remove_check_ok [OF w(1) _ assms(4), of "pf_fiber demo_platform"] w(3) assms(3) by simp
  then show ?thesis using assms(4) by (simp add: on_topic_def T set_topic_same [OF T])
qed

text \<open>
  The first client's push is done. The second one's push and the two pulls have come to the topic, and
  the two deletes have found the message in front.
\<close>

lemma demo_six:
  obtains k0 k1 k2 k3 k4 k5 ra rb W where
    "demo_reachable (demo_server [Answering k0 (ok_response demo_platform (opcode_value PUSH)), Pushing k1 (lit ''t'') rb,
         Pulling k2 (lit ''t'') 0, Pulling k3 (lit ''t'') 0, Committing k4 (lit ''t'') ra, Committing k5 (lit ''t'') ra] W,
       [(0, Created (lit ''t'')), (0, Pushed (lit ''t'') (lit ''a'')), (4, Compared (lit ''t'') (lit ''a'') True),
        (5, Compared (lit ''t'') (lit ''a'') True)])"
    and "world_wf W" and "world_abs W = [lit ''t'' \<mapsto> [lit ''a'']]" and "has_memory 4 3 W"
    and "partition_id ra = 0" and "partition_id rb = 0"
    and "view_read ra (message_view ra) = Inr (lit ''a'')" and "view_read rb (message_view rb) = Inr (lit ''b'')"
    and "map snd [k0, k1, k2, k3, k4, k5] = replicate 6 []"
proof -
  let ?t = "lit ''t''" and ?a = "lit ''a''" and ?b = "lit ''b''"
  let ?k = "\<lambda>q. (frame_of 0 q, []) :: byte list \<times> byte list"
  let ?r = "\<lambda>q. Reading (?k q)"
  obtain r W1 W where first: "\<forall>k :: byte list \<times> byte list. dispatch demo_platform (header_of (demo_push 0 ?a)) (br_topic (demo_push 0 ?a) @ br_message (demo_push 0 ?a))
       k world_new = Inr (Pushing k ?t r, W1, [Created ?t])"
    "\<forall>k. fiber_step pair_socket demo_platform (Pushing k ?t r) W1 =
       Inr (Answering k (ok_response demo_platform (opcode_value PUSH)), W, [Pushed ?t ?a])"
    and W: "world_wf W" "world_abs W = [?t \<mapsto> [?a]]" "has_memory 4 3 W"
    by (rule demo_first_push) blast
  have "world_abs W ?t \<noteq> None" by (simp add: W(2) del: world_abs_None)
  then obtain T where T: "registry_find ?t W = Some T" by auto
  obtain ra where ra: "create_request (request_buffer demo_platform) ?t 0 ?a = Inr ra" "partition_id ra = 0" "view_read ra (message_view ra) = Inr ?a"
    by (rule create_request_views [of ?t ?a]) (simp add: fits_buffer_def)
  obtain rb where rb: "create_request (request_buffer demo_platform) ?t 0 ?b = Inr rb" "partition_id rb = 0" "view_read rb (message_view rb) = Inr ?b"
    by (rule create_request_views [of ?t ?b]) (simp add: fits_buffer_def)
  have short: "length ?a \<le> 1000" "length ?b \<le> 1000" by simp_all
  note da = demo_dispatch [OF T short(1) ra(1)] and db = demo_dispatch [OF T short(2) rb(1)]
  have s0: "demo_reachable (demo_server [] world_new, [])"
    unfolding demo_reachable_def
    by (rule reachable.start) (auto simp: interleaved_init_def pair_socket_ok no_output_def small_malloc_sound
        demo_platform_def server_start_def server_ctor_def world_new_def)
  have s1: "demo_reachable (demo_server (map ?r lost_requests) world_new, [])"
    using demo_accepts [OF s0, of "map ?k lost_requests"] by (simp add: no_output_def list_all_iff comp_def)
  have fits: "frame_fits (demo_push 0 ?a)" "frame_fits (demo_push 0 ?b)" "frame_fits (demo_pull 0)" "frame_fits (demo_delete 0 ?a)"
    using demo_fits [of ?a] demo_fits [of ?b] by simp_all
  let ?s = "\<lambda>a0 a1 a2 a3 a4 a5. demo_server [a0, a1, a2, a3, a4, a5]"
  let ?P = "?r (demo_push 0 ?b)" and ?L = "?r (demo_pull 0)" and ?D = "?r (demo_delete 0 ?a)"
  let ?ok = "ok_response demo_platform (opcode_value PUSH)"
  let ?h0 = "[(0, Created ?t)]" and ?h1 = "[(0, Created ?t), (0, Pushed ?t ?a)]"
  have s2: "demo_reachable (?s (?r (demo_push 0 ?a)) ?P ?L ?L ?D ?D world_new, [])"
    using s1 by (simp add: lost_requests_def)
  obtain k0 where k0: "snd k0 = []" "demo_reachable (?s (Pushing k0 ?t r) ?P ?L ?L ?D ?D W1, ?h0)"
    using demo_arrives [OF s2 _ _ _ fits(1) first(1), of 0] by auto
  have s3: "demo_reachable (?s (Answering k0 ?ok) ?P ?L ?L ?D ?D W, ?h1)"
    using demo_turn [OF k0(2), of 0 "Answering k0 ?ok" W] first(2) by (simp del: fiber_step.simps)
  obtain k1 where k1: "snd k1 = []" "demo_reachable (?s (Answering k0 ?ok) (Pushing k1 ?t rb) ?L ?L ?D ?D W, ?h1)"
    using demo_arrives [OF s3 _ _ _ fits(2) db(1), of 1] by auto
  obtain k2 where k2: "snd k2 = []" "demo_reachable (?s (Answering k0 ?ok) (Pushing k1 ?t rb) (Pulling k2 ?t 0) ?L ?D ?D W, ?h1)"
    using demo_arrives [OF k1(2) _ _ _ fits(3) da(2), of 2] by (auto simp: numeral_eq_Suc)
  obtain k3 where k3: "snd k3 = []" "demo_reachable (?s (Answering k0 ?ok) (Pushing k1 ?t rb) (Pulling k2 ?t 0) (Pulling k3 ?t 0) ?D ?D W, ?h1)"
    using demo_arrives [OF k2(2) _ _ _ fits(3) da(2), of 3] by (auto simp: numeral_eq_Suc)
  let ?c = "\<lambda>n. (n, Compared ?t ?a True)"
  let ?u = "\<lambda>d e. ?s (Answering k0 ?ok) (Pushing k1 ?t rb) (Pulling k2 ?t 0) (Pulling k3 ?t 0) d e W"
  note check = demo_check_turn [OF W(1,2) ra(2,3)]
  obtain k4 where k4: "snd k4 = []" "demo_reachable (?u (Checking k4 ?t ra) ?D, ?h1)"
    using demo_arrives [OF k3(2) _ _ _ fits(4) da(3), of 4] by (auto simp: numeral_eq_Suc)
  have s4: "demo_reachable (?u (Committing k4 ?t ra) ?D, ?h1 @ [?c 4])"
    using demo_turn [OF k4(2), of 4 "Committing k4 ?t ra" W] check by (simp add: numeral_eq_Suc del: fiber_step.simps)
  obtain k5 where k5: "snd k5 = []" "demo_reachable (?u (Committing k4 ?t ra) (Checking k5 ?t ra), ?h1 @ [?c 4])"
    using demo_arrives [OF s4 _ _ _ fits(4) da(3), of 5] by (auto simp: numeral_eq_Suc)
  have s5: "demo_reachable (?u (Committing k4 ?t ra) (Committing k5 ?t ra), (?h1 @ [?c 4]) @ [?c 5])"
    using demo_turn [OF k5(2), of 5 "Committing k5 ?t ra" W] check by (simp add: numeral_eq_Suc del: fiber_step.simps)
  have quiet: "map snd [k0, k1, k2, k3, k4, k5] = replicate 6 []"
    using k0(1) k1(1) k2(1) k3(1) k4(1) k5(1) by (simp add: numeral_eq_Suc)
  show thesis
    by (rule that [OF _ W(1-3) ra(2) rb(2) ra(3) rb(3) quiet]) (use s5 in simp)
qed

subsection \<open>The schedule\<close>

text \<open>
  As in \<open>LockedPartition\<close>: session 1 pushes \<open>b\<close> while 2 and 3 come to read. It releases and wakes 2;
  before its loop goes on, 2 reads and releases, and 4 is given the write lock. The loop wakes 3
  beside 4; 5 waits; 3 reads, and its release admits 5. Both find \<open>a\<close> in front, and both pop.
\<close>

definition lost_moves :: "move list" where
  "lost_moves = [Run 1, Run 1, Run 1, Run 2, Run 3, Run 1, Run 2, Run 2, Run 4, Wake, Run 5, Run 3, Run 3,
     Run 4, Run 5, Run 4, Run 5, Run 4, Run 5, Wake]"

definition six_at :: "request_t \<Rightarrow> request_t \<Rightarrow> fiber \<Rightarrow> location" where
  "six_at ra rb = (\<lambda>_. Idle)(4 := Asking_commit ra, 5 := Asking_commit ra, 1 := Asking_push rb, 2 := Asking_read, 3 := Asking_read)"

definition six_partition :: "wall_writer_t \<Rightarrow> file_system \<Rightarrow> heap \<Rightarrow> message_queue_t \<Rightarrow> request_t \<Rightarrow> request_t \<Rightarrow> locked_t" where
  "six_partition w fs h q ra rb = \<lparr>lt_lock = sm_start, lt_wall = um_unlocked, lt_logging = [], lt_writer = w, lt_files = fs,
     lt_heap = h, lt_queue = q, lt_at = six_at ra rb, lt_history = []\<rparr>"

lemma lost_run:
  assumes "mq_push malloc h1 q1 b = Inr (h2, q2, i2)" and "mq_pop h2 q2 = Inr (h3, q3)" and "mq_pop h3 q3 = Inr (h4, q4)"
    and "iter_deref h2 (mq_front q2) = Inr a" and "\<not> mq_empty q2"
    and "view_read ra (message_view ra) = Inr a" and "view_read rb (message_view rb) = Inr b"
  obtains v where "run_moves False malloc n lost_moves (six_partition w fs h1 q1 ra rb) = Some v"
    and "lt_heap v = h4" and "lt_queue v = q4" and "\<forall>f. lt_at v f = Idle"
    and "lt_history v = [(1, Pushed n b), (2, Fetched n (Some a)), (3, Fetched n (Some a)), (4, Removed n a True), (5, Removed n a True)]"
proof -
  have "\<exists>v. run_moves False malloc n lost_moves (six_partition w fs h1 q1 ra rb) = Some v \<and> lt_heap v = h4 \<and> lt_queue v = q4
     \<and> (\<forall>f. lt_at v f = Idle) \<and> lt_history v = [(1, Pushed n b), (2, Fetched n (Some a)), (3, Fetched n (Some a)),
          (4, Removed n a True), (5, Removed n a True)]"
    using assms by (simp add: lost_moves_def six_partition_def six_at_def locked_op_defs)
  then show thesis by (elim exE conjE) (rule that)
qed

lemma enters:
  assumes "i < length (sv_sessions (ls_server s))" and "sv_sessions (ls_server s) ! i = Some a" and "ls_inside s i = None"
    and "section_topic a = Some n" and "registry_find n (sv_world (ls_server s)) = Some T" and "enter_section pf a T = Inr l"
  shows "locked_server_step calm api pf fresh s (set_at n i l s)"
proof -
  have "locked_turn api pf i s = Some (Inr (set_at n i l s))"
    using assms(2-6) by (simp add: locked_turn_def enter_turn_def)
  then show ?thesis using assms(1,3) by (intro ls_turn [of i]) (simp_all add: rushes_def)
qed

text \<open>Sessions 1, 2 and 3 enter the operations they have come to.\<close>

lemma six_enter:
  assumes T: "registry_find n W = Some T" "length (tp_storage T) = 1"
    and pid: "partition_id ra = 0" "partition_id rb = 0"
    and acts_def: "acts = [Answering k0 bs, Pushing k1 n rb, Pulling k2 n 0, Pulling k3 n 0, Committing k4 n ra, Committing k5 n ra]"
  shows "\<exists>s. (locked_server_step False api pf fresh)\<^sup>*\<^sup>* (parked (demo_server acts W) h) s
     \<and> shows_partition pf n acts h s (six_partition (tp_wall_write T) (en_files (wo_env W)) (en_heap (wo_env W))
         (pt_queue (tp_storage T ! 0)) ra rb)"
proof -
  let ?P = "parked (demo_server acts W) h" and ?step = "locked_server_step False api pf fresh"
  let ?s1 = "set_at n 1 (Asking_push rb) ?P" let ?s2 = "set_at n 2 Asking_read ?s1" let ?s3 = "set_at n 3 Asking_read ?s2"
  have routed: "routed pf rb" using pid(2) by (simp add: routed_def push_index_def INVALID_TOPIC_ID_def)
  have st: "storage_at T 0 = Inr (tp_storage T ! 0)" using T(2) by (simp add: storage_at_def)
  have six: "f < length acts \<longleftrightarrow> f = 0 \<or> f = 1 \<or> f = 2 \<or> f = 3 \<or> f = 4 \<or> f = 5" for f by (auto simp: acts_def)
  have inside: "parked_inside (demo_server acts W) f = (if f = 4 \<or> f = 5 then Some n else None)" for f
    unfolding parked_inside_def by (cases "f < length acts") (auto simp: six, auto simp: acts_def numeral_eq_Suc)
  have at: "parked_at (demo_server acts W) n = (\<lambda>_. Idle)(4 := Asking_commit ra, 5 := Asking_commit ra)"
  proof
    fix f
    show "parked_at (demo_server acts W) n f = ((\<lambda>_. Idle)(4 := Asking_commit ra, 5 := Asking_commit ra)) f"
      unfolding parked_at_def by (cases "f < length acts") (auto simp: six, auto simp: acts_def numeral_eq_Suc)
  qed
  have s1: "?step ?P ?s1"
    by (rule enters [where a = "Pushing k1 n rb" and T = T])
      (use T inside st pid in \<open>simp_all add: acts_def parked_def push_index_def INVALID_TOPIC_ID_def\<close>)
  have s2: "?step ?s1 ?s2"
    by (rule enters [where a = "Pulling k2 n 0" and T = T])
      (use T inside st in \<open>simp_all add: acts_def set_at_def parked_def kassert_defs INVALID_TOPIC_ID_def\<close>)
  have s3: "?step ?s2 ?s3"
    by (rule enters [where a = "Pulling k3 n 0" and T = T])
      (use T inside st in \<open>simp_all add: acts_def set_at_def parked_def kassert_defs INVALID_TOPIC_ID_def\<close>)
  let ?v = "six_partition (tp_wall_write T) (en_files (wo_env W)) (en_heap (wo_env W)) (pt_queue (tp_storage T ! 0)) ra rb"
  have view: "section_view (sv_world (ls_server ?s3)) T (ls_sections ?s3 n) = ?v\<lparr>lt_history := []\<rparr>"
    by (simp add: set_at_def parked_def at section_view_def six_partition_def six_at_def section_new_def)
  have none: "activity_after pf acts (lt_history ?v) i = acts ! i" for i
    by (simp add: activity_after_def six_partition_def events_of_def)
  have "shows_partition pf n acts h ?s3 ?v"
    unfolding shows_partition_def none
  proof (intro conjI)
    show "\<exists>U. registry_find n (sv_world (ls_server ?s3)) = Some U \<and> length (tp_storage U) = 1
        \<and> section_view (sv_world (ls_server ?s3)) U (ls_sections ?s3 n) = ?v\<lparr>lt_history := []\<rparr>"
      using T view by (intro exI [of _ T]) (simp add: set_at_def parked_def)
    show "sv_sessions (ls_server ?s3) = map (\<lambda>i. Some (acts ! i)) [0..<length acts]"
      by (rule nth_equalityI) (simp_all add: set_at_def parked_def)
    show "ls_history ?s3 = h @ lt_history ?v" by (simp add: set_at_def parked_def six_partition_def)
    show "\<forall>i. ls_inside ?s3 i = (if lt_at ?v i = Idle then None else Some n)"
      by (simp add: set_at_def parked_def inside six_partition_def six_at_def)
    show "\<forall>i. lt_at ?v i \<noteq> Idle \<longrightarrow> i < length acts \<and> fits pf n (acts ! i) (lt_at ?v i)"
      using routed pid by (auto simp: six_partition_def six_at_def acts_def)
  qed
  moreover have "?step\<^sup>*\<^sup>* ?P ?s3" using s1 s2 s3 by auto
  ultimately show ?thesis by blast
qed

subsection \<open>No order of the requests explains it\<close>

lemma broker_step_keeps:
  assumes "broker_step can_open B q = Some (B', rep)" and "m \<in> set (messages_of B n)"
    and "\<not> (opcode_of (br_opcode q) = Some DELETE \<and> br_message q = m)"
  shows "m \<in> set (messages_of B' n)"
  using assms
  by (auto simp: broker_step_def broker_push_def broker_pull_def broker_delete_def messages_of_def
      split: option.splits opcode_t.splits if_splits list.splits)

lemma broker_push_stores:
  "broker_step can_open B (demo_push 0 m) = Some (B', rep) \<Longrightarrow> m \<in> set (messages_of B' (lit ''t''))"
  by (auto simp: broker_step_def broker_push_def messages_of_def split: if_splits)

lemma broker_run_keeps:
  "broker_run can_open B qs = Some (B', reps) \<Longrightarrow> m \<in> set (messages_of B (lit ''t'')) \<or> demo_push 0 m \<in> set qs \<Longrightarrow>
     \<forall>q\<in>set qs. \<not> (opcode_of (br_opcode q) = Some DELETE \<and> br_message q = m) \<Longrightarrow> m \<in> set (messages_of B' (lit ''t''))"
proof (induction qs arbitrary: B reps)
  case (Cons q qs)
  then obtain B1 rep reps1 where step: "broker_step can_open B q = Some (B1, rep)" and rest: "broker_run can_open B1 qs = Some (B', reps1)"
    by (auto split: option.splits)
  have "m \<in> set (messages_of B1 (lit ''t''))" if "m \<in> set (messages_of B (lit ''t''))"
    by (rule broker_step_keeps [OF step that]) (use Cons.prems(3) in simp)
  moreover have "m \<in> set (messages_of B1 (lit ''t''))" if "q = demo_push 0 m"
    using broker_push_stores step unfolding that by blast
  ultimately have "m \<in> set (messages_of B1 (lit ''t'')) \<or> demo_push 0 m \<in> set qs" using Cons.prems(2) by auto
  from Cons.IH [OF rest this] Cons.prems(3) show ?case by simp
qed simp

lemma lost_requests_keep:
  assumes "set qs = set lost_requests" and "broker_run can_open Map.empty qs = Some (B, reps)"
  shows "lit ''b'' \<in> set (messages_of B (lit ''t''))"
proof (rule broker_run_keeps [OF assms(2)])
  show "lit ''b'' \<in> set (messages_of Map.empty (lit ''t'')) \<or> demo_push 0 (lit ''b'') \<in> set qs"
    by (simp add: assms(1) lost_requests_def)
  show "\<forall>q\<in>set qs. \<not> (opcode_of (br_opcode q) = Some DELETE \<and> br_message q = lit ''b'')"
    by (auto simp: assms(1) lost_requests_def lit_def)
qed

subsection \<open>The run\<close>

lemma lost_server:
  obtains k0 k1 k2 k3 k4 k5 ra rb s v where
    "reachable (locked_server_init pair_socket fst snd demo_platform no_output)
       (locked_server_step False pair_socket demo_platform no_output) s"
    and "shows_partition demo_platform (lit ''t'') [Answering k0 (ok_response demo_platform (opcode_value PUSH)), Pushing k1 (lit ''t'') rb,
         Pulling k2 (lit ''t'') 0, Pulling k3 (lit ''t'') 0, Committing k4 (lit ''t'') ra, Committing k5 (lit ''t'') ra]
       [(0, Created (lit ''t'')), (0, Pushed (lit ''t'') (lit ''a'')), (4, Compared (lit ''t'') (lit ''a'') True),
        (5, Compared (lit ''t'') (lit ''a'') True)] s v"
    and "mq_abs (lt_heap v) (lt_queue v) = []" and "\<forall>f. lt_at v f = Idle"
    and "lt_history v = [(1, Pushed (lit ''t'') (lit ''b'')), (2, Fetched (lit ''t'') (Some (lit ''a''))),
        (3, Fetched (lit ''t'') (Some (lit ''a''))), (4, Removed (lit ''t'') (lit ''a'') True), (5, Removed (lit ''t'') (lit ''a'') True)]"
    and "map snd [k0, k1, k2, k3, k4, k5] = replicate 6 []"
proof -
  let ?t = "lit ''t''" and ?a = "lit ''a''" and ?b = "lit ''b''" and ?ok = "ok_response demo_platform (opcode_value PUSH)"
  let ?init = "locked_server_init pair_socket fst snd demo_platform no_output"
  let ?step = "locked_server_step False pair_socket demo_platform no_output"
  obtain k0 k1 k2 k3 k4 k5 ra rb W where
    run: "demo_reachable (demo_server [Answering k0 ?ok, Pushing k1 ?t rb, Pulling k2 ?t 0, Pulling k3 ?t 0, Committing k4 ?t ra, Committing k5 ?t ra] W,
       [(0, Created ?t), (0, Pushed ?t ?a), (4, Compared ?t ?a True), (5, Compared ?t ?a True)])"
    and W: "world_wf W" "world_abs W = [?t \<mapsto> [?a]]" "has_memory 4 3 W"
    and r: "partition_id ra = 0" "partition_id rb = 0" "view_read ra (message_view ra) = Inr ?a" "view_read rb (message_view rb) = Inr ?b"
    and quiet: "map snd [k0, k1, k2, k3, k4, k5] = replicate 6 []"
    by (rule demo_six)
  let ?acts = "[Answering k0 ?ok, Pushing k1 ?t rb, Pulling k2 ?t 0, Pulling k3 ?t 0, Committing k4 ?t ra, Committing k5 ?t ra]"
  let ?h = "[(0, Created ?t), (0, Pushed ?t ?a), (4, Compared ?t ?a True), (5, Compared ?t ?a True)]"
  have "world_abs W ?t \<noteq> None" by (simp add: W(2) del: world_abs_None)
  then obtain T where T: "registry_find ?t W = Some T" by auto
  have T1: "length (tp_storage T) = 1" by (rule world_wfD(3) [OF W(1) T])
  obtain q where q: "tp_storage T = [\<lparr>pt_queue = q, pt_mutex = sm_unlocked\<rparr>]" "mq_wf (en_heap (wo_env W)) q"
    "mq_abs (en_heap (wo_env W)) q = [?a]"
    by (rule topic_at_rest [OF W(1) T]) (use W(2) in auto)
  have queue: "pt_queue (tp_storage T ! 0) = q" by (simp add: q(1))
  have "small_malloc (en_heap (wo_env W)) (8 + length ?b) \<noteq> 0"
    using malloc_supplyD [OF small_malloc_supply, of 2 "en_heap (wo_env W)"] W(3) by (simp add: has_memory_def)
  from mq_push_rel_abs [OF q(2) small_malloc_sound this] obtain h2 q2 where
    p2: "mq_push small_malloc (en_heap (wo_env W)) q ?b = Inr (h2, q2, mq_begin q2)" "mq_wf h2 q2" "mq_abs h2 q2 = [?a, ?b]"
    using q(3) by auto
  obtain h3 q3 where p3: "mq_pop h2 q2 = Inr (h3, q3)" "mq_wf h3 q3" "mq_abs h3 q3 = [?b]"
    using mq_pop_wf [OF p2(2)] p2(3) by auto
  obtain h4 q4 where p4: "mq_pop h3 q3 = Inr (h4, q4)" "mq_wf h4 q4" "mq_abs h4 q4 = []"
    using mq_pop_wf [OF p3(2)] p3(3) by auto
  have fr: "iter_deref h2 (mq_front q2) = Inr ?a" "\<not> mq_empty q2"
    using iter_deref_front [OF p2(2)] mq_empty_iff [OF p2(2)] p2(3) by auto
  have pf: "pf_malloc demo_platform = small_malloc" "pf_wall_pad demo_platform = 0" by (simp_all add: demo_platform_def)
  obtain v where v: "run_moves False small_malloc ?t lost_moves (six_partition (tp_wall_write T) (en_files (wo_env W)) (en_heap (wo_env W)) q ra rb) = Some v"
    "lt_heap v = h4" "lt_queue v = q4" "\<forall>f. lt_at v f = Idle"
    and hist: "lt_history v = [(1, Pushed ?t ?b), (2, Fetched ?t (Some ?a)), (3, Fetched ?t (Some ?a)), (4, Removed ?t ?a True), (5, Removed ?t ?a True)]"
    by (rule lost_run [OF p2(1) p3(1) p4(1) fr r(3,4)])
  obtain s1 where s1: "?step\<^sup>*\<^sup>* (parked (demo_server ?acts W) ?h) s1"
    "shows_partition demo_platform ?t ?acts ?h s1 (six_partition (tp_wall_write T) (en_files (wo_env W)) (en_heap (wo_env W)) q ra rb)"
    using six_enter [OF T T1 r(1,2) refl, where pf = demo_platform and api = pair_socket and fresh = no_output
      and bs = ?ok and h = ?h] unfolding queue by blast
  have "list_all (\<lambda>m. \<not> calls m) lost_moves" by (simp add: lost_moves_def)
  from moves_shown [OF pf(2) s1(2) this, unfolded pf(1), OF v(1)]
  obtain s where s: "?step\<^sup>*\<^sup>* s1 s" "shows_partition demo_platform ?t ?acts ?h s v" by blast
  have "reachable ?init (locked_server_step True pair_socket demo_platform no_output) (parked (demo_server ?acts W) ?h)"
    using fine.reachable_simulated [OF run [unfolded demo_reachable_def]] by (auto simp: parked_rel_def)
  then have "reachable ?init ?step (parked (demo_server ?acts W) ?h)" by (rule reachable_mono) (rule calm_step_runs)
  from reachable_steps [OF s(1) reachable_steps [OF s1(1) this]] show thesis
    by (rule that [OF _ s(2) _ v(4) hist quiet]) (simp add: v(2,3) p4(3))
qed

text \<open>
  C8: if a reader may release in the middle of a wake-up loop, the server loses a message. Six
  clients are connected to a fresh server. Two push \<open>a\<close> and \<open>b\<close>, two pull, two delete \<open>a\<close>. In one
  run, all of them are answered as if all had gone well, both pulls with \<open>a\<close>, no session is
  inside a topic any more, and the topic is empty: \<open>b\<close> is gone, and nobody has seen it. No
  sequence of these requests, in any order and repeated at will, leaves the broker without \<open>b\<close>.
\<close>

theorem server_loses_message:
  "\<exists>s. reachable (locked_server_init pair_socket fst snd demo_platform no_output)
       (locked_server_step False pair_socket demo_platform no_output) s
     \<and> map (map_option (spoken snd)) (sv_sessions (ls_server s)) = map (\<lambda>rep. Some (reply_image demo_platform rep))
         [ack (opcode_value PUSH) [], ack (opcode_value PUSH) [], ack (opcode_value PULL) (lit ''a''),
          ack (opcode_value PULL) (lit ''a''), ack (opcode_value DELETE) [], ack (opcode_value DELETE) []]
     \<and> (\<forall>i. ls_inside s i = None)
     \<and> world_abs (sv_world (ls_server s)) (lit ''t'') = Some []
     \<and> \<not> (\<exists>qs B reps. set qs = set lost_requests \<and> broker_run (pf_can_open demo_platform) Map.empty qs = Some (B, reps)
          \<and> lit ''b'' \<notin> set (messages_of B (lit ''t'')))"
proof -
  let ?t = "lit ''t''" and ?a = "lit ''a''"
  obtain k0 k1 k2 k3 k4 k5 ra rb s v where
    s: "reachable (locked_server_init pair_socket fst snd demo_platform no_output)
       (locked_server_step False pair_socket demo_platform no_output) s"
    and shown: "shows_partition demo_platform ?t [Answering k0 (ok_response demo_platform (opcode_value PUSH)), Pushing k1 ?t rb,
         Pulling k2 ?t 0, Pulling k3 ?t 0, Committing k4 ?t ra, Committing k5 ?t ra]
       [(0, Created ?t), (0, Pushed ?t ?a), (4, Compared ?t ?a True), (5, Compared ?t ?a True)] s v"
    and v: "mq_abs (lt_heap v) (lt_queue v) = []" "\<forall>f. lt_at v f = Idle"
    and hist: "lt_history v = [(1, Pushed ?t (lit ''b'')), (2, Fetched ?t (Some ?a)), (3, Fetched ?t (Some ?a)),
        (4, Removed ?t ?a True), (5, Removed ?t ?a True)]"
    and quiet: "map snd [k0, k1, k2, k3, k4, k5] = replicate 6 []"
    by (rule lost_server)
  from shown obtain T where T: "registry_find ?t (sv_world (ls_server s)) = Some T" "length (tp_storage T) = 1"
    and view: "section_view (sv_world (ls_server s)) T (ls_sections s ?t) = v\<lparr>lt_history := []\<rparr>"
    by (auto simp: shows_partition_def)
  have "en_heap (wo_env (sv_world (ls_server s))) = lt_heap v" "pt_queue (tp_storage T ! 0) = lt_queue v"
    using arg_cong [OF view, of lt_heap] arg_cong [OF view, of lt_queue] by simp_all
  then have empty: "world_abs (sv_world (ls_server s)) ?t = Some []"
    using T v(1) by (simp add: world_abs_def topic_abs_def storage_abs_def)
  have outside: "\<forall>i. ls_inside s i = None" using shown v(2) by (simp add: shows_partition_def)
  have upt: "[0..<6] = [0, 1, 2, 3, 4, 5 :: nat]" by (simp add: upt_rec)
  have answers: "map (map_option (spoken snd)) (sv_sessions (ls_server s)) = map (\<lambda>rep. Some (reply_image demo_platform rep))
         [ack (opcode_value PUSH) [], ack (opcode_value PUSH) [], ack (opcode_value PULL) ?a,
          ack (opcode_value PULL) ?a, ack (opcode_value DELETE) [], ack (opcode_value DELETE) []]"
    using shown quiet
    by (simp add: shows_partition_def hist upt activity_after_def events_of_def spoken_def numeral_eq_Suc del: opcode_value.simps)
  show ?thesis
    using s answers outside empty lost_requests_keep by blast
qed

end
