(* ===== verification/RacingRegistry.thy ===== *)
theory RacingRegistry
  imports WriteAheadLog LostMessage
begin

section \<open>The registry without its mutex\<close>

text \<open>
  \<open>get_or_create_topic\<close> (\<open>rpc/rpc-session.h\<close>) looks a topic up and then inserts it, under a lock that it
  never takes. Here the two are steps of their own, so that other threads run in between. Each of
  them is still one step, which the missing mutex does not ensure: that two threads in the
  \<open>unordered_map\<close> at the same time race on its memory, which C++ leaves undefined, is not modelled.
  Of what is modelled, the gap changes the log files and nothing else: the sessions, their
  answers and the messages are those of \<open>interleaved_step\<close>, which takes lookup and insertion as one
  step. The log files, though, do suffer.
\<close>

subsection \<open>The steps\<close>

text \<open>A session that has found no topic of the name and is about to insert one.\<close>

record 'k creating_t =
  ct_sock :: 'k
  ct_header :: request_header_t
  ct_topic :: "byte list"
  ct_message :: "byte list"

text \<open>The body of a \<open>PUSH\<close> with a topic name, read by a session that waits for it.\<close>

fun push_read :: "'k socket_api \<Rightarrow> 'k activity \<Rightarrow> 'k creating_t option" where
  "push_read api (Reading_body k hdr) =
     (case so_read api (unat (rh_topic_name_len hdr) + unat (rh_message_len hdr)) k of
        (None, k1) \<Rightarrow> None
      | (Some data, k1) \<Rightarrow>
          let topic = take (unat (rh_topic_name_len hdr)) data;
              message = take (unat (rh_message_len hdr)) (drop (unat (rh_topic_name_len hdr)) data)
          in if length data \<noteq> 0 \<and> opcode_of (rh_opcode hdr) = Some PUSH \<and> topic \<noteq> []
             then Some \<lparr>ct_sock = k1, ct_header = hdr, ct_topic = topic, ct_message = message\<rparr> else None)"
| "push_read api a = None"

text \<open>The lookup that fails.\<close>

definition looks_up :: "'k socket_api \<Rightarrow> 'k activity \<Rightarrow> world_t \<Rightarrow> 'k creating_t option" where
  "looks_up api a W =
     (case push_read api a of
        None \<Rightarrow> None
      | Some c \<Rightarrow> if registry_find (ct_topic c) W = None then Some c else None)"

text \<open>
  The insertion, whatever is in the registry by now, and the rest of \<open>handle_push\<close> up to the lock of
  the partition.
\<close>

definition emplaces :: "platform_t \<Rightarrow> 'k creating_t \<Rightarrow> world_t \<Rightarrow> 'k fiber_result" where
  "emplaces pf c W =
     rbind (registry_emplace (pf_can_open pf) 1 (ct_topic c) W) (\<lambda>W1.
     rbind (create_request (request_buffer pf) (ct_topic c) (rh_partition_id (ct_header c)) (ct_message c)) (\<lambda>r.
       Inr (Pushing (ct_sock c) (ct_topic c) r, W1,
            if registry_find (ct_topic c) W = None then [Created (ct_topic c)] else [])))"

record 'k racing_t =
  rc_run :: "'k run_state"
  rc_creating :: "nat \<Rightarrow> 'k creating_t option"

definition racing_turn :: "'k socket_api \<Rightarrow> platform_t \<Rightarrow> nat \<Rightarrow> 'k racing_t \<Rightarrow> fault + 'k racing_t" where
  "racing_turn api pf i s = (case rc_run s of (S, h) \<Rightarrow>
     (case sv_sessions S ! i of
        None \<Rightarrow> Inr s
      | Some a \<Rightarrow>
          (case rc_creating s i of
             Some c \<Rightarrow>
               rbind (emplaces pf c (sv_world S)) (\<lambda>(a', W', es).
                 Inr \<lparr>rc_run = (S\<lparr>sv_sessions := (sv_sessions S)[i := Some a'], sv_world := W'\<rparr>, h @ map (Pair i) es),
                      rc_creating = (rc_creating s)(i := None)\<rparr>)
           | None \<Rightarrow>
               (case looks_up api a (sv_world S) of
                  Some c \<Rightarrow> Inr (s\<lparr>rc_creating := (rc_creating s)(i := Some c)\<rparr>)
                | None \<Rightarrow> rbind (fiber_turn api pf i (S, h)) (\<lambda>t. Inr (s\<lparr>rc_run := t\<rparr>))))))"

inductive racing_step :: "'k socket_api \<Rightarrow> platform_t \<Rightarrow> ('k \<Rightarrow> bool) \<Rightarrow> 'k racing_t \<Rightarrow> 'k racing_t \<Rightarrow> bool"
  for api pf fresh where
  race_accepted: "rc_run s = (S, h) \<Longrightarrow> sv_accepting S \<Longrightarrow> sv_open S \<Longrightarrow> \<forall>k\<in>set_accept_result r. fresh k \<Longrightarrow>
     racing_step api pf fresh s (s\<lparr>rc_run := (accept_turn (map_accept_result Reading r) S, h)\<rparr>)"
| race_aborted: "rc_run s = (S, h) \<Longrightarrow> sv_accepting S \<Longrightarrow> \<not> sv_open S \<Longrightarrow>
     racing_step api pf fresh s (s\<lparr>rc_run := (accept_turn Accept_aborted S, h)\<rparr>)"
| race_stopped: "rc_run s = (S, h) \<Longrightarrow> racing_step api pf fresh s (s\<lparr>rc_run := (server_stop S, h)\<rparr>)"
| race_turn: "rc_run s = (S, h) \<Longrightarrow> i < length (sv_sessions S) \<Longrightarrow> racing_turn api pf i s = Inr t \<Longrightarrow>
     racing_step api pf fresh s t"

inductive_cases racing_stepE: "racing_step api pf fresh s t"

definition racing_init :: "'k socket_api \<Rightarrow> ('k \<Rightarrow> byte list) \<Rightarrow> ('k \<Rightarrow> byte list) \<Rightarrow> platform_t \<Rightarrow> ('k \<Rightarrow> bool)
    \<Rightarrow> 'k racing_t \<Rightarrow> bool" where
  "racing_init api inp out pf fresh s \<longleftrightarrow> interleaved_init api inp out pf fresh (rc_run s) \<and> rc_creating s = (\<lambda>_. None)"

subsection \<open>Everything but the log files\<close>

definition bare_env :: "env_t \<Rightarrow> env_t" where
  "bare_env env = env\<lparr>en_files := Map.empty\<rparr>"

definition bare_topic :: "topic_t \<Rightarrow> topic_t" where
  "bare_topic T = T\<lparr>tp_wall_write := \<lparr>ww_path = [], ww_pos = 0, ww_mutex = um_unlocked\<rparr>\<rparr>"

definition bare :: "env_t \<times> topic_t \<Rightarrow> env_t \<times> topic_t" where
  "bare s = (bare_env (fst s), bare_topic (snd s))"

definition bare_world :: "world_t \<Rightarrow> world_t" where
  "bare_world W = \<lparr>wo_env = bare_env (wo_env W),
     wo_registry = (wo_registry W)\<lparr>tr_topics := map_option bare_topic \<circ> tr_topics (wo_registry W)\<rparr>\<rparr>"

lemma bare_simps [simp]:
  "en_heap (bare_env env) = en_heap env" "tp_storage (bare_topic T) = tp_storage T"
  "tp_wall_mutex (bare_topic T) = tp_wall_mutex T" "bare_env (env\<lparr>en_files := fs\<rparr>) = bare_env env"
  "bare_env (env\<lparr>en_heap := hp\<rparr>) = (bare_env env)\<lparr>en_heap := hp\<rparr>"
  "bare_topic (T\<lparr>tp_wall_write := w\<rparr>) = bare_topic T"
  "bare_topic (set_storage i p T) = set_storage i p (bare_topic T)"
  "bare_topic (T\<lparr>tp_wall_mutex := m\<rparr>) = (bare_topic T)\<lparr>tp_wall_mutex := m\<rparr>"
  "bare_topic (bare_topic T) = bare_topic T" "bare_env (bare_env env) = bare_env env"
  by (simp_all add: bare_env_def bare_topic_def set_storage_def)

text \<open>An operation that does not look at the files: it does the same on a bare topic.\<close>

definition ignores_files :: "(env_t \<times> topic_t \<Rightarrow> fault + (env_t \<times> topic_t) \<times> 'a) \<Rightarrow> bool" where
  "ignores_files f \<longleftrightarrow> (\<forall>s. map_sum id (apfst bare) (f s) = map_sum id (apfst bare) (f (bare s)))"

lemma same_bind:
  assumes "map_sum id p m = map_sum id p m'" and "\<And>x y. p x = p y \<Longrightarrow> map_sum id g (k x) = map_sum id g (k' y)"
  shows "map_sum id g (rbind m k) = map_sum id g (rbind m' k')"
  using assms by (cases m; cases m') auto

lemma same_bind_eq:
  "(\<And>x. map_sum id g (k x) = map_sum id g (k' x)) \<Longrightarrow> map_sum id g (rbind m k) = map_sum id g (rbind m k')"
  by (cases m) auto

lemma topic_log_bare:
  "map_sum id (bare_topic \<circ> snd) (topic_log h pad d fs T) = map_sum id (bare_topic \<circ> snd) (topic_log h pad d fs' (bare_topic T))"
  by (auto simp: topic_log_def Let_def split: prod.split option.split)

lemma bare_operations [simp]:
  "push_index hash r (bare_topic T) = push_index hash r T" "storage_at (bare_topic T) i = storage_at T i"
  by (simp_all add: push_index_def storage_at_def cong: if_cong)

lemma push_ignores_files: "ignores_files (\<lambda>s. rbind (topic_push malloc hash pad f r s) (\<lambda>t. Inr (t, ())))"
  unfolding ignores_files_def
proof
  fix s :: "env_t \<times> topic_t"
  obtain env T where s: "s = (env, T)" by (cases s)
  show "map_sum id (apfst bare) (rbind (topic_push malloc hash pad f r s) (\<lambda>t. Inr (t, ()))) =
      map_sum id (apfst bare) (rbind (topic_push malloc hash pad f r (bare s)) (\<lambda>t. Inr (t, ())))"
    unfolding s bare_def topic_push_def fst_conv snd_conv prod.case rbind_assoc bare_operations
    by (rule same_bind_eq)+ (rule same_bind [OF topic_log_bare], auto simp: bare_def rbind_assoc intro!: same_bind_eq)
qed

lemma pull_ignores_files: "ignores_files (topic_read f i)"
  by (auto simp: ignores_files_def topic_read_def bare_def intro!: same_bind_eq)

lemma check_ignores_files: "ignores_files (remove_check f r)"
  by (auto simp: ignores_files_def remove_check_def bare_def Let_def intro!: same_bind_eq)

lemma commit_ignores_files: "ignores_files (remove_commit pad f r)"
  unfolding ignores_files_def
proof
  fix s :: "env_t \<times> topic_t"
  obtain env T where s: "s = (env, T)" by (cases s)
  show "map_sum id (apfst bare) (remove_commit pad f r s) = map_sum id (apfst bare) (remove_commit pad f r (bare s))"
    unfolding s bare_def remove_commit_def fst_conv snd_conv prod.case bare_operations Let_def
    by (auto simp: bare_def intro!: same_bind_eq same_bind [OF topic_log_bare])
qed

subsection \<open>Sessions do not look at the files\<close>

lemma bare_world_simps [simp]:
  "registry_find n (bare_world W) = map_option bare_topic (registry_find n W)" "wo_env (bare_world W) = bare_env (wo_env W)"
  "bare_world (set_topic n t W) = set_topic n (bare t) (bare_world W)"
  "bare_world (W\<lparr>wo_env := env\<rparr>) = (bare_world W)\<lparr>wo_env := bare_env env\<rparr>"
  "bare_world (bare_world W) = bare_world W" "(get_topic n (bare_world W) = None) = (get_topic n W = None)"
  by (auto simp: registry_find_def bare_world_def set_topic_def bare_def get_topic_def fun_eq_iff option.map_comp comp_def)

lemma world_abs_bare [simp]: "world_abs (bare_world W) = world_abs W"
  by (auto simp: world_abs_def topic_abs_def option.map_comp comp_def fun_eq_iff)

lemma on_topic_bare:
  assumes "ignores_files f"
  shows "map_sum id (apfst bare_world) (on_topic n f W) = map_sum id (apfst bare_world) (on_topic n f (bare_world W))"
proof (cases "registry_find n W")
  case (Some T)
  have "map_sum id (apfst bare) (f (wo_env W, T)) = map_sum id (apfst bare) (f (bare_env (wo_env W), bare_topic T))"
    using assms by (simp add: ignores_files_def bare_def)
  with Some show ?thesis by (auto simp: on_topic_def intro!: same_bind)
qed (simp add: on_topic_def)

lemma get_or_create_bare:
  "map_sum id bare_world (get_or_create_topic can_open n name W) = map_sum id bare_world (get_or_create_topic can_open n name (bare_world W))"
  by (cases "registry_find name W")
    (auto simp: get_or_create_topic_def registry_emplace_def topic_ctor_def wall_writer_ctor_def rbind_assoc Let_def bare_def
      intro!: same_bind_eq)

abbreviation bare_result :: "'k activity \<times> world_t \<times> event list \<Rightarrow> 'k activity \<times> world_t \<times> event list" where
  "bare_result \<equiv> apsnd (apfst bare_world)"

lemma dispatch_bare:
  "map_sum id bare_result (dispatch pf hdr data k W) = map_sum id bare_result (dispatch pf hdr data k (bare_world W))"
  by (auto simp: dispatch_def Let_def start_push_def start_pull_def start_delete_def reject_def
      intro!: same_bind [OF get_or_create_bare] same_bind_eq split: option.split opcode_t.split)

lemma fiber_step_bare:
  "map_sum id bare_result (fiber_step api pf a W) = map_sum id bare_result (fiber_step api pf a (bare_world W))"
proof (cases a)
  case (Pushing k n r)
  then show ?thesis by (auto intro!: same_bind [OF on_topic_bare [OF push_ignores_files]])
next
  case (Pulling k n i)
  then show ?thesis by (auto intro!: same_bind [OF on_topic_bare [OF pull_ignores_files]])
next
  case (Checking k n r)
  then show ?thesis by (auto intro!: same_bind [OF on_topic_bare [OF check_ignores_files]])
next
  case (Committing k n r)
  then show ?thesis by (auto intro!: same_bind [OF on_topic_bare [OF commit_ignores_files]])
qed (auto simp: read_header_def read_body_def Let_def intro!: dispatch_bare split: option.split prod.split bool.split)

text \<open>So in worlds that differ in the files only, a session takes the same step.\<close>

lemma fiber_step_same:
  assumes "bare_world W = bare_world V" and "fiber_step api pf a W = Inr (a', W', es)"
  obtains V' where "fiber_step api pf a V = Inr (a', V', es)" and "bare_world V' = bare_world W'"
proof -
  have "map_sum id bare_result (fiber_step api pf a V) = Inr (bare_result (a', W', es))"
    using fiber_step_bare [of api pf a V] fiber_step_bare [of api pf a W] assms by simp
  then show thesis by (cases "fiber_step api pf a V") (auto intro: that)
qed

subsection \<open>The two models simulate each other\<close>

definition bare_server :: "'k activity server_t \<Rightarrow> 'k activity server_t" where
  "bare_server S = S\<lparr>sv_world := bare_world (sv_world S)\<rparr>"

lemma bare_server_fields:
  assumes "bare_server S = bare_server S'"
  shows "sv_open S = sv_open S'" "sv_accepting S = sv_accepting S'" "sv_sessions S = sv_sessions S'"
    "bare_world (sv_world S) = bare_world (sv_world S')"
  using arg_cong [OF assms, of sv_open] arg_cong [OF assms, of sv_accepting] arg_cong [OF assms, of sv_sessions]
    arg_cong [OF assms, of sv_world] by (simp_all add: bare_server_def)

lemma bare_server_turns:
  assumes "bare_server S = bare_server S'"
  shows "bare_server (accept_turn r S) = bare_server (accept_turn r S')" and "bare_server (server_stop S) = bare_server (server_stop S')"
    and "bare_world W = bare_world W' \<Longrightarrow> bare_server (S\<lparr>sv_sessions := ss, sv_world := W\<rparr>) = bare_server (S'\<lparr>sv_sessions := ss, sv_world := W'\<rparr>)"
  using assms by (cases S; cases S'; cases r; simp add: bare_server_def server_stop_def)+

definition race_rel :: "'k socket_api \<Rightarrow> 'k racing_t \<Rightarrow> 'k run_state \<Rightarrow> bool" where
  "race_rel api s t \<longleftrightarrow> bare_server (fst (rc_run s)) = bare_server (fst t) \<and> snd (rc_run s) = snd t
     \<and> (\<forall>i c. rc_creating s i = Some c \<longrightarrow> i < length (sv_sessions (fst (rc_run s)))
          \<and> (\<exists>a. sv_sessions (fst (rc_run s)) ! i = Some a \<and> push_read api a = Some c))"

text \<open>The insertion does what the whole request does at that moment, up to the files.\<close>

lemma push_read_Some:
  assumes "push_read api a = Some c"
  obtains k hdr data where "a = Reading_body k hdr"
    and "so_read api (unat (rh_topic_name_len hdr) + unat (rh_message_len hdr)) k = (Some data, ct_sock c)"
    and "data \<noteq> []" and "opcode_of (rh_opcode hdr) = Some PUSH" and "ct_header c = hdr" and "ct_topic c \<noteq> []"
    and "ct_topic c = take (unat (rh_topic_name_len hdr)) data"
    and "ct_message c = take (unat (rh_message_len hdr)) (drop (unat (rh_topic_name_len hdr)) data)"
  using assms by (cases a) (auto simp: Let_def split: option.splits prod.splits if_splits)

lemma push_read_step:
  assumes "push_read api a = Some c"
  shows "fiber_step api pf a W = start_push pf (ct_header c) (ct_topic c) (ct_message c) (ct_sock c) W"
proof -
  obtain k hdr data where "a = Reading_body k hdr"
    "so_read api (unat (rh_topic_name_len hdr) + unat (rh_message_len hdr)) k = (Some data, ct_sock c)"
    "data \<noteq> []" "opcode_of (rh_opcode hdr) = Some PUSH" "ct_header c = hdr" "ct_topic c \<noteq> []"
    "ct_topic c = take (unat (rh_topic_name_len hdr)) data"
    "ct_message c = take (unat (rh_message_len hdr)) (drop (unat (rh_topic_name_len hdr)) data)"
    by (rule push_read_Some [OF assms])
  then show ?thesis by (simp add: read_body_def dispatch_def Let_def)
qed

lemma push_read_topic: "push_read api a = Some c \<Longrightarrow> ct_topic c \<noteq> []"
  by (erule push_read_Some) simp

lemma emplaces_missing:
  assumes "push_read api a = Some c" and "registry_find (ct_topic c) W = None"
  shows "emplaces pf c W = fiber_step api pf a W"
  using push_read_topic [OF assms(1)] assms(2) push_read_step [OF assms(1), of pf W]
  by (simp add: emplaces_def start_push_def get_or_create_topic_def get_topic_def)

lemma emplaces_late:
  assumes "push_read api a = Some c" and "emplaces pf c W = Inr (a', W', es)"
  obtains W'' where "fiber_step api pf a W = Inr (a', W'', es)" and "bare_world W'' = bare_world W'"
proof (cases "registry_find (ct_topic c) W")
  case None
  have "fiber_step api pf a W = Inr (a', W', es)"
    using emplaces_missing [OF assms(1) None, of pf] assms(2) by simp
  then show thesis by (rule that [OF _ refl])
next
  case (Some T)
  with assms(2) obtain r env U where r: "create_request (request_buffer pf) (ct_topic c) (rh_partition_id (ct_header c)) (ct_message c) = Inr r"
    and new: "topic_ctor (pf_can_open pf) 1 (ct_topic c) (wo_env W) = Inr (env, U)"
    and res: "a' = Pushing (ct_sock c) (ct_topic c) r" "W' = W\<lparr>wo_env := env\<rparr>" "es = []"
    by (auto simp: emplaces_def registry_emplace_def result_simps)
  have "bare_env env = bare_env (wo_env W)"
    using topic_ctor_fresh(1) [OF new] by (simp add: bare_env_def)
  then have "bare_world W' = bare_world W" by (simp add: res)
  moreover have "fiber_step api pf a W = Inr (a', W, es)"
    using push_read_topic [OF assms(1)] Some r res
    by (simp add: push_read_step [OF assms(1)] start_push_def get_or_create_topic_def get_topic_def)
  ultimately show thesis using that by simp
qed

lemma race_start: "racing_init api inp out pf fresh s \<Longrightarrow> race_rel api s (rc_run s)"
  by (simp add: racing_init_def race_rel_def)

text \<open>A turn of a session that has the same effect, up to the files, on both sides.\<close>

lemma race_rel_turn:
  assumes rel: "race_rel api s t" and run: "rc_run s = (S, h)" and i: "i < length (sv_sessions S)" "sv_sessions S ! i = Some a"
    and st: "fiber_step api pf a (sv_world S) = Inr (a', W', es)" and W: "bare_world W = bare_world W'"
    and s': "rc_run s' = (S\<lparr>sv_sessions := (sv_sessions S)[i := Some a'], sv_world := W\<rparr>, h @ map (Pair i) es)"
      "rc_creating s' i = None" "\<And>j. j \<noteq> i \<Longrightarrow> rc_creating s' j = rc_creating s j"
  shows "\<exists>t'. interleaved_step api pf fresh t t' \<and> race_rel api s' t'"
proof -
  obtain S' where t: "t = (S', h)" and same: "bare_server S = bare_server S'" using rel run by (cases t) (auto simp: race_rel_def)
  note f = bare_server_fields [OF same]
  obtain V' where V': "fiber_step api pf a (sv_world S') = Inr (a', V', es)" "bare_world V' = bare_world W'"
    by (rule fiber_step_same [OF f(4) st])
  let ?t' = "(S'\<lparr>sv_sessions := (sv_sessions S')[i := Some a'], sv_world := V'\<rparr>, h @ map (Pair i) es)"
  have "interleaved_step api pf fresh t ?t'"
    unfolding t by (rule turn_step [OF _ _ V'(1)]) (use i f(3) in simp_all)
  moreover have "race_rel api s' ?t'"
    unfolding race_rel_def s'(1) fst_conv snd_conv
  proof (intro conjI allI impI)
    show "bare_server (S\<lparr>sv_sessions := (sv_sessions S)[i := Some a'], sv_world := W\<rparr>) =
        bare_server (S'\<lparr>sv_sessions := (sv_sessions S')[i := Some a'], sv_world := V'\<rparr>)"
      unfolding f(3) using W V'(2) by (intro bare_server_turns(3) [OF same]) simp
    fix j c assume c: "rc_creating s' j = Some c"
    with s'(2) have j: "j \<noteq> i" by auto
    have "rc_creating s j = Some c" using c s'(3) [OF j] by simp
    then have "j < length (sv_sessions S) \<and> (\<exists>a. sv_sessions S ! j = Some a \<and> push_read api a = Some c)"
      using rel run by (simp add: race_rel_def)
    then show "j < length (sv_sessions (S\<lparr>sv_sessions := (sv_sessions S)[i := Some a'], sv_world := W\<rparr>))"
        "\<exists>a. sv_sessions (S\<lparr>sv_sessions := (sv_sessions S)[i := Some a'], sv_world := W\<rparr>) ! j = Some a
          \<and> push_read api a = Some c"
      using j by (simp_all add: nth_list_update)
  qed (rule refl)
  ultimately show ?thesis by blast
qed

text \<open>The acceptor and the stop of the server leave every session where it is.\<close>

lemma race_rel_kept:
  assumes rel: "race_rel api s t" and run: "rc_run s = (S, h)" "t = (S', h)"
    and same: "bare_server S1 = bare_server S1'"
    and kept: "\<And>j. j < length (sv_sessions S) \<Longrightarrow> j < length (sv_sessions S1) \<and> sv_sessions S1 ! j = sv_sessions S ! j"
  shows "race_rel api (s\<lparr>rc_run := (S1, h)\<rparr>) (S1', h)"
  unfolding race_rel_def
proof (intro conjI allI impI; simp add: same)
  fix i c assume "rc_creating s i = Some c"
  then have "i < length (sv_sessions S) \<and> (\<exists>a. sv_sessions S ! i = Some a \<and> push_read api a = Some c)"
    using rel run by (simp add: race_rel_def)
  then show "i < length (sv_sessions S1)" "\<exists>a. sv_sessions S1 ! i = Some a \<and> push_read api a = Some c"
    using kept [of i] by auto
qed

lemma accept_keeps_sessions:
  "j < length (sv_sessions S) \<Longrightarrow> j < length (sv_sessions (accept_turn r S)) \<and> sv_sessions (accept_turn r S) ! j = sv_sessions S ! j"
  by (cases r) (simp_all add: nth_append)

lemma race_simulated:
  assumes rel: "race_rel api s t" and step: "racing_step api pf fresh s s'"
  shows "\<exists>t'. (interleaved_step api pf fresh)\<^sup>*\<^sup>* t t' \<and> race_rel api s' t'"
proof -
  obtain S h S' where run: "rc_run s = (S, h)" and t: "t = (S', h)" and same: "bare_server S = bare_server S'"
    using rel by (cases "rc_run s"; cases t) (auto simp: race_rel_def)
  note f = bare_server_fields [OF same]
  from step show ?thesis
  proof (cases rule: racing_step.cases)
    case (race_accepted S1 h1 r)
    then have "interleaved_step api pf fresh t (accept_turn (map_accept_result Reading r) S', h)"
      using run f unfolding t by (intro fiber_accepted) simp_all
    moreover have "race_rel api s' (accept_turn (map_accept_result Reading r) S', h)"
      using race_rel_kept [OF rel run t bare_server_turns(1) [OF same] accept_keeps_sessions] race_accepted(1,2) run by simp
    ultimately show ?thesis by blast
  next
    case (race_aborted S1 h1)
    then have "interleaved_step api pf fresh t (accept_turn Accept_aborted S', h)"
      using run f unfolding t by (intro fiber_aborted) simp_all
    moreover have "race_rel api s' (accept_turn Accept_aborted S', h)"
      using race_rel_kept [OF rel run t bare_server_turns(1) [OF same] accept_keeps_sessions, of Accept_aborted] race_aborted(1,2) run
      by simp
    ultimately show ?thesis by blast
  next
    case (race_stopped S1 h1)
    have "interleaved_step api pf fresh t (server_stop S', h)" unfolding t by (rule fiber_stopped)
    moreover have "race_rel api s' (server_stop S', h)"
      using race_rel_kept [OF rel run t bare_server_turns(2) [OF same]] race_stopped run by (simp add: server_stop_def)
    ultimately show ?thesis by blast
  next
    case (race_turn S1 h1 i)
    then have i: "i < length (sv_sessions S)" and turn: "racing_turn api pf i s = Inr s'" using run by simp_all
    show ?thesis
    proof (cases "sv_sessions S ! i")
      case None
      then have "s' = s" using turn run by (simp add: racing_turn_def)
      with rel show ?thesis by (intro exI [of _ t]) simp
    next
      case (Some a)
      show ?thesis
      proof (cases "rc_creating s i")
        case c: (Some c)
        with rel have "\<exists>a. sv_sessions S ! i = Some a \<and> push_read api a = Some c" by (simp add: race_rel_def run)
        with Some have rd: "push_read api a = Some c" by simp
        from turn run Some c obtain a' W es where e: "emplaces pf c (sv_world S) = Inr (a', W, es)"
          and s': "s' = \<lparr>rc_run = (S\<lparr>sv_sessions := (sv_sessions S)[i := Some a'], sv_world := W\<rparr>, h @ map (Pair i) es),
                      rc_creating = (rc_creating s)(i := None)\<rparr>"
          by (auto simp: racing_turn_def result_simps)
        obtain W' where st: "fiber_step api pf a (sv_world S) = Inr (a', W', es)" and W: "bare_world W' = bare_world W"
          by (rule emplaces_late [OF rd e])
        have "\<exists>t'. interleaved_step api pf fresh t t' \<and> race_rel api s' t'"
          by (rule race_rel_turn [OF rel run i Some st W [symmetric]]) (simp_all add: s')
        then show ?thesis by blast
      next
        case idle: None
        show ?thesis
        proof (cases "looks_up api a (sv_world S)")
          case c: (Some c)
          then have "push_read api a = Some c" by (auto simp: looks_up_def split: option.splits if_splits)
          then have "race_rel api s' t" using rel turn run Some idle c i by (auto simp: racing_turn_def race_rel_def split: if_splits)
          then show ?thesis by blast
        next
          case None
          from turn run Some idle None obtain a' W es where st: "fiber_step api pf a (sv_world S) = Inr (a', W, es)"
            and s': "s' = s\<lparr>rc_run := (S\<lparr>sv_sessions := (sv_sessions S)[i := Some a'], sv_world := W\<rparr>, h @ map (Pair i) es)\<rparr>"
            by (auto simp: racing_turn_def fiber_turn_def result_simps)
          have "\<exists>t'. interleaved_step api pf fresh t t' \<and> race_rel api s' t'"
            by (rule race_rel_turn [OF rel run i Some st refl]) (simp_all add: s' idle)
          then show ?thesis by blast
        qed
      qed
    qed
  qed
qed

interpretation racing: forward_simulation "racing_init api inp out pf fresh" "racing_step api pf fresh"
    "interleaved_init api inp out pf fresh" "interleaved_step api pf fresh" "race_rel api" for api inp out pf fresh
proof
  fix s assume "racing_init api inp out pf fresh s"
  then show "\<exists>t. interleaved_init api inp out pf fresh t \<and> race_rel api s t"
    using race_start by (intro exI [of _ "rc_run s"] conjI) (simp_all add: racing_init_def)
qed (rule race_simulated)

text \<open>The other way round, a request that runs through takes its two steps at once.\<close>

lemma unraced_turn:
  assumes run: "rc_run s = (S, h)" "rc_creating s = (\<lambda>_. None)" and i: "i < length (sv_sessions S)" "sv_sessions S ! i = Some a"
    and st: "fiber_step api pf a (sv_world S) = Inr (a', W', es)"
  shows "(racing_step api pf fresh)\<^sup>*\<^sup>* s (s\<lparr>rc_run := (S\<lparr>sv_sessions := (sv_sessions S)[i := Some a'], sv_world := W'\<rparr>, h @ map (Pair i) es)\<rparr>)"
proof (cases "looks_up api a (sv_world S)")
  case None
  have "racing_step api pf fresh s (s\<lparr>rc_run := (S\<lparr>sv_sessions := (sv_sessions S)[i := Some a'], sv_world := W'\<rparr>, h @ map (Pair i) es)\<rparr>)"
    by (rule race_turn [OF run(1) i(1)]) (simp add: racing_turn_def run i(2) None fiber_turn_def st)
  then show ?thesis by blast
next
  case (Some c)
  then have c: "push_read api a = Some c" "registry_find (ct_topic c) (sv_world S) = None"
    by (auto simp: looks_up_def split: option.splits if_splits)
  let ?s = "s\<lparr>rc_creating := (rc_creating s)(i := Some c)\<rparr>"
  have "racing_step api pf fresh s ?s"
    by (rule race_turn [OF run(1) i(1)]) (simp add: racing_turn_def run i(2) Some)
  moreover have "racing_step api pf fresh ?s (s\<lparr>rc_run := (S\<lparr>sv_sessions := (sv_sessions S)[i := Some a'], sv_world := W'\<rparr>, h @ map (Pair i) es)\<rparr>)"
    by (rule race_turn [of ?s S h i]) (use run i st emplaces_missing [OF c, of pf] in \<open>simp_all add: racing_turn_def fun_eq_iff\<close>)
  ultimately show ?thesis by (meson converse_rtranclp_into_rtranclp r_into_rtranclp)
qed

lemma unraced_simulated:
  assumes rel: "rc_run s = t \<and> rc_creating s = (\<lambda>_. None)" and step: "interleaved_step api pf fresh t t'"
  shows "\<exists>s'. (racing_step api pf fresh)\<^sup>*\<^sup>* s s' \<and> rc_run s' = t' \<and> rc_creating s' = (\<lambda>_. None)"
  using step
proof (cases rule: interleaved_step.cases)
  case (fiber_accepted S r h)
  then show ?thesis using rel racing_step.race_accepted [of s S h r fresh api pf]
    by (intro exI [of _ "s\<lparr>rc_run := t'\<rparr>"]) auto
next
  case (fiber_aborted S h)
  then show ?thesis using rel racing_step.race_aborted [of s S h api pf fresh]
    by (intro exI [of _ "s\<lparr>rc_run := t'\<rparr>"]) auto
next
  case (fiber_stopped S h)
  then show ?thesis using rel racing_step.race_stopped [of s S h api pf fresh]
    by (intro exI [of _ "s\<lparr>rc_run := t'\<rparr>"]) auto
next
  case (fiber_served i S h)
  show ?thesis
  proof (cases "sv_sessions S ! i")
    case None
    then have "t' = t" using fiber_served by (simp add: fiber_turn_def)
    with rel show ?thesis by blast
  next
    case (Some a)
    with fiber_served obtain a' W' es where st: "fiber_step api pf a (sv_world S) = Inr (a', W', es)"
      and t': "t' = (S\<lparr>sv_sessions := (sv_sessions S)[i := Some a'], sv_world := W'\<rparr>, h @ map (Pair i) es)"
      by (auto simp: fiber_turn_def result_simps)
    from rel fiber_served(1) have "rc_run s = (S, h)" "rc_creating s = (\<lambda>_. None)" by simp_all
    from unraced_turn [OF this fiber_served(2) Some st, of fresh] rel show ?thesis
      unfolding t' by (intro exI [of _ "s\<lparr>rc_run := t'\<rparr>"]) (simp add: t')
  qed
qed

interpretation unraced: forward_simulation "interleaved_init api inp out pf fresh" "interleaved_step api pf fresh"
    "racing_init api inp out pf fresh" "racing_step api pf fresh" "\<lambda>t s. rc_run s = t \<and> rc_creating s = (\<lambda>_. None)"
  for api inp out pf fresh
proof
  fix t assume "interleaved_init api inp out pf fresh t"
  then show "\<exists>s. racing_init api inp out pf fresh s \<and> rc_run s = t \<and> rc_creating s = (\<lambda>_. None)"
    by (intro exI [of _ "\<lparr>rc_run = t, rc_creating = (\<lambda>_. None)\<rparr>"]) (simp add: racing_init_def)
qed (rule unraced_simulated)

text \<open>
  C16: the gap between the lookup of a topic and its insertion, taken by itself, shows in the log files
  only. If every access to the hash table took effect as one step, the servers and histories
  that sessions reach with the gap would be, up to the log files, those that they reach when lookup
  and insertion are one step. The code does not ensure the condition: without the mutex, two
  concurrent accesses to the \<open>unordered_map\<close> are a data race, whose outcome is not modelled.
\<close>

theorem registry_race_changes_only_logs:
  "(\<exists>s. reachable (racing_init api inp out pf fresh) (racing_step api pf fresh) s
      \<and> bare_server (fst (rc_run s)) = B \<and> snd (rc_run s) = h) \<longleftrightarrow>
   (\<exists>S. reachable (interleaved_init api inp out pf fresh) (interleaved_step api pf fresh) (S, h) \<and> bare_server S = B)"
proof
  assume "\<exists>s. reachable (racing_init api inp out pf fresh) (racing_step api pf fresh) s
      \<and> bare_server (fst (rc_run s)) = B \<and> snd (rc_run s) = h"
  then obtain s where s: "reachable (racing_init api inp out pf fresh) (racing_step api pf fresh) s"
    "bare_server (fst (rc_run s)) = B" "snd (rc_run s) = h" by blast
  from racing.reachable_simulated [OF s(1)] s(2,3)
  show "\<exists>S. reachable (interleaved_init api inp out pf fresh) (interleaved_step api pf fresh) (S, h) \<and> bare_server S = B"
    by (auto simp: race_rel_def)
next
  assume "\<exists>S. reachable (interleaved_init api inp out pf fresh) (interleaved_step api pf fresh) (S, h) \<and> bare_server S = B"
  then obtain S where S: "reachable (interleaved_init api inp out pf fresh) (interleaved_step api pf fresh) (S, h)" "bare_server S = B"
    by blast
  from unraced.reachable_simulated [OF S(1)] S(2)
  show "\<exists>s. reachable (racing_init api inp out pf fresh) (racing_step api pf fresh) s
      \<and> bare_server (fst (rc_run s)) = B \<and> snd (rc_run s) = h" by force
qed

subsection \<open>Two clients create one topic\<close>

definition race_reachable :: "(byte list \<times> byte list) racing_t \<Rightarrow> bool" where
  "race_reachable = reachable (racing_init pair_socket fst snd demo_platform no_output)
     (racing_step pair_socket demo_platform no_output)"

abbreviation race_at :: "'k activity list \<Rightarrow> (nat \<Rightarrow> 'k creating_t option) \<Rightarrow> world_t \<Rightarrow> (nat \<times> event) list \<Rightarrow> 'k racing_t" where
  "race_at acts cr W h \<equiv> \<lparr>rc_run = (demo_server acts W, h), rc_creating = cr\<rparr>"

lemma race_goes_on:
  assumes "race_reachable (race_at acts cr W h)" and "i < length acts"
    and "racing_turn pair_socket demo_platform i (race_at acts cr W h) = Inr t"
  shows "race_reachable t"
proof -
  have "racing_step pair_socket demo_platform no_output (race_at acts cr W h) t"
    by (rule race_turn [of _ "demo_server acts W" h i]) (use assms(2,3) in simp_all)
  with assms(1) show ?thesis unfolding race_reachable_def by (rule reachable.next_state)
qed

lemma race_looks:
  assumes "race_reachable (race_at acts cr W h)" and "i < length acts" and "cr i = None"
    and "looks_up pair_socket (acts ! i) W = Some c"
  shows "race_reachable (race_at acts (cr(i := Some c)) W h)"
  using assms by (intro race_goes_on [OF assms(1,2)]) (simp add: racing_turn_def)

lemma race_emplaces:
  assumes "race_reachable (race_at acts cr W h)" and "i < length acts" and "cr i = Some c"
    and "emplaces demo_platform c W = Inr (a, W', es)"
  shows "race_reachable (race_at (acts[i := a]) (cr(i := None)) W' (h @ map (Pair i) es))"
  using assms by (intro race_goes_on [OF assms(1,2)]) (simp add: racing_turn_def map_update)

lemma race_moves:
  assumes "race_reachable (race_at acts cr W h)" and "i < length acts" and "cr i = None"
    and "looks_up pair_socket (acts ! i) W = None" and "fiber_step pair_socket demo_platform (acts ! i) W = Inr (a, W', es)"
  shows "race_reachable (race_at (acts[i := a]) cr W' (h @ map (Pair i) es))"
  using assms by (intro race_goes_on [OF assms(1,2)]) (simp add: racing_turn_def fiber_turn_def map_update)

text \<open>A request to push, read up to its lookup.\<close>

lemma push_reads:
  assumes sok: "socket_ok api inp out" and fits: "frame_fits q" and inp: "inp k = frame_of pad q"
    and q: "br_topic q \<noteq> []" "opcode_of (br_opcode q) = Some PUSH"
  obtains k1 k2 where "\<And>W. fiber_step api pf (Reading k) W = Inr (Reading_body k1 (header_of q), W, [])"
    and "push_read api (Reading_body k1 (header_of q)) =
      Some \<lparr>ct_sock = k2, ct_header = header_of q, ct_topic = br_topic q, ct_message = br_message q\<rparr>"
    and "out k2 = out k"
proof -
  note len = frame_fits_lengths [OF fits]
  let ?n = "length (br_topic q) + length (br_message q)"
  have "sizeof_header \<le> length (inp k)" by (simp add: inp frame_of_def sizeof_header_def)
  then obtain k1 where k1: "so_read api sizeof_header k = (Some (take sizeof_header (inp k)), k1)"
    "inp k1 = drop sizeof_header (inp k)" "out k1 = out k"
    by (rule socket_read [OF sok])
  have hdr: "take sizeof_header (inp k) = request_header_image pad (header_of q)"
    and rest: "inp k1 = br_topic q @ br_message q"
    by (simp_all add: k1(2) inp frame_of_def sizeof_header_def)
  have small: "\<not> session_buffer_size - sizeof_header < ?n" using fits by (simp add: frame_fits_def)
  obtain k2 where k2: "so_read api ?n k1 = (Some (take ?n (inp k1)), k2)" "out k2 = out k1"
    by (rule socket_read [OF sok, of ?n k1]) (simp_all add: rest)
  have "fiber_step api pf (Reading k) W = Inr (Reading_body k1 (header_of q), W, [])" for W
    using k1(1) hdr small q(1) by (simp add: read_header_def request_header_of_image len Let_def)
  moreover have "push_read api (Reading_body k1 (header_of q)) =
      Some \<lparr>ct_sock = k2, ct_header = header_of q, ct_topic = br_topic q, ct_message = br_message q\<rparr>"
    using k2(1) q by (simp add: len rest Let_def)
  ultimately show thesis using that k1(3) k2(2) by simp
qed

lemma push_read_only [simp]:
  "looks_up api (Reading k) W = None" "looks_up api (Pushing k n r) W = None" "looks_up api (Answering k bs) W = None"
  by (simp_all add: looks_up_def)

text \<open>Where a push leaves its record, wherever the writer stands.\<close>

lemma push_writes_at:
  assumes "on_topic n (\<lambda>s. rbind (topic_push malloc hash pad f r s) (\<lambda>t. Inr (t, ()))) V = Inr (V', u)"
    and "registry_find n V = Some T" and "push_index hash r T = Inr i"
    and "tp_wall_mutex T = um_unlocked" and "ww_path (tp_wall_write T) = lit ''/tmp/'' @ n"
  shows "topic_log_of n V' = write_at (ww_pos (tp_wall_write T)) (wall_data_image pad (wall_data_for i True r)) (topic_log_of n V)"
  using assms
  by (auto simp: on_topic_def topic_push_def result_simps topic_log_free topic_log_of_def store_span_def file_of_def set_topic_def)

text \<open>A push in its parts: the topic, the request, and the operation of the topic.\<close>

lemma push_in_parts:
  assumes "world_wf W" and "platform_sound K pf" and "has_memory K (Suc n) W" and "topic \<noteq> []"
    and "registry_find topic W = None \<Longrightarrow> pf_can_open pf (lit ''/tmp/'' @ topic)" and fits: "fits_buffer topic msg"
  obtains r W1 W' where "get_or_create_topic (pf_can_open pf) 1 topic W = Inr W1"
    and "create_request (request_buffer pf) topic 0 msg = Inr r" and "partition_id r = 0" and "view_read r (message_view r) = Inr msg"
    and "on_topic topic (\<lambda>s. rbind (topic_push (pf_malloc pf) (request_hash (pf_hash_char pf)) (pf_wall_pad pf) (pf_fiber pf) r s)
       (\<lambda>t. Inr (t, ()))) W1 = Inr (W', ())"
    and "world_wf W'" and "has_memory K n W'" and "world_abs W' = (world_abs W)(topic \<mapsto> messages_of (world_abs W) topic @ [msg])"
    and "topic_log_of topic W' = (if registry_find topic W = None then [] else topic_log_of topic W)
        @ wall_data_image (pf_wall_pad pf) (wall_data_for 0 True r)"
proof -
  let ?hdr = "header_of (demo_push 0 [])"
  have pid: "rh_partition_id ?hdr = 0" by (simp add: demo_push_def)
  obtain r where r: "create_request (request_buffer pf) topic 0 msg = Inr r" "partition_id r = 0" "view_read r (message_view r) = Inr msg"
    by (rule create_request_views [OF fits])
  obtain W' r' where W': "handle_push pf ?hdr topic msg W = Inr (W', ok_response pf (opcode_value PUSH))"
    "world_wf W'" "has_memory K n W'" "world_abs W' = (world_abs W)(topic \<mapsto> messages_of (world_abs W) topic @ [msg])"
    "topic_log_of topic W' = (if registry_find topic W = None then [] else topic_log_of topic W)
        @ wall_data_image (pf_wall_pad pf) (wall_data_for 0 True r')"
    "create_request (request_buffer pf) topic (rh_partition_id ?hdr) msg = Inr r'"
    by (rule handle_push_accepted [OF assms(1-5) fits disjI1 [OF pid]])
  have same: "r' = r" using W'(6) r(1) pid by simp
  from W'(1) obtain W1 where W1: "get_or_create_topic (pf_can_open pf) 1 topic W = Inr W1"
    "on_topic topic (\<lambda>s. rbind (topic_push (pf_malloc pf) (request_hash (pf_hash_char pf)) (pf_wall_pad pf) (pf_fiber pf) r s)
       (\<lambda>t. Inr (t, ()))) W1 = Inr (W', ())"
    using assms(4) r(1) pid by (auto simp: handle_push_def result_simps simp del: opcode_value.simps)
  from that [OF W1(1) r W1(2) W'(2-4) W'(5) [unfolded same]] show thesis .
qed

text \<open>The insertion of a name that is in the registry by now empties the log file, and that is all.\<close>

lemma emplaces_again:
  assumes "registry_find (ct_topic c) W \<noteq> None" and "pf_can_open pf (lit ''/tmp/'' @ ct_topic c)"
    and "create_request (request_buffer pf) (ct_topic c) (rh_partition_id (ct_header c)) (ct_message c) = Inr r"
  obtains V where "emplaces pf c W = Inr (Pushing (ct_sock c) (ct_topic c) r, V, [])" and "bare_world V = bare_world W"
    and "topic_log_of (ct_topic c) V = []" and "\<And>n. registry_find n V = registry_find n W"
proof -
  obtain env U where U: "topic_ctor (pf_can_open pf) 1 (ct_topic c) (wo_env W) = Inr (env, U)"
    using topic_ctor_total [of "pf_can_open pf" "ct_topic c" 1 "wo_env W"] assms(2) by auto
  note f = topic_ctor_fresh [OF U]
  have "bare_env env = bare_env (wo_env W)" using f(1) by (simp add: bare_env_def)
  then have bare: "bare_world (W\<lparr>wo_env := env\<rparr>) = bare_world W" by (cases W) (simp add: bare_world_def)
  have res: "emplaces pf c W = Inr (Pushing (ct_sock c) (ct_topic c) r, W\<lparr>wo_env := env\<rparr>, [])"
    using assms(1,3) U by (auto simp: emplaces_def registry_emplace_def)
  have "topic_log_of (ct_topic c) (W\<lparr>wo_env := env\<rparr>) = []" using f(2) by (simp add: topic_log_of_def file_of_def)
  from that [OF res bare this] show thesis by (simp add: registry_find_def)
qed

text \<open>
  Both sessions find no topic. The first registers it and pushes; then the second registers it in
  vain and pushes.
\<close>

lemma race_run:
  obtains k0 k1 r V where
    "race_reachable (race_at [Answering k0 (ok_response demo_platform (opcode_value PUSH)),
         Answering k1 (ok_response demo_platform (opcode_value PUSH))] (\<lambda>_. None) V
       [(0, Created (lit ''t'')), (0, Pushed (lit ''t'') (lit ''a'')), (1, Pushed (lit ''t'') (lit ''b''))])"
    and "world_abs V = [lit ''t'' \<mapsto> [lit ''a'', lit ''b'']]"
    and "topic_log_of (lit ''t'') V = replicate 32 0 @ wall_data_image 0 (wall_data_for 0 True r)"
    and "snd k0 = []" and "snd k1 = []"
proof -
  let ?t = "lit ''t''" and ?a = "lit ''a''" and ?b = "lit ''b''"
  let ?qa = "demo_push 0 ?a" and ?qb = "demo_push 0 ?b"
  let ?k = "\<lambda>q. (frame_of 0 q, []) :: byte list \<times> byte list"
  let ?ok = "ok_response demo_platform (opcode_value PUSH)"
  have short: "fits_buffer ?t ?a" "fits_buffer ?t ?b" by (simp_all add: fits_buffer_def)
  have fits: "frame_fits ?qa" "frame_fits ?qb" using demo_fits(1) [of ?a] demo_fits(1) [of ?b] by simp_all
  obtain j0 k0 where a: "\<And>W. fiber_step pair_socket demo_platform (Reading (?k ?qa)) W = Inr (Reading_body j0 (header_of ?qa), W, [])"
    "push_read pair_socket (Reading_body j0 (header_of ?qa)) =
      Some \<lparr>ct_sock = k0, ct_header = header_of ?qa, ct_topic = ?t, ct_message = ?a\<rparr>" "snd k0 = []"
    by (rule push_reads [OF pair_socket_ok fits(1), of "?k ?qa" 0 demo_platform]) simp_all
  obtain j1 k1 where b: "\<And>W. fiber_step pair_socket demo_platform (Reading (?k ?qb)) W = Inr (Reading_body j1 (header_of ?qb), W, [])"
    "push_read pair_socket (Reading_body j1 (header_of ?qb)) =
      Some \<lparr>ct_sock = k1, ct_header = header_of ?qb, ct_topic = ?t, ct_message = ?b\<rparr>" "snd k1 = []"
    by (rule push_reads [OF pair_socket_ok fits(2), of "?k ?qb" 0 demo_platform]) simp_all
  let ?ca = "\<lparr>ct_sock = k0, ct_header = header_of ?qa, ct_topic = ?t, ct_message = ?a\<rparr>"
  let ?cb = "\<lparr>ct_sock = k1, ct_header = header_of ?qb, ct_topic = ?t, ct_message = ?b\<rparr>"
  have new: "registry_find ?t world_new = None" by (simp add: world_new_def registry_find_def registry_new_def)
  have t: "?t \<noteq> []" "pf_can_open demo_platform (lit ''/tmp/'' @ ?t)" by simp_all
  have memory: "has_memory 4 (Suc 1) world_new" by (simp add: has_memory_def memory_left_def world_new_def)
  obtain ra W1 W where A: "get_or_create_topic (pf_can_open demo_platform) 1 ?t world_new = Inr W1"
    "create_request (request_buffer demo_platform) ?t 0 ?a = Inr ra" "partition_id ra = 0" "view_read ra (message_view ra) = Inr ?a"
    "on_topic ?t (\<lambda>s. rbind (topic_push (pf_malloc demo_platform) (request_hash (pf_hash_char demo_platform)) (pf_wall_pad demo_platform) (pf_fiber demo_platform) ra s)
       (\<lambda>t. Inr (t, ()))) W1 = Inr (W, ())"
    "world_wf W" "has_memory 4 1 W" "world_abs W = (world_abs world_new)(?t \<mapsto> messages_of (world_abs world_new) ?t @ [?a])"
    "topic_log_of ?t W = (if registry_find ?t world_new = None then [] else topic_log_of ?t world_new)
        @ wall_data_image (pf_wall_pad demo_platform) (wall_data_for 0 True ra)"
    by (rule push_in_parts [OF world_new_wf demo_platform_sound memory t short(1)])
  have abs: "world_abs W = [?t \<mapsto> [?a]]" using A(8) new by (simp add: messages_of_def world_new_def world_abs_def registry_find_def registry_new_def)
  then have "world_abs W ?t \<noteq> None" by (simp del: world_abs_None)
  then obtain T where T: "registry_find ?t W = Some T" by auto
  note w = world_wfD [OF A(6) T]
  obtain rb W2 W' where B: "get_or_create_topic (pf_can_open demo_platform) 1 ?t W = Inr W2"
    "create_request (request_buffer demo_platform) ?t 0 ?b = Inr rb" "partition_id rb = 0" "view_read rb (message_view rb) = Inr ?b"
    "on_topic ?t (\<lambda>s. rbind (topic_push (pf_malloc demo_platform) (request_hash (pf_hash_char demo_platform)) (pf_wall_pad demo_platform) (pf_fiber demo_platform) rb s)
       (\<lambda>t. Inr (t, ()))) W2 = Inr (W', ())"
    "world_wf W'" "has_memory 4 0 W'" "world_abs W' = (world_abs W)(?t \<mapsto> messages_of (world_abs W) ?t @ [?b])"
    "topic_log_of ?t W' = (if registry_find ?t W = None then [] else topic_log_of ?t W)
        @ wall_data_image (pf_wall_pad demo_platform) (wall_data_for 0 True rb)"
    by (rule push_in_parts [OF A(6) demo_platform_sound A(7) [unfolded One_nat_def] t short(2)])
  have W2: "W2 = W" using B(1) T by (simp add: get_or_create_topic_def)
  have pa: "fiber_step pair_socket demo_platform (Pushing k0 ?t ra) W1 = Inr (Answering k0 ?ok, W, [Pushed ?t ?a])"
    using A(4,5) by simp
  have pb: "fiber_step pair_socket demo_platform (Pushing k1 ?t rb) W = Inr (Answering k1 ?ok, W', [Pushed ?t ?b])"
    using B(4,5) W2 by simp
  obtain U where U: "emplaces demo_platform ?cb W = Inr (Pushing k1 ?t rb, U, [])" "bare_world U = bare_world W"
    "topic_log_of ?t U = []" "\<And>n. registry_find n U = registry_find n W"
    by (rule emplaces_again [of ?cb W demo_platform rb]) (use T B(2) in \<open>simp_all add: demo_push_def\<close>)
  obtain V where V: "fiber_step pair_socket demo_platform (Pushing k1 ?t rb) U = Inr (Answering k1 ?ok, V, [Pushed ?t ?b])"
    "bare_world V = bare_world W'"
    by (rule fiber_step_same [OF U(2) [symmetric] pb])
  have emp: "emplaces demo_platform ?ca world_new = Inr (Pushing k0 ?t ra, W1, [Created ?t])"
    using A(1,2) new by (simp add: emplaces_def get_or_create_topic_def demo_push_def)
  \<comment> \<open>the run\<close>
  have "demo_reachable (demo_server [] world_new, [])"
    unfolding demo_reachable_def
    by (rule reachable.start) (auto simp: interleaved_init_def pair_socket_ok no_output_def small_malloc_sound
        demo_platform_def server_start_def server_ctor_def world_new_def)
  then have "demo_reachable (demo_server [Reading (?k ?qa), Reading (?k ?qb)] world_new, [])"
    using demo_accepts [of "[]" world_new "[]" "[?k ?qa, ?k ?qb]"] by (simp add: no_output_def)
  then obtain s where "race_reachable s" "rc_run s = (demo_server [Reading (?k ?qa), Reading (?k ?qb)] world_new, [])"
    "rc_creating s = (\<lambda>_. None)"
    using unraced.reachable_simulated unfolding demo_reachable_def race_reachable_def by blast
  then have s0: "race_reachable (race_at [Reading (?k ?qa), Reading (?k ?qb)] (\<lambda>_. None) world_new [])" by (cases s) simp
  let ?A = "Reading_body j0 (header_of ?qa)" and ?B = "Reading_body j1 (header_of ?qb)"
  have s1: "race_reachable (race_at [?A, Reading (?k ?qb)] (\<lambda>_. None) world_new [])"
    using race_moves [OF s0, of 0 ?A world_new "[]"] a(1) by (simp del: fiber_step.simps)
  have s2: "race_reachable (race_at [?A, ?B] (\<lambda>_. None) world_new [])"
    using race_moves [OF s1, of 1 ?B world_new "[]"] b(1) by (simp del: fiber_step.simps)
  have la: "looks_up pair_socket ?A world_new = Some ?ca" and lb: "looks_up pair_socket ?B world_new = Some ?cb"
    using new a(2) b(2) by (simp_all add: looks_up_def del: push_read.simps)
  have s3: "race_reachable (race_at [?A, ?B] ((\<lambda>_. None)(0 := Some ?ca)) world_new [])"
    using race_looks [OF s2, of 0 ?ca] la by simp
  have s4: "race_reachable (race_at [?A, ?B] ((\<lambda>_. None)(0 := Some ?ca, 1 := Some ?cb)) world_new [])"
    using race_looks [OF s3, of 1 ?cb] lb by simp
  have s5: "race_reachable (race_at [Pushing k0 ?t ra, ?B] ((\<lambda>_. None)(0 := None, 1 := Some ?cb)) W1 [(0, Created ?t)])"
    using race_emplaces [OF s4, of 0 ?ca] emp by (simp add: fun_upd_twist)
  have s6: "race_reachable (race_at [Answering k0 ?ok, ?B] ((\<lambda>_. None)(0 := None, 1 := Some ?cb)) W
      [(0, Created ?t), (0, Pushed ?t ?a)])"
    using race_moves [OF s5, of 0 "Answering k0 ?ok" W] pa by (simp del: fiber_step.simps)
  have s7: "race_reachable (race_at [Answering k0 ?ok, Pushing k1 ?t rb] (\<lambda>_. None) U [(0, Created ?t), (0, Pushed ?t ?a)])"
    using race_emplaces [OF s6, of 1 ?cb] U(1) by simp
  have run: "race_reachable (race_at [Answering k0 ?ok, Answering k1 ?ok] (\<lambda>_. None) V
      [(0, Created ?t), (0, Pushed ?t ?a), (1, Pushed ?t ?b)])"
    using race_moves [OF s7, of 1 "Answering k1 ?ok" V] V(1) by (simp del: fiber_step.simps)
  have "world_abs V = world_abs W'" using world_abs_bare [of V] world_abs_bare [of W'] V(2) by simp
  then have both: "world_abs V = [?t \<mapsto> [?a, ?b]]" using B(8) abs by (simp add: messages_of_def)
  have "length (topic_log_of ?t W) = 32" using A(9) new by simp
  then have pos: "ww_pos (tp_wall_write T) = 32"
    using w(1,2) by (simp add: topic_wf_def at_end_def topic_log_of_def topic_path_def)
  have "on_topic ?t (\<lambda>s. rbind (topic_push (pf_malloc demo_platform) (request_hash (pf_hash_char demo_platform))
      (pf_wall_pad demo_platform) (pf_fiber demo_platform) rb s) (\<lambda>t. Inr (t, ()))) U = Inr (V, ())"
    using V(1) by (auto simp: result_simps)
  then have "topic_log_of ?t V = write_at 32 (wall_data_image (pf_wall_pad demo_platform) (wall_data_for 0 True rb)) []"
    using push_writes_at [of ?t _ _ _ _ rb U V "()" T 0] U(3,4) T B(3) w(1,2) pos
    by (simp add: push_index_def INVALID_TOPIC_ID_def topic_wf_def topic_path_def)
  then have "topic_log_of ?t V = replicate 32 0 @ wall_data_image 0 (wall_data_for 0 True rb)"
    by (simp add: write_at_def demo_platform_def)
  from that [OF run both this a(3) b(3)] show thesis .
qed

text \<open>
  C30: the missing mutex of the registry corrupts a log. Two clients push \<open>a\<close> and \<open>b\<close> to a
  topic that does not exist yet. In one run of the server both are answered as if all had gone well
  and the topic holds both messages, but the log has lost the first record: zeros are in its place,
  which no recovery can take for a record. Were lookup and insertion one step, no log of a topic
  could ever hold such a record.
\<close>

theorem registry_race_corrupts_log:
  "(\<exists>s. reachable (racing_init pair_socket fst snd demo_platform no_output) (racing_step pair_socket demo_platform no_output) s
     \<and> map (map_option (spoken snd)) (sv_sessions (fst (rc_run s)))
         = replicate 2 (Some (reply_image demo_platform (ack (opcode_value PUSH) [])))
     \<and> world_abs (sv_world (fst (rc_run s))) = [lit ''t'' \<mapsto> [lit ''a'', lit ''b'']]
     \<and> map record_ok (wall_records (topic_log_of (lit ''t'') (sv_world (fst (rc_run s))))) = [False, True]
     \<and> take 32 (topic_log_of (lit ''t'') (sv_world (fst (rc_run s)))) = replicate 32 0)
   \<and> \<not> (\<exists>S h n. reachable (interleaved_init pair_socket fst snd demo_platform no_output)
          (interleaved_step pair_socket demo_platform no_output) (S, h)
        \<and> world_abs (sv_world S) n \<noteq> None
        \<and> False \<in> set (map record_ok (wall_records (topic_log_of n (sv_world S)))))"
proof
  let ?t = "lit ''t''"
  obtain k0 k1 r V where run: "race_reachable (race_at [Answering k0 (ok_response demo_platform (opcode_value PUSH)),
         Answering k1 (ok_response demo_platform (opcode_value PUSH))] (\<lambda>_. None) V
       [(0, Created ?t), (0, Pushed ?t (lit ''a'')), (1, Pushed ?t (lit ''b''))])"
    and abs: "world_abs V = [?t \<mapsto> [lit ''a'', lit ''b'']]"
    and log: "topic_log_of ?t V = replicate 32 0 @ wall_data_image 0 (wall_data_for 0 True r)"
    and quiet: "snd k0 = []" "snd k1 = []"
    by (rule race_run)
  let ?z = "\<lparr>wd_magic = 0, wd_identifier = 0, wd_is_push_operation = False, wd_message = \<lparr>sv_data = 0, sv_size = 0\<rparr>\<rparr>"
  have "replicate 32 0 = wall_data_image 0 ?z" by code_simp
  with log have "topic_log_of ?t V = wall_log [(0, ?z), (0, wall_data_for 0 True r)]" by (simp add: wall_log_def)
  then have "wall_records (topic_log_of ?t V) = [?z, wall_data_for 0 True r]" by (simp add: wall_records_log)
  moreover have "\<not> record_ok ?z" by (simp add: record_ok_def WALL_DATA_MAGIC_def)
  moreover have "record_ok (wall_data_for 0 True r)" by (simp add: record_ok_def wall_data_for_def)
  ultimately have recs: "map record_ok (wall_records (topic_log_of ?t V)) = [False, True]" by simp
  have zeros: "take 32 (topic_log_of ?t V) = replicate 32 0" by (simp add: log)
  show "\<exists>s. reachable (racing_init pair_socket fst snd demo_platform no_output) (racing_step pair_socket demo_platform no_output) s
     \<and> map (map_option (spoken snd)) (sv_sessions (fst (rc_run s)))
         = replicate 2 (Some (reply_image demo_platform (ack (opcode_value PUSH) [])))
     \<and> world_abs (sv_world (fst (rc_run s))) = [?t \<mapsto> [lit ''a'', lit ''b'']]
     \<and> map record_ok (wall_records (topic_log_of ?t (sv_world (fst (rc_run s))))) = [False, True]
     \<and> take 32 (topic_log_of ?t (sv_world (fst (rc_run s)))) = replicate 32 0"
    by (rule exI, rule conjI, rule run [unfolded race_reachable_def])
      (simp add: quiet abs recs zeros spoken_def numeral_2_eq_2 del: opcode_value.simps)
next
  have "False \<notin> set (map record_ok (wall_records (topic_log_of n (sv_world S))))"
    if run: "reachable (interleaved_init pair_socket fst snd demo_platform no_output)
          (interleaved_step pair_socket demo_platform no_output) (S, h)" and n: "world_abs (sv_world S) n \<noteq> None"
    for S :: "(byte list \<times> byte list) activity server_t" and h n
  proof -
    have "log_inv (S, h)" using wal.reachable_inv [OF run] by (simp add: logged_inv_def)
    with n obtain rs where "topic_log_of n (sv_world S) = wall_log rs" "list_all (record_ok \<circ> snd) rs"
      by (auto simp: log_inv_def log_grows_def)
    then show ?thesis by (auto simp: wall_records_log list_all_iff)
  qed
  then show "\<not> (\<exists>S h n. reachable (interleaved_init pair_socket fst snd demo_platform no_output)
          (interleaved_step pair_socket demo_platform no_output) (S, h)
        \<and> world_abs (sv_world S) n \<noteq> None
        \<and> False \<in> set (map record_ok (wall_records (topic_log_of n (sv_world S)))))"
    by blast
qed

end
