(* ===== verification/SessionLines.thy ===== *)
theory SessionLines
  imports InterleavingProps
begin

section \<open>What the sessions print\<close>

text \<open>
  The lines that a session (\<open>rpc/rpc-session.h\<close>) writes on the terminal while all sessions run, each
  with the address of the session, which is the number of the session here. They are a
  function of what the session has done: one line for a request it refuses to read, and one
  when it ends.
\<close>

subsection \<open>The lines of a step\<close>

definition connection_error_line :: line where
  "connection_error_line = eprintln ''[SESSION][{}] Connection error: {}'' [Address, Exception_text]"

definition connection_closed_line :: line where
  "connection_closed_line = println ''[SESSION][{}] Connection closed'' [Address]"

definition invalid_magic_line :: line where
  "invalid_magic_line = eprintln ''[SESSION][{}] Invalid magic number in request header'' [Address]"

definition too_large_line :: line where
  "too_large_line = eprintln ''[SESSION][{}] Request data too large'' [Address]"

text \<open>A read that throws, or that returns without a byte, ends the session.\<close>

definition read_lines :: "'k socket_api \<Rightarrow> nat \<Rightarrow> 'k \<Rightarrow> (byte list \<Rightarrow> line list) \<Rightarrow> line list" where
  "read_lines api n k after =
     (case fst (so_read api n k) of
        None \<Rightarrow> [connection_error_line]
      | Some bs \<Rightarrow> if length bs = 0 then [connection_closed_line] else after bs)"

definition header_lines :: "byte list \<Rightarrow> line list" where
  "header_lines bs =
     (let hdr = request_header_of bs
      in if rh_magic hdr \<noteq> RPC_MAGIC then [invalid_magic_line]
         else if unat (rh_topic_name_len hdr) + unat (rh_message_len hdr) > session_buffer_size - sizeof_header
           then [too_large_line]
         else [])"

fun fiber_lines :: "'k socket_api \<Rightarrow> 'k activity \<Rightarrow> line list" where
  "fiber_lines api (Reading k) = read_lines api sizeof_header k header_lines"
| "fiber_lines api (Reading_body k hdr) =
     read_lines api (unat (rh_topic_name_len hdr) + unat (rh_message_len hdr)) k (\<lambda>data. [])"
| "fiber_lines api (Answering k bytes) = (if fst (so_write api bytes k) then [] else [connection_error_line])"
| "fiber_lines api (Refusing k bytes) =
     (if fst (so_write api bytes k) then [connection_closed_line] else [connection_error_line])"
| "fiber_lines api a = []"

subsection \<open>A server that prints\<close>

type_synonym 'k printing_t = "'k run_state \<times> (nat \<times> line) list"

inductive printing_step :: "'k socket_api \<Rightarrow> platform_t \<Rightarrow> ('k \<Rightarrow> bool) \<Rightarrow> 'k printing_t \<Rightarrow> 'k printing_t \<Rightarrow> bool"
  for api pf fresh where
  printing_accepted: "sv_accepting S \<Longrightarrow> sv_open S \<Longrightarrow> \<forall>k\<in>set_accept_result r. fresh k \<Longrightarrow>
     printing_step api pf fresh ((S, h), ls) ((accept_turn (map_accept_result Reading r) S, h), ls)"
| printing_aborted: "sv_accepting S \<Longrightarrow> \<not> sv_open S \<Longrightarrow>
     printing_step api pf fresh ((S, h), ls) ((accept_turn Accept_aborted S, h), ls)"
| printing_served: "i < length (sv_sessions S) \<Longrightarrow> sv_sessions S ! i = Some a \<Longrightarrow> fiber_turn api pf i (S, h) = Inr t \<Longrightarrow>
     printing_step api pf fresh ((S, h), ls) (t, ls @ map (Pair i) (fiber_lines api a))"
| printing_stopped: "printing_step api pf fresh ((S, h), ls) ((server_stop S, h), ls)"

definition printing_init :: "'k socket_api \<Rightarrow> ('k \<Rightarrow> byte list) \<Rightarrow> ('k \<Rightarrow> byte list) \<Rightarrow> platform_t \<Rightarrow> ('k \<Rightarrow> bool)
    \<Rightarrow> 'k printing_t \<Rightarrow> bool" where
  "printing_init api inp out pf fresh s \<longleftrightarrow> interleaved_init api inp out pf fresh (fst s) \<and> snd s = []"

subsection \<open>Lines, events and states\<close>

definition lines_of :: "nat \<Rightarrow> (nat \<times> line) list \<Rightarrow> line list" where
  "lines_of i ls = map snd (filter (\<lambda>p. fst p = i) ls)"

text \<open>The line for a request that is refused without reading its body.\<close>

fun refusal_lines :: "event \<Rightarrow> line list" where
  "refusal_lines (Rejected r) =
     (if rp_payload r = lit ''Invalid magic number'' then [invalid_magic_line]
      else if rp_payload r = lit ''Data too large'' then [too_large_line] else [])"
| "refusal_lines e = []"

definition refusals :: "event list \<Rightarrow> line list" where
  "refusals es = concat (map refusal_lines es)"

fun ending_lines :: "'k activity \<Rightarrow> line list" where
  "ending_lines (Finished k closed) = [if closed then connection_closed_line else connection_error_line]"
| "ending_lines a = []"

text \<open>The states that follow a refusal, and the body that is read only when there is one.\<close>

fun has_refused :: "'k activity \<Rightarrow> bool" where
  "has_refused (Refusing k bytes) = True"
| "has_refused (Finished k closed) = closed"
| "has_refused a = False"

fun expects_data :: "'k activity \<Rightarrow> bool" where
  "expects_data (Reading_body k hdr) = (0 < unat (rh_topic_name_len hdr) + unat (rh_message_len hdr))"
| "expects_data a = True"

lemma lines_of_simps [simp]:
  "lines_of i [] = []" "lines_of i (ls @ ls') = lines_of i ls @ lines_of i ls'"
  "lines_of i (map (Pair j) l) = (if i = j then l else [])"
proof -
  show "lines_of i (map (Pair j) l) = (if i = j then l else [])" by (induction l) (auto simp: lines_of_def)
qed (simp_all add: lines_of_def)

lemma refusals_simps [simp]:
  "refusals [] = []" "refusals (es @ es') = refusals es @ refusals es'" "refusals (e # es) = refusal_lines e @ refusals es"
  by (simp_all add: refusals_def)

lemma refusal_texts [simp]:
  "refusal_lines (Rejected (reply opc INTERNAL_ERROR ''Invalid magic number'')) = [invalid_magic_line]"
  "refusal_lines (Rejected (reply opc INTERNAL_ERROR ''Data too large'')) = [too_large_line]"
  "refusal_lines (Rejected (reply opc code ''Empty topic name'')) = []"
  "refusal_lines (Rejected (reply opc code ''Topic not found'')) = []"
  "refusal_lines (Rejected (reply opc code ''Partition ID required for PULL'')) = []"
  "refusal_lines (Rejected (reply opc code ''Partition ID required for DELETE'')) = []"
  "refusal_lines (Rejected (reply opc code ''Invalid partition ID'')) = []"
  "refusal_lines (Rejected (reply opc code ''Unknown opcode'')) = []"
  by (simp_all add: reply_def lit_def)

declare refusal_lines.simps(1) [simp del]

text \<open>A request that is read is served without a word.\<close>

definition silent :: "'k fiber_result \<Rightarrow> bool" where
  "silent r \<longleftrightarrow> (case r of Inl f \<Rightarrow> True
     | Inr (a, W, es) \<Rightarrow> refusals es = [] \<and> ending_lines a = [] \<and> \<not> has_refused a \<and> expects_data a)"

lemma silent_simps [simp]:
  "silent (Inl f)" "silent (Inr (a, W, es)) \<longleftrightarrow> refusals es = [] \<and> ending_lines a = [] \<and> \<not> has_refused a \<and> expects_data a"
  by (simp_all add: silent_def)

lemma silent_rbind: "(\<And>x. silent (g x)) \<Longrightarrow> silent (rbind m g)"
  by (cases m) simp_all

lemma silent_start:
  "silent (start_push pf hdr topic message k W)" "silent (start_pull pf hdr topic k W)"
  "silent (start_delete pf hdr topic message k W)"
  by (simp_all add: start_push_def start_pull_def start_delete_def reject_def silent_rbind del: opcode_value.simps)

lemma dispatch_silent: "silent (dispatch pf hdr data k W)"
proof (cases "opcode_of (rh_opcode hdr)")
  case (Some opc)
  then show ?thesis by (cases opc) (simp_all add: dispatch_def silent_start reject_def Let_def)
qed (simp add: dispatch_def reject_def Let_def)

text \<open>
  A step of a session prints the line of the refusal it makes, if it makes one, and the last line
  if it ends the session.
\<close>

definition told :: "line list \<Rightarrow> 'k activity \<Rightarrow> 'k fiber_result \<Rightarrow> bool" where
  "told ls a r \<longleftrightarrow> (case r of Inl f \<Rightarrow> True
     | Inr (a', W', es) \<Rightarrow> ls = refusals es @ ending_lines a' \<and> expects_data a'
         \<and> length (refusals es) + (if has_refused a then 1 else 0) = (if has_refused a' then 1 else 0))"

lemma silent_told: "silent r \<Longrightarrow> \<not> has_refused a \<Longrightarrow> told [] a r"
  by (auto simp: silent_def told_def split: sum.splits)

lemma told_Inr [simp]:
  "told ls a (Inr (a', W', es)) \<longleftrightarrow> ls = refusals es @ ending_lines a' \<and> expects_data a'
     \<and> length (refusals es) + (if has_refused a then 1 else 0) = (if has_refused a' then 1 else (0 :: nat))"
  by (simp add: told_def)

lemma read_header_told:
  assumes "socket_ok api inp out"
  shows "told (fiber_lines api (Reading k)) (Reading k) (read_header api pf k W)"
proof (cases "sizeof_header \<le> length (inp k)")
  case True
  obtain k' where "so_read api sizeof_header k = (Some (take sizeof_header (inp k)), k')"
    by (rule socket_read [OF assms True])
  with True show ?thesis
    by (simp add: read_header_def read_lines_def header_lines_def Let_def sizeof_header_def silent_told dispatch_silent
        del: opcode_value.simps)
next
  case False
  then have "length (inp k) < sizeof_header" by simp
  then obtain k' where "so_read api sizeof_header k = (None, k')" by (rule socket_read_short [OF assms])
  then show ?thesis by (simp add: read_header_def read_lines_def)
qed

lemma read_body_told:
  assumes "socket_ok api inp out" and "expects_data (Reading_body k hdr)"
  shows "told (fiber_lines api (Reading_body k hdr)) (Reading_body k hdr) (read_body api pf hdr k W)"
proof -
  obtain n where n: "unat (rh_topic_name_len hdr) + unat (rh_message_len hdr) = n" by blast
  have pos: "0 < n" using assms(2) n by simp
  show ?thesis
  proof (cases "n \<le> length (inp k)")
    case True
    obtain k' where "so_read api n k = (Some (take n (inp k)), k')" by (rule socket_read [OF assms(1) True])
    then show ?thesis
      using pos min_absorb2 [OF True] by (simp add: read_body_def read_lines_def n silent_told dispatch_silent)
  next
    case False
    then have "length (inp k) < n" by simp
    then obtain k' where "so_read api n k = (None, k')" by (rule socket_read_short [OF assms(1)])
    then show ?thesis by (simp add: read_body_def read_lines_def n)
  qed
qed

lemma fiber_step_told:
  assumes sok: "socket_ok api inp out" and a: "expects_data a" "ending_lines a = []"
  shows "told (fiber_lines api a) a (fiber_step api pf a W)"
proof (cases a)
  case (Reading k)
  then show ?thesis using read_header_told [OF sok] by simp
next
  case (Reading_body k hdr)
  then show ?thesis using read_body_told [OF sok] a(1) by simp
next
  case (Answering k bytes)
  obtain k' where "so_write api bytes k = (True, k')" by (rule socket_write [OF sok])
  with Answering show ?thesis by simp
next
  case (Refusing k bytes)
  obtain k' where "so_write api bytes k = (True, k')" by (rule socket_write [OF sok])
  with Refusing show ?thesis by simp
next
  case (Finished k closed)
  with a(2) show ?thesis by simp
qed (auto intro!: silent_told silent_rbind)

subsection \<open>The invariant\<close>

definition printing_inv :: "'k socket_api \<Rightarrow> ('k \<Rightarrow> byte list) \<Rightarrow> ('k \<Rightarrow> byte list) \<Rightarrow> 'k printing_t \<Rightarrow> bool" where
  "printing_inv api inp out s \<longleftrightarrow> (case s of ((S, h), ls) \<Rightarrow> socket_ok api inp out
     \<and> (\<forall>(i, e)\<in>set h. i < length (sv_sessions S)) \<and> (\<forall>(i, l)\<in>set ls. i < length (sv_sessions S))
     \<and> (\<forall>i a. i < length (sv_sessions S) \<longrightarrow> sv_sessions S ! i = Some a \<longrightarrow>
          lines_of i ls = refusals (events_of i h) @ ending_lines a \<and> expects_data a
          \<and> length (refusals (events_of i h)) = (if has_refused a then 1 else 0)))"

lemma printing_invD:
  assumes "printing_inv api inp out ((S, h), ls)" and "i < length (sv_sessions S)" and "sv_sessions S ! i = Some a"
  shows "lines_of i ls = refusals (events_of i h) @ ending_lines a" and "expects_data a"
    and "length (refusals (events_of i h)) = (if has_refused a then 1 else 0)"
  using assms by (auto simp: printing_inv_def)

lemma lines_of_new: "\<forall>(i, l)\<in>set ls. i < n \<Longrightarrow> lines_of n ls = []"
  by (auto simp: lines_of_def filter_empty_conv)

lemma printing_inv_init: "printing_init api inp out pf fresh s \<Longrightarrow> printing_inv api inp out s"
  by (cases s) (auto simp: printing_init_def interleaved_init_def printing_inv_def server_start_def server_ctor_def)

lemma printing_inv_accept:
  assumes "printing_inv api inp out ((S, h), ls)"
  shows "printing_inv api inp out ((accept_turn (map_accept_result Reading r) S, h), ls)"
proof (cases r)
  case (Connected k)
  have "events_of (length (sv_sessions S)) h = []" "lines_of (length (sv_sessions S)) ls = []"
    using assms by (auto simp: printing_inv_def intro: events_of_new lines_of_new)
  with assms Connected show ?thesis
    by (fastforce simp: printing_inv_def nth_append less_Suc_eq split: if_splits)
qed (use assms in \<open>simp_all add: printing_inv_def\<close>)

lemma printing_inv_turn:
  assumes inv: "printing_inv api inp out ((S, h), ls)" and i: "i < length (sv_sessions S)" "sv_sessions S ! i = Some a"
    and run: "fiber_turn api pf i (S, h) = Inr t"
  shows "printing_inv api inp out (t, ls @ map (Pair i) (fiber_lines api a))"
proof -
  from run i obtain a' W' es where st: "fiber_step api pf a (sv_world S) = Inr (a', W', es)"
    and t: "t = (S\<lparr>sv_sessions := (sv_sessions S)[i := Some a'], sv_world := W'\<rparr>, h @ map (Pair i) es)"
    by (auto simp: fiber_turn_def result_simps)
  have sok: "socket_ok api inp out" using inv by (simp add: printing_inv_def)
  note before = printing_invD [OF inv i]
  have after: "lines_of i ls @ fiber_lines api a = refusals (events_of i h @ es) @ ending_lines a' \<and> expects_data a'
      \<and> length (refusals (events_of i h @ es)) = (if has_refused a' then 1 else 0)"
  proof (cases "ending_lines a = []")
    case True
    have "told (fiber_lines api a) a (Inr (a', W', es))"
      using fiber_step_told [OF sok before(2) True, of pf "sv_world S"] by (simp add: st)
    with before True show ?thesis by (simp split: if_splits)
  next
    case False
    then obtain k closed where "a = Finished k closed" by (cases a) auto
    with st before show ?thesis by auto
  qed
  have "lines_of j (ls @ map (Pair i) (fiber_lines api a)) = refusals (events_of j (h @ map (Pair i) es)) @ ending_lines b
      \<and> expects_data b \<and> length (refusals (events_of j (h @ map (Pair i) es))) = (if has_refused b then 1 else 0)"
    if "j < length (sv_sessions S)" "(sv_sessions S)[i := Some a'] ! j = Some b" for j b
  proof (cases "j = i")
    case True
    with that i after show ?thesis by simp
  next
    case False
    with that printing_invD [OF inv that(1), of b] show ?thesis by simp
  qed
  then show ?thesis using inv i(1) unfolding t printing_inv_def by auto
qed

lemma printing_inv_step: "printing_inv api inp out s \<Longrightarrow> printing_step api pf fresh s t \<Longrightarrow> printing_inv api inp out t"
proof (erule printing_step.cases)
  fix S h ls assume "printing_inv api inp out s" and "s = ((S, h), ls)" and "t = ((server_stop S, h), ls)"
  then show ?thesis by (auto simp: printing_inv_def server_stop_def)
next
  fix S h ls assume "printing_inv api inp out s" and "s = ((S, h), ls)" and "t = ((accept_turn Accept_aborted S, h), ls)"
  then show ?thesis by (auto simp: printing_inv_def)
qed (auto intro: printing_inv_accept printing_inv_turn)

interpretation pr: invariant_system "printing_init api inp out pf fresh" "printing_step api pf fresh" "printing_inv api inp out"
  for api inp out pf fresh
  by unfold_locales (erule printing_inv_init, erule (1) printing_inv_step)

text \<open>The lines add nothing to the runs: every run of the sessions prints.\<close>

lemma printing_projects:
  assumes "fst s = t" and "interleaved_step api pf fresh t t'"
  shows "\<exists>s'. (printing_step api pf fresh)\<^sup>*\<^sup>* s s' \<and> fst s' = t'"
  using assms(2)
proof (cases rule: interleaved_step.cases)
  case (fiber_accepted S r h)
  from printing_accepted [OF fiber_accepted(3-5), of api pf h "snd s"] assms(1) fiber_accepted(1,2) show ?thesis
    by (intro exI [of _ "(t', snd s)"]) (cases s; auto)
next
  case (fiber_aborted S h)
  from printing_aborted [OF fiber_aborted(3,4), of api pf fresh h "snd s"] assms(1) fiber_aborted(1,2) show ?thesis
    by (intro exI [of _ "(t', snd s)"]) (cases s; auto)
next
  case (fiber_stopped S h)
  from printing_stopped [of api pf fresh S h "snd s"] assms(1) fiber_stopped show ?thesis
    by (intro exI [of _ "(t', snd s)"]) (cases s; auto)
next
  case (fiber_served i S h)
  show ?thesis
  proof (cases "sv_sessions S ! i")
    case None
    then have "t' = t" using fiber_served by (simp add: fiber_turn_def)
    with assms(1) show ?thesis by blast
  next
    case (Some a)
    from printing_served [OF fiber_served(2) Some fiber_served(3), of fresh "snd s"] assms(1) fiber_served(1) show ?thesis
      by (intro exI [of _ "(t', snd s @ map (Pair i) (fiber_lines api a))"]) (cases s; auto)
  qed
qed

interpretation printed: forward_simulation "interleaved_init api inp out pf fresh" "interleaved_step api pf fresh"
    "printing_init api inp out pf fresh" "printing_step api pf fresh" "\<lambda>t s. fst s = t" for api inp out pf fresh
proof
  fix t assume "interleaved_init api inp out pf fresh t"
  then show "\<exists>s. printing_init api inp out pf fresh s \<and> fst s = t" by (intro exI [of _ "(t, [])"]) (simp add: printing_init_def)
qed (rule printing_projects)

subsection \<open>Properties\<close>

text \<open>
  C32: the terminal tells what a session has done. At any time, while all sessions run, the lines
  of a session are the line of its refused request, if one was refused before its body was
  read, followed by one last line if the session has ended. There is at most one refusal, and
  "Connection closed" is printed by exactly the sessions that have ended with one: a client that
  disconnects when it is done is reported as a connection error, because the read throws at
  the end of the stream and never returns 0.
\<close>

theorem session_lines_tell_events:
  assumes "reachable (printing_init api inp out pf fresh) (printing_step api pf fresh) ((S, h), ls)"
    and "i < length (sv_sessions S)" and "sv_sessions S ! i = Some a"
  shows "lines_of i ls = refusals (events_of i h) @ ending_lines a
     \<and> length (refusals (events_of i h)) \<le> 1
     \<and> (connection_closed_line \<in> set (lines_of i ls) \<longleftrightarrow> ending_lines a \<noteq> [] \<and> refusals (events_of i h) \<noteq> [])"
proof -
  note told = printing_invD [OF pr.reachable_inv [OF assms(1)] assms(2,3)]
  have "connection_closed_line \<notin> set (refusal_lines e)" for e
    by (cases e) (simp_all add: refusal_lines.simps(1) connection_closed_line_def invalid_magic_line_def too_large_line_def println_def eprintln_def)
  then have none: "connection_closed_line \<notin> set (refusals es)" for es by (simp add: refusals_def)
  have "connection_closed_line \<in> set (ending_lines a) \<longleftrightarrow> ending_lines a \<noteq> [] \<and> has_refused a"
    by (cases a) (simp_all add: connection_closed_line_def connection_error_line_def println_def eprintln_def)
  with told none show ?thesis by auto
qed

text \<open>A client that connects, sends nothing and disconnects.\<close>

theorem session_lines_tell_events_witness:
  "\<exists>S h ls k. reachable (printing_init pair_socket fst snd demo_platform no_output)
       (printing_step pair_socket demo_platform no_output) ((S, h), ls)
     \<and> sv_sessions S = [Some (Finished k False)] \<and> lines_of 0 ls = [connection_error_line]
     \<and> connection_closed_line \<notin> set (lines_of 0 ls)"
proof -
  let ?S = "\<lambda>ss. \<lparr>sv_open = True, sv_accepting = True, sv_sessions = ss, sv_world = world_new\<rparr>"
  let ?k = "([], []) :: byte list \<times> byte list"
  let ?reach = "reachable (printing_init pair_socket fst snd demo_platform no_output)
       (printing_step pair_socket demo_platform no_output)"
  have s0: "?reach ((?S [], []), [])"
    by (rule reachable.start) (auto simp: printing_init_def interleaved_init_def pair_socket_ok no_output_def small_malloc_sound
        demo_platform_def server_start_def server_ctor_def world_new_def)
  have "printing_step pair_socket demo_platform no_output ((?S [], []), [])
      ((accept_turn (map_accept_result Reading (Connected ?k)) (?S []), []), [])"
    by (rule printing_accepted) (simp_all add: no_output_def)
  with s0 have s1: "?reach ((?S [Some (Reading ?k)], []), [])" by (auto intro: reachable.next_state)
  have "fiber_turn pair_socket demo_platform 0 (?S [Some (Reading ?k)], []) = Inr (?S [Some (Finished ?k False)], [])"
    by (simp add: fiber_turn_def read_header_def pair_socket_def sizeof_header_def)
  then have "printing_step pair_socket demo_platform no_output ((?S [Some (Reading ?k)], []), [])
      ((?S [Some (Finished ?k False)], []), [] @ map (Pair 0) (fiber_lines pair_socket (Reading ?k)))"
    by (intro printing_served) simp_all
  with s1 have run: "?reach ((?S [Some (Finished ?k False)], []), [] @ map (Pair 0) (fiber_lines pair_socket (Reading ?k)))"
    by (rule reachable.next_state)
  note all = session_lines_tell_events [OF run, of 0 "Finished ?k False", simplified]
  show ?thesis
    by (rule exI, rule exI, rule exI, rule exI [of _ ?k], rule conjI, rule run) (use all in \<open>auto simp: lines_of_def\<close>)
qed

end
