(* ===== verification/ResponseStream.thy ===== *)
theory ResponseStream
  imports Server
begin

section \<open>What a session writes\<close>

text \<open>
  The bytes a session sends, whatever bytes it receives: a sequence of response frames in which
  the lengths are right, the magic number and the error codes are known ones, and an error
  says why. That the lengths are right rests on the messages in the topics having less than
  65536 bytes, which is an invariant.
\<close>

subsection \<open>Messages fit the length field\<close>

definition small_messages :: "broker \<Rightarrow> bool" where
  "small_messages B \<longleftrightarrow> (\<forall>n m. m \<in> set (messages_of B n) \<longrightarrow> length m < 65536)"

lemma small_messages_empty: "small_messages Map.empty"
  by (simp add: small_messages_def messages_of_def)

lemma small_messages_upd:
  assumes "small_messages B" and "\<And>m. m \<in> set ms \<Longrightarrow> length m < 65536"
  shows "small_messages (B(n \<mapsto> ms))"
proof -
  have "messages_of (B(n \<mapsto> ms)) n' = (if n' = n then ms else messages_of B n')" for n'
    by (simp add: messages_of_def)
  then show ?thesis using assms by (simp add: small_messages_def)
qed

lemma small_messages_step:
  assumes "broker_step can_open B q = Some (B', rep)" and "small_messages B"
  shows "small_messages B'"
proof -
  let ?ms = "messages_of B (br_topic q)"
  have old: "length m < 65536" if "m \<in> set ?ms" for m using assms(2) that by (auto simp: small_messages_def)
  have "B' = B \<or> B' = B(br_topic q \<mapsto> ?ms @ [br_message q]) \<and> length (br_message q) < 65536
      \<or> (\<exists>m ms. ?ms = m # ms \<and> B' = B(br_topic q \<mapsto> ms))"
    using assms(1)
    by (auto simp: broker_step_def broker_push_def broker_pull_def broker_delete_def fits_buffer_def
        split: option.splits opcode_t.splits if_splits list.splits)
  then consider "B' = B" | "B' = B(br_topic q \<mapsto> ?ms @ [br_message q])" "length (br_message q) < 65536"
    | m ms where "?ms = m # ms" "B' = B(br_topic q \<mapsto> ms)" by blast
  then show ?thesis
  proof cases
    case 1
    then show ?thesis using assms(2) by simp
  next
    case 2
    show ?thesis unfolding 2(1) by (rule small_messages_upd [OF assms(2)]) (use old 2(2) in auto)
  next
    case 3
    show ?thesis unfolding 3(2) by (rule small_messages_upd [OF assms(2)]) (use old 3(1) in auto)
  qed
qed

lemma small_messages_list: "small_messages B \<Longrightarrow> list_all (\<lambda>m. length m < 65536) (messages_of B n)"
  by (auto simp: small_messages_def list_all_iff)

lemma broker_reply_length:
  assumes "broker_step can_open B q = Some (B', rep)" and "list_all (\<lambda>m. length m < 65536) (messages_of B (br_topic q))"
  shows "length (rp_payload rep) < 65536"
  using assms
  by (auto simp: broker_step_def broker_push_def broker_pull_def broker_delete_def reply_def ack_def
      split: option.splits opcode_t.splits if_splits list.splits)

subsection \<open>Response frames\<close>

text \<open>What the client can receive: a header with known codes and as many bytes as it announces.\<close>

definition response_frame :: "byte list \<Rightarrow> bool" where
  "response_frame bs \<longleftrightarrow> sizeof_header \<le> length bs
     \<and> (let hdr = response_header_of (take sizeof_header bs)
        in sh_magic hdr = RPC_MAGIC \<and> length bs = sizeof_header + unat (sh_message_len hdr)
         \<and> (case error_code_of (sh_error_code hdr) of
              None \<Rightarrow> False
            | Some code \<Rightarrow> code = OK \<or> sh_message_len hdr \<noteq> 0))"

lemma response_frame_image:
  assumes "length payload < 65536" and "code = OK \<or> payload \<noteq> []"
  shows "response_frame (response_image pad opcode code payload)"
proof -
  have n: "unat (of_nat (length payload) :: u16) = length payload" using assms(1) by (simp add: unat_of_nat)
  have "(of_nat (length payload) :: u16) = 0 \<longleftrightarrow> payload = []" using n by (auto simp: unat_eq_0 [symmetric])
  then show ?thesis
    using assms(2) n
    by (auto simp: response_frame_def response_image_def response_header_of_image sizeof_header_def Let_def
        simp del: error_code_value.simps)
qed

lemma broker_reply_explains:
  assumes "broker_step can_open B q = Some (B', rep)"
  shows "rp_code rep = OK \<or> rp_payload rep \<noteq> []"
  using assms
  by (auto simp: broker_step_def broker_push_def broker_pull_def broker_delete_def reply_def ack_def
      split: option.splits opcode_t.splits if_splits list.splits)

definition sane_world :: "world_t \<Rightarrow> bool" where
  "sane_world W \<longleftrightarrow> world_wf W \<and> small_messages (world_abs W)"

lemma handle_typed:
  assumes "sane_world W" and "malloc_sound (pf_malloc pf)" and "handle pf q W = Inr (W', bytes)"
  shows "sane_world W' \<and> response_frame bytes"
proof -
  obtain rep where rep: "broker_step (pf_can_open pf) (world_abs W) q = Some (world_abs W', rep)"
    "bytes = reply_image pf rep" "world_wf W'"
    by (rule handle_sound [OF _ assms(2,3)]) (use assms(1) in \<open>auto simp: sane_world_def\<close>)
  have sm: "small_messages (world_abs W)" using assms(1) by (simp add: sane_world_def)
  have "length (rp_payload rep) < 65536"
    by (rule broker_reply_length [OF rep(1) small_messages_list [OF sm]])
  with small_messages_step [OF rep(1) sm] broker_reply_explains [OF rep(1)] rep(2,3) show ?thesis
    by (simp add: sane_world_def reply_image_def response_frame_image)
qed

lemma error_response_frame:
  "text \<noteq> [] \<Longrightarrow> length text < 65536 \<Longrightarrow> response_frame (error_response pf opcode code text)"
  by (simp add: error_response_def response_frame_image)

text \<open>What has been written, after a round or at the end, with the world.\<close>

definition typed_output :: "('k \<Rightarrow> byte list) \<Rightarrow> 'k \<Rightarrow> 'k \<Rightarrow> world_t \<Rightarrow> bool" where
  "typed_output out k k' W' \<longleftrightarrow>
     sane_world W' \<and> (\<exists>frames. out k' = out k @ concat frames \<and> list_all response_frame frames)"

fun typed_end :: "('k \<Rightarrow> byte list) \<Rightarrow> 'k \<Rightarrow> 'k session_end \<Rightarrow> bool" where
  "typed_end out k (Closed k' W') \<longleftrightarrow> typed_output out k k' W'"
| "typed_end out k (Io_error k' W') \<longleftrightarrow> typed_output out k k' W'"
| "typed_end out k (Crashed f) \<longleftrightarrow> True"

fun typed_round :: "('k \<Rightarrow> byte list) \<Rightarrow> 'k \<Rightarrow> 'k round_result \<Rightarrow> bool" where
  "typed_round out k (Next_request k' W') \<longleftrightarrow> typed_output out k k' W'"
| "typed_round out k (Ended e) \<longleftrightarrow> typed_end out k e"

lemma typed_quiet: "sane_world W \<Longrightarrow> out k' = out k \<Longrightarrow> typed_output out k k' W"
  by (auto simp: typed_output_def intro: exI [of _ "[]"])

lemma typed_one: "sane_world W \<Longrightarrow> response_frame bs \<Longrightarrow> out k' = out k @ bs \<Longrightarrow> typed_output out k k' W"
  by (auto simp: typed_output_def intro!: exI [of _ "[bs]"])

lemma typed_trans:
  assumes "typed_output out k k1 W1" and "typed_output out k1 k2 W2"
  shows "typed_output out k k2 W2"
proof -
  from assms obtain fs gs where "out k1 = out k @ concat fs" "list_all response_frame fs"
    "out k2 = out k1 @ concat gs" "list_all response_frame gs" "sane_world W2"
    by (auto simp: typed_output_def)
  then show ?thesis by (auto simp: typed_output_def intro!: exI [of _ "fs @ gs"])
qed

lemma refuse_typed:
  assumes "socket_ok api inp out" and "sane_world W" and "response_frame bs"
  shows "typed_round out k (refuse api bs k W)"
proof -
  obtain k' where "so_write api bs k = (True, k')" "out k' = out k @ bs"
    using socket_write [OF assms(1)] by metis
  with assms(2,3) show ?thesis by (simp add: refuse_def typed_one)
qed

lemma answer_typed:
  assumes "socket_ok api inp out" and "malloc_sound (pf_malloc pf)" and "sane_world W"
  shows "typed_round out k (answer_request api pf hdr data k W)"
proof -
  let ?q = "\<lparr>br_opcode = rh_opcode hdr, br_topic = take (unat (rh_topic_name_len hdr)) data,
      br_pid = rh_partition_id hdr, br_message = take (unat (rh_message_len hdr)) (drop (unat (rh_topic_name_len hdr)) data)\<rparr>"
  show ?thesis
  proof (cases "handle pf ?q W")
    case (Inl f)
    then show ?thesis by (simp add: answer_request_def handle_request_header)
  next
    case (Inr r)
    obtain W' bytes where r: "r = (W', bytes)" by (cases r)
    obtain k' where "so_write api bytes k = (True, k')" "out k' = out k @ bytes"
      using socket_write [OF assms(1)] by metis
    with handle_typed [OF assms(3,2), of ?q W' bytes] Inr r show ?thesis
      by (auto simp: answer_request_def handle_request_header intro: typed_one)
  qed
qed

lemma typed_round_after_read:
  assumes "out k1 = out k" and "typed_round out k1 r"
  shows "typed_round out k r"
proof -
  have "typed_output out k k' W'" if "typed_output out k1 k' W'" for k' W'
    using that assms(1) by (simp add: typed_output_def)
  then show ?thesis
    using assms(2)
  proof (cases r)
    case (Ended e)
    with assms show ?thesis by (cases e) (auto simp: typed_output_def)
  qed simp
qed

lemma session_read_cases:
  assumes "socket_ok api inp out"
  obtains k' where "so_read api n k = (None, k')" and "out k' = out k"
  | bs k' where "so_read api n k = (Some bs, k')" and "out k' = out k"
  proof (cases "n \<le> length (inp k)")
  case True
  then show thesis by (rule socket_read [OF assms]) (rule that(2))
next
  case False
  then have "length (inp k) < n" by simp
  then show thesis by (rule socket_read_short [OF assms]) (rule that(1))
qed

lemma session_round_typed:
  assumes sock: "socket_ok api inp out" and snd: "malloc_sound (pf_malloc pf)" and W: "sane_world W"
  shows "typed_round out k (session_round api pf k W)"
proof (rule session_read_cases [OF sock, of sizeof_header k])
  fix k1
  assume "so_read api sizeof_header k = (None, k1)" "out k1 = out k"
  then show ?thesis using W by (simp add: session_round_def typed_quiet)
next
  fix bs k1
  assume k1: "so_read api sizeof_header k = (Some bs, k1)" "out k1 = out k"
  let ?hdr = "request_header_of bs"
  let ?n = "unat (rh_topic_name_len ?hdr) + unat (rh_message_len ?hdr)"
  have e: "response_frame (error_response pf (opcode_value PUSH) INTERNAL_ERROR ''Invalid magic number'')"
    "response_frame (error_response pf (rh_opcode ?hdr) INTERNAL_ERROR ''Data too large'')"
    by (simp_all add: error_response_frame del: opcode_value.simps)
  note refused = typed_round_after_read [OF k1(2) refuse_typed [OF sock W e(1)]]
    typed_round_after_read [OF k1(2) refuse_typed [OF sock W e(2)]]
  have body: "typed_round out k (case so_read api ?n k1 of (None, k2) \<Rightarrow> Ended (Io_error k2 W)
      | (Some data, k2) \<Rightarrow> if length data = 0 then Ended (Closed k2 W) else answer_request api pf ?hdr data k2 W)"
  proof (rule session_read_cases [OF sock, of ?n k1])
    fix k2
    assume "so_read api ?n k1 = (None, k2)" "out k2 = out k1"
    then show ?thesis using W k1(2) by (simp add: typed_quiet)
  next
    fix data k2
    assume k2: "so_read api ?n k1 = (Some data, k2)" "out k2 = out k1"
    have "typed_round out k (answer_request api pf ?hdr data k2 W)"
      by (rule typed_round_after_read [OF _ answer_typed [OF sock snd W]]) (simp add: k1(2) k2(2))
    then show ?thesis using W k1(2) k2 by (simp add: typed_quiet)
  qed
  have "typed_round out k (answer_request api pf ?hdr [] k1 W)"
    by (rule typed_round_after_read [OF k1(2) answer_typed [OF sock snd W]])
  then show ?thesis
    using refused body typed_quiet [of W out k1 k, OF W k1(2)] k1(1)
    by (simp add: session_round_def Let_def del: opcode_value.simps)
qed

subsection \<open>Properties\<close>

text \<open>
  C12: everything a session says can be parsed. Whatever bytes arrive on the connection, the session
  ends by itself, and unless a handler took the process down, what it wrote is a sequence of
  complete response frames: the magic number, a known error code, exactly as many payload
  bytes as the header announces, and a text with every error; and the world is still well
  formed.
\<close>

theorem session_output_typed:
  assumes "socket_ok api inp out" and "malloc_sound (pf_malloc pf)" and "sane_world W"
  shows "\<exists>e. session_loop api pf k W = Some e \<and> typed_end out k e"
  using assms(3)
proof (induction "length (inp k)" arbitrary: k W rule: less_induct)
  case less
  note round = session_round_typed [OF assms(1,2) less.prems, of k]
  show ?case
  proof (cases "session_round api pf k W")
    case (Ended e)
    with round show ?thesis by (subst session_loop.simps) simp
  next
    case (Next_request k' W')
    then have "length (inp k') < length (inp k)" by (rule session_round_consumes [OF assms(1)])
    moreover have t: "typed_output out k k' W'" using round Next_request by simp
    ultimately obtain e where e: "session_loop api pf k' W' = Some e" "typed_end out k' e"
      using less.hyps [of k' W'] by (auto simp: typed_output_def)
    from e(2) t have "typed_end out k e" by (cases e) (auto intro: typed_trans)
    with e(1) Next_request show ?thesis by (subst session_loop.simps) simp
  qed
qed

theorem session_output_typed_witness:
  "\<exists>k' W'. session_loop pair_socket demo_platform (frame_of 0 (demo_pull 0) @ lit ''garbage'', []) world_new = Some (Io_error k' W')
     \<and> typed_output snd ([], []) k' W'"
proof -
  let ?k = "(frame_of 0 (demo_pull 0) @ lit ''garbage'', []) :: byte list \<times> byte list"
  have W: "sane_world world_new" by (simp add: sane_world_def small_messages_empty)
  have snd: "malloc_sound (pf_malloc demo_platform)" by (simp add: demo_platform_def small_malloc_sound)
  have fits: "frame_fits (demo_pull 0)"
    by (simp add: frame_fits_def session_buffer_size_def sizeof_header_def demo_pull_def)
  have "broker_step (pf_can_open demo_platform) (world_abs world_new) (demo_pull 0) =
      Some (Map.empty, reply (opcode_value PULL) TOPIC_NOT_FOUND ''Topic not found'')"
    by (simp add: broker_step_def broker_pull_def demo_pull_def del: opcode_value.simps)
  then obtain W1 bytes where "handle demo_platform (demo_pull 0) world_new = Inr (W1, bytes)"
    using handle_outcome [OF world_new_wf demo_platform_sound, of 3 "demo_pull 0"] world_new_memory [of 4] by auto
  then obtain k1 where k1: "session_loop pair_socket demo_platform ?k world_new = session_loop pair_socket demo_platform k1 W1"
    "fst k1 = lit ''garbage''"
    using session_loop_frame [OF pair_socket_ok fits, of ?k 0 "lit ''garbage''" demo_platform world_new] by auto
  then obtain k' where "session_loop pair_socket demo_platform ?k world_new = Some (Io_error k' W1)"
    using session_loop_end [OF pair_socket_ok, of k1 demo_platform W1] by (auto simp: sizeof_header_def)
  with session_output_typed [OF pair_socket_ok snd W, of ?k] show ?thesis
    by (auto simp: typed_output_def)
qed

end
