(* ===== verification/CommandLine.thy ===== *)
theory CommandLine
  imports ResponseStream
begin

section \<open>Client processes against a server\<close>

text \<open>
  The client program and a session of the server, connected to each other. A client process
  blocks in its reads until the session has answered, so what the two do together is a run of
  the client in which the session's round takes place when the client waits for a reply. The
  connection, with the server's world behind it, is a socket of the client, and the networking
  parameters of the client are instantiated by the model of the server.
\<close>

subsection \<open>The connection\<close>

text \<open>
  Bytes under way in both directions, the server's world, whether a session is serving the
  connection, and the fault by which the server has left the behaviour that C++ defines, if any.
\<close>

record link_t =
  lk_world :: world_t
  lk_sent :: "byte list"
  lk_replies :: "byte list"
  lk_serving :: bool
  lk_fault :: "fault option"

definition link_idle :: "world_t \<Rightarrow> link_t" where
  "link_idle W = \<lparr>lk_world = W, lk_sent = [], lk_replies = [], lk_serving = False, lk_fault = None\<rparr>"

definition link_at :: "world_t \<Rightarrow> byte list \<Rightarrow> byte list \<Rightarrow> bool \<Rightarrow> fault option \<Rightarrow> link_t" where
  "link_at W sent replies serving f =
     \<lparr>lk_world = W, lk_sent = sent, lk_replies = replies, lk_serving = serving, lk_fault = f\<rparr>"

text \<open>
  Nothing is known of a server after a fault: it may be dead, and the connection broken, or send
  any bytes and accept further connections. What it does is a parameter: the bytes that still
  come over a connection before it breaks, and whether connecting succeeds.
\<close>

record wreck_t =
  wk_bytes :: "link_t \<Rightarrow> byte list"
  wk_accepts :: "link_t \<Rightarrow> bool"

text \<open>The server that is dead after a fault.\<close>

definition dead_server :: wreck_t where
  "dead_server = \<lparr>wk_bytes = (\<lambda>_. []), wk_accepts = (\<lambda>_. False)\<rparr>"

definition link_wrecked :: "wreck_t \<Rightarrow> fault \<Rightarrow> link_t \<Rightarrow> link_t" where
  "link_wrecked wreck f k = k\<lparr>lk_serving := False, lk_fault := Some f, lk_replies := lk_replies k @ wk_bytes wreck k\<rparr>"

definition link_ended :: "byte list \<times> byte list \<Rightarrow> world_t \<Rightarrow> link_t \<Rightarrow> link_t" where
  "link_ended io W k = k\<lparr>lk_world := W, lk_sent := fst io, lk_replies := snd io, lk_serving := False\<rparr>"

definition link_serve :: "wreck_t \<Rightarrow> platform_t \<Rightarrow> link_t \<Rightarrow> link_t" where
  "link_serve wreck pf k =
     (case lk_fault k of
        Some f \<Rightarrow> link_wrecked wreck f k
      | None \<Rightarrow>
          (case session_round pair_socket pf (lk_sent k, lk_replies k) (lk_world k) of
             Next_request io W \<Rightarrow> k\<lparr>lk_world := W, lk_sent := fst io, lk_replies := snd io\<rparr>
           | Ended (Closed io W) \<Rightarrow> link_ended io W k
           | Ended (Io_error io W) \<Rightarrow> link_ended io W k
           | Ended (Crashed f) \<Rightarrow> link_wrecked wreck f k))"

definition link_read :: "wreck_t \<Rightarrow> platform_t \<Rightarrow> nat \<Rightarrow> link_t \<Rightarrow> byte list option \<times> link_t" where
  "link_read wreck pf n k =
     (let k1 = (if lk_serving k \<and> lk_sent k \<noteq> [] then link_serve wreck pf k else k)
      in if n \<le> length (lk_replies k1) then (Some (take n (lk_replies k1)), k1\<lparr>lk_replies := drop n (lk_replies k1)\<rparr>)
         else (None, k1))"

definition link_write :: "byte list \<Rightarrow> link_t \<Rightarrow> bool \<times> link_t" where
  "link_write bytes k = (if lk_serving k then (True, k\<lparr>lk_sent := lk_sent k @ bytes\<rparr>) else (False, k))"

definition link_socket :: "wreck_t \<Rightarrow> platform_t \<Rightarrow> link_t socket_api" where
  "link_socket wreck pf = \<lparr>so_read = link_read wreck pf, so_write = link_write\<rparr>"

text \<open>Connecting succeeds where a live server listens, and gives a new session.\<close>

definition link_connect :: "wreck_t \<Rightarrow> byte list \<Rightarrow> u16 \<Rightarrow> byte list \<Rightarrow> u16 \<Rightarrow> link_t \<Rightarrow> bool \<times> link_t" where
  "link_connect wreck server_host server_port host port k =
     (if host = server_host \<and> port = server_port \<and> (lk_fault k = None \<or> wk_accepts wreck k)
      then (True, k\<lparr>lk_sent := [], lk_replies := [], lk_serving := True\<rparr>) else (False, k))"

definition link_close :: "link_t \<Rightarrow> link_t" where
  "link_close k = k\<lparr>lk_sent := [], lk_replies := [], lk_serving := False\<rparr>"

definition link_network :: "wreck_t \<Rightarrow> byte list \<Rightarrow> u16 \<Rightarrow> link_t network_api" where
  "link_network wreck server_host server_port =
     \<lparr>nw_connect = link_connect wreck server_host server_port, nw_close = link_close\<rparr>"

subsection \<open>One command\<close>

lemma link_serve_request:
  assumes fits: "frame_fits q" and sent: "lk_sent k = frame_of pad q" and alive: "lk_fault k = None"
  shows "link_serve wreck pf k =
     (case handle pf q (lk_world k) of
        Inl f \<Rightarrow> link_wrecked wreck f k
      | Inr (W, bytes) \<Rightarrow> k\<lparr>lk_world := W, lk_sent := [], lk_replies := lk_replies k @ bytes\<rparr>)"
proof -
  have inp: "fst (lk_sent k, lk_replies k) = frame_of pad q @ []" by (simp add: sent)
  note round = session_round_frame [OF pair_socket_ok fits inp, of pf "lk_world k"]
  show ?thesis
  proof (cases "handle pf q (lk_world k)")
    case (Inl f)
    then show ?thesis using round by (simp add: link_serve_def alive)
  next
    case (Inr r)
    obtain W bytes where r: "r = (W, bytes)" by (cases r)
    from round Inr r obtain io where "session_round pair_socket pf (lk_sent k, lk_replies k) (lk_world k) = Next_request io W"
      "fst io = []" "snd io = lk_replies k @ bytes" by auto
    with Inr r show ?thesis by (simp add: link_serve_def alive)
  qed
qed

lemma frame_not_empty [simp]: "frame_of pad q \<noteq> []"
  by (simp add: frame_of_def request_header_image_def)

lemma reply_image_length: "length (reply_image pf rep) = sizeof_header + length (rp_payload rep)"
  by (simp add: reply_image_def response_image_def sizeof_header_def)

lemma reply_image_payload: "drop sizeof_header (reply_image pf rep) = rp_payload rep"
  by (simp add: reply_image_def response_image_def sizeof_header_def)

text \<open>An accepted command line at a listening server, in the server's terms: its request is handled, and
  the client prints the reply.\<close>

lemma client_main_link:
  assumes cmd: "command_request argv = Some (q, announce)" and fits: "frame_fits q"
    and opts: "parse_options (drop 2 argv) (lit ''127.0.0.1'', 8080) = Inr (host, port)"
    and alive: "lk_fault k = None"
    and run: "handle pf q (lk_world k) = Inr (W, reply_image pf rep)" and len: "length (rp_payload rep) < 65536"
  shows "client_main (link_network wreck host port) (link_socket wreck pf) pad argv k =
     Inr \<lparr>cr_exit_code = 0, cr_output = connected_lines host port @ [announce] @ reply_lines rep,
          cr_answer = Some (reply_header rep, reply_data rep), cr_socket = link_idle W\<rparr>"
proof -
  let ?k1 = "link_at (lk_world k) [] [] True None" and ?k2 = "link_at (lk_world k) (frame_of pad q) [] True None"
  let ?k3 = "link_at W [] (rp_payload rep) True None" and ?k4 = "link_at W [] [] True None"
  have argc: "3 \<le> length argv" using cmd by (auto simp: command_request_def split: sum.splits if_splits)
  have small: "length (br_topic q) < 65536" "length (br_message q) < 65536"
    using fits by (simp_all add: frame_fits_def session_buffer_size_def sizeof_header_def)
  have q: "client_request (br_opcode q) (br_topic q) (br_pid q) (br_message q) = q" by (simp add: client_request_def)
  have send: "send_broker_request (link_socket wreck pf) pad q \<lparr>cl_socket = ?k1, cl_connected = True\<rparr> =
      Inr (True, \<lparr>cl_socket = ?k2, cl_connected = True\<rparr>)"
    using request_bytes_small [OF small, of pad "br_opcode q" "br_pid q"]
    by (simp add: send_broker_request_def send_request_def q link_socket_def link_write_def link_at_def)
  have serve: "link_serve wreck pf ?k2 = link_at W [] (reply_image pf rep) True None"
    using link_serve_request [OF fits, of ?k2 pad wreck pf] run by (simp add: link_at_def)
  have first: "so_read (link_socket wreck pf) sizeof_header ?k2 = (Some (take sizeof_header (reply_image pf rep)), ?k3)"
    using serve by (simp add: link_socket_def link_read_def reply_image_length reply_image_payload link_at_def)
  have second: "if rp_payload rep = [] then ?k4 = ?k3
      else so_read (link_socket wreck pf) (length (rp_payload rep)) ?k3 = (Some (rp_payload rep), ?k4)"
    by (simp add: link_socket_def link_read_def link_at_def)
  have "nw_connect (link_network wreck host port) host port k = (True, ?k1)"
    using alive by (cases k) (simp add: link_network_def link_connect_def link_at_def)
  from client_main_connected [OF argc opts this]
  have "client_main (link_network wreck host port) (link_socket wreck pf) pad argv k =
      client_finish (link_network wreck host port) (link_socket wreck pf) (connected_lines host port @ [announce])
        (True, \<lparr>cl_socket = ?k2, cl_connected = True\<rparr>)"
    by (simp add: client_dispatch_command [OF cmd] send)
  moreover have "nw_close (link_network wreck host port) ?k4 = link_idle W"
    by (simp add: link_network_def link_close_def link_idle_def link_at_def)
  ultimately show ?thesis
    using client_finish_reply [OF first second len, of "link_network wreck host port"] by simp
qed

text \<open>
  If the handler faults, the client still comes to its end, whatever bytes reach it, as soon as its reads
  return; nothing is said of what it prints after the announcement.
\<close>

lemma client_finish_ends:
  assumes keeps: "\<And>n k. P k \<Longrightarrow> P (snd (so_read api n k))" "\<And>k. P k \<Longrightarrow> P (nw_close net k)"
    and first: "P (snd (so_read api sizeof_header k))"
  shows "\<exists>r rest. client_finish net api output (True, \<lparr>cl_socket = k, cl_connected = True\<rparr>) = Inr r
     \<and> P (cr_socket r) \<and> cr_output r = output @ rest \<and> cr_exit_code r \<in> {0, 1}"
proof -
  obtain bs k3 where k3: "so_read api sizeof_header k = (bs, k3)" by fastforce
  with first have P3: "P k3" by simp
  show ?thesis
  proof (cases bs)
    case None
    then show ?thesis
      using keeps(2) [OF P3] by (simp add: client_finish_def receive_response_def k3 client_exit_connected)
  next
    case (Some b)
    let ?resp = "response_header_of b"
    obtain ds k4 where k4: "so_read api (unat (sh_message_len ?resp)) k3 = (ds, k4)" by fastforce
    then have "P (nw_close net k4)" using keeps [OF P3] keeps(1) [OF P3, of "unat (sh_message_len ?resp)"]
      by (simp add: keeps(2))
    then show ?thesis
      using keeps(2) [OF P3] k4 Some
      by (auto simp: client_finish_def receive_response_def receive_response_data_def k3 client_exit_connected
          client_done_connected Let_def split: option.split)
  qed
qed

lemma link_read_fault:
  "lk_fault k = Some f \<Longrightarrow> lk_fault (snd (link_read wreck pf n k)) = Some f"
  by (simp add: link_read_def link_serve_def link_wrecked_def Let_def)

lemma client_main_link_fault:
  assumes cmd: "command_request argv = Some (q, announce)" and fits: "frame_fits q"
    and opts: "parse_options (drop 2 argv) (lit ''127.0.0.1'', 8080) = Inr (host, port)"
    and alive: "lk_fault k = None" and run: "handle pf q (lk_world k) = Inl f"
  shows "\<exists>r rest. client_main (link_network wreck host port) (link_socket wreck pf) pad argv k = Inr r
     \<and> lk_fault (cr_socket r) = Some f \<and> cr_output r = connected_lines host port @ announce # rest \<and> cr_exit_code r \<in> {0, 1}"
proof -
  let ?k1 = "link_at (lk_world k) [] [] True None" and ?k2 = "link_at (lk_world k) (frame_of pad q) [] True None"
  have argc: "3 \<le> length argv" using cmd by (auto simp: command_request_def split: sum.splits if_splits)
  have small: "length (br_topic q) < 65536" "length (br_message q) < 65536"
    using fits by (simp_all add: frame_fits_def session_buffer_size_def sizeof_header_def)
  have q: "client_request (br_opcode q) (br_topic q) (br_pid q) (br_message q) = q" by (simp add: client_request_def)
  have send: "send_broker_request (link_socket wreck pf) pad q \<lparr>cl_socket = ?k1, cl_connected = True\<rparr> =
      Inr (True, \<lparr>cl_socket = ?k2, cl_connected = True\<rparr>)"
    using request_bytes_small [OF small, of pad "br_opcode q" "br_pid q"]
    by (simp add: send_broker_request_def send_request_def q link_socket_def link_write_def link_at_def)
  have "link_serve wreck pf ?k2 = link_wrecked wreck f ?k2"
    using link_serve_request [OF fits, of ?k2 pad wreck pf] run by (simp add: link_at_def)
  then have "lk_fault (snd (so_read (link_socket wreck pf) sizeof_header ?k2)) = Some f"
    by (simp add: link_socket_def link_read_def Let_def) (simp add: link_at_def link_wrecked_def)
  from client_finish_ends [of "\<lambda>k. lk_fault k = Some f", OF _ _ this, of "link_network wreck host port" "connected_lines host port @ [announce]"]
  obtain r rest where r: "client_finish (link_network wreck host port) (link_socket wreck pf) (connected_lines host port @ [announce])
      (True, \<lparr>cl_socket = ?k2, cl_connected = True\<rparr>) = Inr r" "lk_fault (cr_socket r) = Some f"
    "cr_output r = (connected_lines host port @ [announce]) @ rest" "cr_exit_code r \<in> {0, 1}"
    by (auto simp: link_socket_def link_network_def link_close_def link_read_fault)
  have "nw_connect (link_network wreck host port) host port k = (True, ?k1)"
    using alive by (cases k) (simp add: link_network_def link_connect_def link_at_def)
  from client_main_connected [OF argc opts this] r show ?thesis
    by (intro exI [of _ r] exI [of _ rest]) (simp add: client_dispatch_command [OF cmd] send)
qed

text \<open>What an accepted command line is expected to print.\<close>

definition command_output :: "byte list \<Rightarrow> u16 \<Rightarrow> line \<Rightarrow> broker_reply \<Rightarrow> line list" where
  "command_output host port announce rep = connected_lines host port @ [announce] @ reply_lines rep"

subsection \<open>A shell session\<close>

text \<open>Client processes started one after the other.\<close>

fun run_commands :: "'k network_api \<Rightarrow> 'k socket_api \<Rightarrow> byte \<Rightarrow> byte list list list \<Rightarrow> 'k \<Rightarrow> fault + 'k client_run list \<times> 'k" where
  "run_commands net api pad [] k = Inr ([], k)"
| "run_commands net api pad (argv # rest) k =
     rbind (client_main net api pad argv k) (\<lambda>r.
     rbind (run_commands net api pad rest (cr_socket r)) (\<lambda>(rs, k'). Inr (r # rs, k')))"

definition accepted_command :: "byte list \<Rightarrow> u16 \<Rightarrow> byte list list \<Rightarrow> broker_request \<Rightarrow> bool" where
  "accepted_command host port argv q \<longleftrightarrow>
     map_option fst (command_request argv) = Some q \<and> frame_fits q
     \<and> parse_options (drop 2 argv) (lit ''127.0.0.1'', 8080) = Inr (host, port)"

subsection \<open>Properties\<close>

text \<open>
  C14: a command does what the broker specifies. For an accepted command line, started against a
  listening server, the two programs together handle exactly its request: the client exits with
  code 0 and prints the specified reply, and the server's topics change as specified. Where the
  specification is undefined, the server leaves defined behaviour and nothing is promised: whatever
  bytes then reach the client (\<open>wreck\<close> is arbitrary), it is only known to have announced the
  request and, its reads returning, to end with code 0 or 1.
\<close>

theorem client_command_refines_broker:
  assumes "world_wf W" and "platform_sound K pf" and "has_memory K (Suc n) W"
    and "command_request argv = Some (q, announce)" and "frame_fits q"
    and "parse_options (drop 2 argv) (lit ''127.0.0.1'', 8080) = Inr (host, port)"
    and "list_all (\<lambda>m. length m < 65536) (messages_of (world_abs W) (br_topic q))"
  shows "case broker_step (pf_can_open pf) (world_abs W) q of
       None \<Rightarrow> \<exists>r f rest. client_main (link_network wreck host port) (link_socket wreck pf) pad argv (link_idle W) = Inr r
         \<and> lk_fault (cr_socket r) = Some f \<and> cr_output r = connected_lines host port @ announce # rest
         \<and> cr_exit_code r \<in> {0, 1}
     | Some (B', rep) \<Rightarrow> \<exists>W'. client_main (link_network wreck host port) (link_socket wreck pf) pad argv (link_idle W) =
           Inr \<lparr>cr_exit_code = 0, cr_output = command_output host port announce rep,
                cr_answer = Some (reply_header rep, reply_data rep), cr_socket = link_idle W'\<rparr>
         \<and> world_wf W' \<and> world_abs W' = B' \<and> has_memory K n W'"
proof (cases "broker_step (pf_can_open pf) (world_abs W) q")
  case None
  with handle_outcome [OF assms(1-3), of q] obtain f where "handle pf q (lk_world (link_idle W)) = Inl f"
    by (auto simp: link_idle_def)
  from client_main_link_fault [OF assms(4-6) _ this, where pad = pad and wreck = wreck] None show ?thesis by (auto simp: link_idle_def)
next
  case (Some r)
  obtain B' rep where r: "r = (B', rep)" by (cases r)
  with Some handle_outcome [OF assms(1-3), of q] obtain W' where
    W': "handle pf q (lk_world (link_idle W)) = Inr (W', reply_image pf rep)" "world_wf W'" "world_abs W' = B'" "has_memory K n W'"
    by (auto simp: link_idle_def)
  have "length (rp_payload rep) < 65536" using broker_reply_length Some r assms(7) by blast
  from client_main_link [OF assms(4-6) _ W'(1) this, where pad = pad and wreck = wreck] W'(2-4) Some r show ?thesis
    by (auto simp: link_idle_def command_output_def)
qed

theorem client_command_refines_broker_witness:
  "\<exists>W'. client_main (link_network dead_server (lit ''127.0.0.1'') 8080) (link_socket dead_server demo_platform) 0
       (map lit [''noctua-client'', ''push'', ''t'', ''0'', ''a'', ''x'']) (link_idle world_new) =
     Inr \<lparr>cr_exit_code = 0, cr_output = connected_lines (lit ''127.0.0.1'') 8080
            @ [println ''[CLIENT] Sending PUSH: topic={}, partition={}, message={}''
                 [Text (lit ''t''), Number 0, Text (lit ''a'')],
               println ''[CLIENT] Response: opcode={}, error_code={}, message_len={}''
                 [Text (lit ''PUSH''), Text (lit ''OK''), Number 0],
               println ''[CLIENT] Disconnected'' []],
          cr_answer = Some (reply_header (ack (opcode_value PUSH) []), None), cr_socket = link_idle W'\<rparr>
     \<and> world_abs W' = [lit ''t'' \<mapsto> [lit ''a'']]"
proof -
  let ?argv = "map lit [''noctua-client'', ''push'', ''t'', ''0'', ''a'', ''x'']"
  let ?q = "client_request (opcode_value PUSH) (lit ''t'') 0 (lit ''a'')"
  let ?announce = "println ''[CLIENT] Sending PUSH: topic={}, partition={}, message={}''
      [Text (lit ''t''), Number 0, Text (lit ''a'')]"
  have zero: "to_u16 (atoi (lit ''0'')) = Inr 0"
    by (simp add: to_u16_def atoi_def lit_def is_space_def is_digit_def digits_value_def)
  have cmd: "command_request ?argv = Some (?q, ?announce)" by (simp add: command_request_def zero)
  have fits: "frame_fits ?q" by (simp add: frame_fits_def client_request_def lit_def session_buffer_size_def sizeof_header_def)
  have opts: "parse_options (drop 2 ?argv) (lit ''127.0.0.1'', 8080) = Inr (lit ''127.0.0.1'', 8080)"
    by (simp add: lit_def)
  have mem: "has_memory 4 (Suc 3) world_new" using world_new_memory [of 4] by simp
  have step: "broker_step (pf_can_open demo_platform) (world_abs world_new) ?q =
      Some ([lit ''t'' \<mapsto> [lit ''a'']], ack (opcode_value PUSH) [])"
    unfolding broker_step_def client_request_def
    by (simp add: broker_push_def messages_of_def fits_buffer_def lit_def del: opcode_value.simps)
  from client_command_refines_broker [OF world_new_wf demo_platform_sound mem cmd fits opts, where pad = 0 and wreck = dead_server] step
  obtain W' where run: "client_main (link_network dead_server (lit ''127.0.0.1'') 8080) (link_socket dead_server demo_platform) 0 ?argv (link_idle world_new) =
     Inr \<lparr>cr_exit_code = 0,
          cr_output = command_output (lit ''127.0.0.1'') 8080 ?announce (ack (opcode_value PUSH) []),
          cr_answer = Some (reply_header (ack (opcode_value PUSH) []), reply_data (ack (opcode_value PUSH) [])),
          cr_socket = link_idle W'\<rparr>" and W': "world_abs W' = [lit ''t'' \<mapsto> [lit ''a'']]"
    by (auto simp: messages_of_def)
  have "command_output (lit ''127.0.0.1'') 8080 ?announce (ack (opcode_value PUSH) []) =
      connected_lines (lit ''127.0.0.1'') 8080 @ [?announce,
        println ''[CLIENT] Response: opcode={}, error_code={}, message_len={}''
          [Text (lit ''PUSH''), Text (lit ''OK''), Number 0], println ''[CLIENT] Disconnected'' []]"
    by (simp add: command_output_def reply_lines_def response_line_def reply_header_def reply_data_def
        payload_lines_def ack_def opcode_to_string_def error_code_to_string_def opcode_of_def error_code_of_def)
  moreover have "reply_data (ack (opcode_value PUSH) []) = None" by (simp add: reply_data_def ack_def)
  ultimately show ?thesis using run W' by (intro exI [of _ W']) (simp only:)
qed

lemma command_step:
  assumes "world_wf W" and "platform_sound K pf" and "has_memory K (Suc n) W"
    and "accepted_command host port argv q" and "small_messages (world_abs W)"
    and "broker_step (pf_can_open pf) (world_abs W) q = Some (B', rep)"
  obtains W' where "client_main (link_network wreck host port) (link_socket wreck pf) pad argv (link_idle W) =
       Inr \<lparr>cr_exit_code = 0, cr_output = command_output host port (snd (the (command_request argv))) rep,
            cr_answer = Some (reply_header rep, reply_data rep), cr_socket = link_idle W'\<rparr>"
    and "world_wf W'" and "world_abs W' = B'" and "has_memory K n W'"
proof -
  from assms(4) obtain announce where cmd: "command_request argv = Some (q, announce)" "frame_fits q"
    "parse_options (drop 2 argv) (lit ''127.0.0.1'', 8080) = Inr (host, port)"
    by (auto simp: accepted_command_def)
  from handle_outcome [OF assms(1-3), of q] assms(6) obtain W' where
    W': "handle pf q (lk_world (link_idle W)) = Inr (W', reply_image pf rep)" "world_wf W'" "world_abs W' = B'" "has_memory K n W'"
    by (auto simp: link_idle_def)
  have "length (rp_payload rep) < 65536"
    using broker_reply_length [OF assms(6)] small_messages_list [OF assms(5)] by blast
  from client_main_link [OF cmd _ W'(1) this, where pad = pad and wreck = wreck] that [OF _ W'(2-4)] cmd(1) show thesis
    by (auto simp: link_idle_def command_output_def)
qed

lemma run_commands_refine:
  assumes pf: "platform_sound K pf"
  shows "world_wf W \<Longrightarrow> has_memory K (length argvs + n) W \<Longrightarrow> small_messages (world_abs W) \<Longrightarrow>
     list_all2 (accepted_command host port) argvs qs \<Longrightarrow>
     broker_run (pf_can_open pf) (world_abs W) qs = Some (B', reps) \<Longrightarrow>
     \<exists>rs W'. run_commands (link_network wreck host port) (link_socket wreck pf) pad argvs (link_idle W) = Inr (rs, link_idle W')
       \<and> world_wf W' \<and> world_abs W' = B' \<and> list_all (\<lambda>r. cr_exit_code r = 0) rs
       \<and> map cr_output rs = map2 (\<lambda>argv. command_output host port (snd (the (command_request argv)))) argvs reps"
proof (induction argvs arbitrary: W qs reps)
  case Nil
  then show ?case by auto
next
  case (Cons argv argvs)
  then obtain q qs' where qs: "qs = q # qs'" "accepted_command host port argv q" "list_all2 (accepted_command host port) argvs qs'"
    by (auto simp: list_all2_Cons1)
  from Cons.prems(5) obtain B1 rep reps' where B1: "broker_step (pf_can_open pf) (world_abs W) q = Some (B1, rep)"
    "broker_run (pf_can_open pf) B1 qs' = Some (B', reps')" "reps = rep # reps'"
    by (auto simp: qs(1) split: option.splits)
  have mem: "has_memory K (Suc (length argvs + n)) W" using Cons.prems(2) by simp
  obtain W1 where W1: "client_main (link_network wreck host port) (link_socket wreck pf) pad argv (link_idle W) =
       Inr \<lparr>cr_exit_code = 0, cr_output = command_output host port (snd (the (command_request argv))) rep,
            cr_answer = Some (reply_header rep, reply_data rep), cr_socket = link_idle W1\<rparr>"
    "world_wf W1" "world_abs W1 = B1" "has_memory K (length argvs + n) W1"
    by (rule command_step [OF Cons.prems(1) pf mem qs(2) Cons.prems(3) B1(1)])
  have "small_messages (world_abs W1)" using small_messages_step [OF B1(1) Cons.prems(3)] by (simp add: W1(3))
  from Cons.IH [OF W1(2,4) this qs(3)] B1(2) W1(3) obtain rs W' where
    "run_commands (link_network wreck host port) (link_socket wreck pf) pad argvs (link_idle W1) = Inr (rs, link_idle W')"
    "world_wf W'" "world_abs W' = B'" "list_all (\<lambda>r. cr_exit_code r = 0) rs"
    "map cr_output rs = map2 (\<lambda>argv. command_output host port (snd (the (command_request argv)))) argvs reps'"
    by auto
  with W1(1) B1(3) show ?case by (intro exI [of _ "_ # rs"] exI [of _ W']) auto
qed

end
