(* ===== verification/ShellSession.thy ===== *)
theory ShellSession
  imports CommandLine ProducerConsumer
begin

section \<open>A shell script of client commands\<close>

text \<open>
  Command lines that push messages and then pull and delete each of them, one client process
  after the other, and the messages that appear on the terminal.
\<close>

subsection \<open>The script\<close>

text \<open>The commands need one argument more than documented; \<open>extra\<close> is that argument.\<close>

definition push_command :: "byte list \<Rightarrow> byte list \<Rightarrow> byte list \<Rightarrow> byte list list" where
  "push_command extra topic m = [lit ''noctua-client'', lit ''push'', topic, lit ''0'', m, extra]"

definition take_commands :: "byte list \<Rightarrow> byte list \<Rightarrow> byte list \<Rightarrow> byte list list list" where
  "take_commands extra topic m =
     [[lit ''noctua-client'', lit ''pull'', topic, lit ''0'', extra],
      [lit ''noctua-client'', lit ''delete'', topic, lit ''0'', m, extra]]"

definition shell_script :: "byte list \<Rightarrow> byte list \<Rightarrow> byte list list \<Rightarrow> byte list list list" where
  "shell_script extra topic ms = map (push_command extra topic) ms @ concat (map (take_commands extra topic) ms)"

text \<open>The messages among the lines of a run: the arguments of its data lines.\<close>

definition line_data :: "line \<Rightarrow> byte list list" where
  "line_data l =
     (if ln_format l = ''[CLIENT] Data: {}'' then concat (map (\<lambda>a. case a of Text m \<Rightarrow> [m] | _ \<Rightarrow> []) (ln_args l)) else [])"

definition printed_messages :: "line list \<Rightarrow> byte list list" where
  "printed_messages ls = concat (map line_data ls)"

lemma printed_messages_simps [simp]:
  "printed_messages [] = []" "printed_messages (l # ls) = line_data l @ printed_messages ls"
  "printed_messages (ls @ ls') = printed_messages ls @ printed_messages ls'"
  by (simp_all add: printed_messages_def)

lemma line_data_quiet [simp]:
  "fmt \<noteq> ''[CLIENT] Data: {}'' \<Longrightarrow> line_data (println fmt args) = []"
  "fmt \<noteq> ''[CLIENT] Data: {}'' \<Longrightarrow> line_data (eprintln fmt args) = []"
  by (simp_all add: line_data_def println_def eprintln_def)

lemma line_data_data [simp]: "line_data (println ''[CLIENT] Data: {}'' [Text m]) = [m]"
  by (simp add: line_data_def println_def)

text \<open>What a command prints of the reply: the payload, if there is one and the code is OK.\<close>

definition reply_messages :: "broker_reply \<Rightarrow> byte list list" where
  "reply_messages rep = (if rp_code rep = OK \<and> rp_payload rep \<noteq> [] then [rp_payload rep] else [])"

lemma printed_command_output:
  assumes "command_request argv = Some (q, announce)"
  shows "printed_messages (command_output host port announce rep) = reply_messages rep"
proof -
  have "line_data announce = []"
    using assms by (auto simp: command_request_def split: sum.splits if_splits)
  then show ?thesis
    by (simp add: command_output_def reply_lines_def reply_messages_def reply_data_def connected_lines_def
        connecting_lines_def response_line_def payload_lines_def)
qed

subsection \<open>The commands are accepted\<close>

definition is_option :: "byte list \<Rightarrow> bool" where
  "is_option s \<longleftrightarrow> s = lit ''--host'' \<or> s = lit ''--port''"

lemma partition_zero: "to_u16 (atoi (lit ''0'')) = Inr 0"
  by (simp add: to_u16_def atoi_def lit_def is_space_def is_digit_def digits_value_def)

lemma zero_no_option: "\<not> is_option (lit ''0'')"
  by (simp add: is_option_def lit_def)

lemma parse_options_none:
  "list_all (\<lambda>a. \<not> is_option a) (butlast args) \<Longrightarrow> parse_options args cfg = Inr cfg"
proof (induction args cfg rule: parse_options.induct)
  case (3 arg val rest host port)
  then show ?case by (cases rest) (auto simp: is_option_def)
qed simp_all

lemma push_command_accepted:
  assumes "\<not> is_option topic" and "\<not> is_option m" and "fits_buffer topic m"
  shows "accepted_command (lit ''127.0.0.1'') 8080 (push_command extra topic m) (push_request topic m)"
proof -
  have "length topic < 1024" "length m < 1024" using assms(3) by (auto simp: fits_buffer_def)
  then show ?thesis
    using assms(1,2) zero_no_option
    by (simp add: accepted_command_def push_command_def command_request_def partition_zero push_request_def
        parse_options_none frame_fits_def client_request_def session_buffer_size_def sizeof_header_def del: opcode_value.simps parse_options.simps)
qed

lemma take_commands_accepted:
  assumes "\<not> is_option topic" and "\<not> is_option m" and "fits_buffer topic m"
  shows "list_all2 (accepted_command (lit ''127.0.0.1'') 8080) (take_commands extra topic m) (take_requests topic m)"
proof -
  have "length topic < 1024" "length m < 1024" using assms(3) by (auto simp: fits_buffer_def)
  then show ?thesis
    using assms(1,2) zero_no_option
    by (simp add: accepted_command_def take_commands_def take_requests_def command_request_def partition_zero
        parse_options_none frame_fits_def client_request_def session_buffer_size_def sizeof_header_def del: opcode_value.simps parse_options.simps)
qed

lemma shell_script_accepted:
  assumes "\<not> is_option topic" and "list_all (\<lambda>m. \<not> is_option m \<and> fits_buffer topic m) ms"
  shows "list_all2 (accepted_command (lit ''127.0.0.1'') 8080) (shell_script extra topic ms) (producer_consumer topic ms)"
proof -
  have "list_all2 (accepted_command (lit ''127.0.0.1'') 8080) (map (push_command extra topic) ms) (map (push_request topic) ms)"
    using assms push_command_accepted by (induction ms) auto
  moreover have "list_all2 (accepted_command (lit ''127.0.0.1'') 8080) (concat (map (take_commands extra topic) ms))
      (concat (map (take_requests topic) ms))"
    using assms(2) by (induction ms) (auto intro: list_all2_appendI take_commands_accepted [OF assms(1)])
  ultimately show ?thesis
    unfolding shell_script_def producer_consumer_def by (rule list_all2_appendI)
qed

subsection \<open>Properties\<close>

lemma accepted_outputs:
  "list_all2 (accepted_command host port) argvs qs \<Longrightarrow> length reps = length argvs \<Longrightarrow>
     printed_messages (concat (map2 (\<lambda>argv. command_output host port (snd (the (command_request argv)))) argvs reps)) =
       concat (map reply_messages reps)"
proof (induction argvs qs arbitrary: reps rule: list_all2_induct)
  case Nil
  then show ?case by simp
next
  case (Cons argv argvs q qs)
  then obtain rep reps' where "reps = rep # reps'" "length reps' = length argvs" by (cases reps) auto
  moreover have "printed_messages (command_output host port (snd (the (command_request argv))) rep) = reply_messages rep"
    using Cons.hyps(1) by (auto simp: accepted_command_def intro: printed_command_output)
  ultimately show ?case using Cons.IH by simp
qed

lemma producer_consumer_messages:
  "concat (map reply_messages (replicate n (ack (opcode_value PUSH) [])
      @ concat (map (\<lambda>m. [ack (opcode_value PULL) m, ack (opcode_value DELETE) []]) ms))) = filter (\<lambda>m. m \<noteq> []) ms"
  by (induction ms) (simp_all add: reply_messages_def ack_def map_replicate_const)

text \<open>
  C13: a shell script sees a queue, if every command is given one argument more than the help
  documents; the commands as documented all exit with code 1
  (\<open>client_documented_usage_fails\<close>). Client processes, started one after the other on one server, push
  messages to a new topic and then pull and delete each of them; the topic's name and each
  message together have at most 1018 bytes, and none of them is the word \<open>--host\<close> or \<open>--port\<close>.
  Every process exits with code 0, and what appears on the terminal are the messages in the
  order in which they were pushed, all but the empty ones, which the client prints as nothing.
  The topic is empty afterwards.
\<close>

theorem shell_session_fifo:
  assumes "world_wf W" and "platform_sound K pf" and "has_memory K (length (shell_script extra topic ms)) W"
    and "small_messages (world_abs W)" and "topic \<noteq> []" and "world_abs W topic = None"
    and "pf_can_open pf (lit ''/tmp/'' @ topic)" and "\<not> is_option topic" and "ms \<noteq> []"
    and "list_all (\<lambda>m. \<not> is_option m \<and> fits_buffer topic m) ms"
  shows "\<exists>rs W'. run_commands (link_network wreck (lit ''127.0.0.1'') 8080) (link_socket wreck pf) pad
         (shell_script extra topic ms) (link_idle W) = Inr (rs, link_idle W')
     \<and> list_all (\<lambda>r. cr_exit_code r = 0) rs
     \<and> printed_messages (concat (map cr_output rs)) = filter (\<lambda>m. m \<noteq> []) ms
     \<and> world_wf W' \<and> world_abs W' = (world_abs W)(topic \<mapsto> [])"
proof -
  let ?argvs = "shell_script extra topic ms"
  let ?reps = "replicate (length ms) (ack (opcode_value PUSH) [])
      @ concat (map (\<lambda>m. [ack (opcode_value PULL) m, ack (opcode_value DELETE) []]) ms)"
  have acc: "list_all2 (accepted_command (lit ''127.0.0.1'') 8080) ?argvs (producer_consumer topic ms)"
    by (rule shell_script_accepted [OF assms(8,10)])
  have "list_all (fits_buffer topic) ms" using assms(10) by (simp add: list_all_iff)
  then have run: "broker_run (pf_can_open pf) (world_abs W) (producer_consumer topic ms) =
      Some ((world_abs W)(topic \<mapsto> []), ?reps)"
    by (intro broker_run_producer_consumer) (use assms in auto)
  have mem: "has_memory K (length ?argvs + 0) W" using assms(3) by simp
  have "length ?reps = length ?argvs" by (simp add: shell_script_def length_concat comp_def take_commands_def)
  with acc have "printed_messages (concat (map2 (\<lambda>argv. command_output (lit ''127.0.0.1'') 8080
      (snd (the (command_request argv)))) ?argvs ?reps)) = filter (\<lambda>m. m \<noteq> []) ms"
    using accepted_outputs producer_consumer_messages by metis
  with run_commands_refine [OF assms(2,1) mem assms(4) acc run, where pad = pad and wreck = wreck] show ?thesis by auto
qed

theorem shell_session_fifo_witness:
  "\<exists>rs W'. run_commands (link_network dead_server (lit ''127.0.0.1'') 8080) (link_socket dead_server pool_platform) 0
         (shell_script (lit ''x'') (lit ''t'') [[], lit ''a'']) (link_idle world_new) = Inr (rs, link_idle W')
     \<and> list_all (\<lambda>r. cr_exit_code r = 0) rs
     \<and> printed_messages (concat (map cr_output rs)) = [lit ''a'']
     \<and> world_wf W' \<and> world_abs W' = [lit ''t'' \<mapsto> []]"
proof -
  let ?ms = "[[], lit ''a'']"
  have mem: "has_memory 8 (length (shell_script (lit ''x'') (lit ''t'') ?ms)) world_new"
    by (simp add: has_memory_def memory_left_def world_new_def shell_script_def take_commands_def)
  have small: "small_messages (world_abs world_new)" by (simp add: small_messages_empty)
  have ok: "list_all (\<lambda>m. \<not> is_option m \<and> fits_buffer (lit ''t'') m) ?ms"
    by (simp add: is_option_def fits_buffer_def) (simp add: lit_def)
  have "filter (\<lambda>m. m \<noteq> []) ?ms = [lit ''a'']" by (simp add: lit_def)
  with shell_session_fifo [OF world_new_wf pool_platform_sound mem small _ _ _ _ _ ok, where pad = 0 and wreck = dead_server] show ?thesis
    by (auto simp: pool_platform_def demo_platform_def is_option_def lit_def)
qed

end
