(* ===== verification/ServerMain.thy ===== *)
theory ServerMain
  imports LockedServer
begin

section \<open>The server process (\<open>src/main.cpp\<close>)\<close>

text \<open>
  \<open>main\<close> of the server: the command line, the pool of threads that run the \<open>io_context\<close>, the
  polling loop and the shutdown, beside the signal handler and the work the threads pick up.
  Each statement of \<open>main\<close> is a step, so is each handler that a thread runs, and they interleave
  freely. A handler of a session is the code from one suspension to the next, on the server under
  all its locks (\<open>LockedServer\<close>), so \<open>io_ctx.stop()\<close> can come in the middle of a request and leave
  locks held. A handler, or the loop that wakes readers, that a thread is running when the context
  is stopped is finished by that thread; the model has it finished before the stop, which only
  sets a flag.
\<close>

subsection \<open>State\<close>

text \<open>
  Where \<open>main\<close> is: in the loop that starts thread number \<open>i\<close>, in the polling loop, before
  \<open>server.stop()\<close>, before \<open>io_ctx.stop()\<close>, in the loop that joins thread number \<open>i\<close>, at the
  destruction of its local variables, returned with an exit code, or ended by a fault.
\<close>

datatype main_pc =
    Starting_thread nat
  | Polling
  | Stopping_server
  | Stopping_context
  | Joining_thread nat
  | Leaving
  | Returned int
  | Aborted fault

text \<open>
  The \<open>io_context\<close> is the flag that \<open>stop\<close> sets, the number of posted handlers of
  \<open>rpc_server_t::stop\<close> that have not run, and the coroutines that wait in it, which are those of
  the server's state. A thread is running or has returned from \<open>io_ctx.run()\<close>.
\<close>

record 'k main_t =
  mn_pc :: main_pc
  mn_running :: bool
  mn_output :: "line list"
  mn_port :: u16
  mn_server :: "'k locked_server_t"
  mn_stopped :: bool
  mn_posted :: nat
  mn_threads :: "bool list"

subsection \<open>Operations\<close>

definition server_port :: "byte list list \<Rightarrow> fault + u16" where
  "server_port argv = (if length argv > 1 then to_u16 (atoi (argv ! 1)) else Inr 8080)"

definition thread_count :: "nat \<Rightarrow> nat" where
  "thread_count hardware_concurrency = max 1 hardware_concurrency"

text \<open>What \<open>main\<close> and the handler print.\<close>

definition newline :: char where
  "newline = CHR 0x0A"

definition signal_line :: "int \<Rightarrow> line" where
  "signal_line signal = println (newline # ''[MAIN] Received signal {}, shutting down...'') [Number signal]"

definition started_line :: "u16 \<Rightarrow> nat \<Rightarrow> line" where
  "started_line port n = println ''[MAIN] Server started on port {} with {} threads'' [Number (uint port), Number (int n)]"

definition stopped_line :: line where
  "stopped_line = println ''[MAIN] Server stopped'' []"

definition signal_handler :: "int \<Rightarrow> 'k main_t \<Rightarrow> 'k main_t" where
  "signal_handler signal s = s\<lparr>mn_output := mn_output s @ [signal_line signal], mn_running := False\<rparr>"

text \<open>\<open>main\<close> up to its loops. The acceptor's constructor throws if the port cannot be bound.\<close>

definition main_start :: "(u16 \<Rightarrow> bool) \<Rightarrow> byte list list \<Rightarrow> file_system \<Rightarrow> fault + 'k main_t" where
  "main_start can_bind argv files =
     rbind (server_port argv) (\<lambda>port.
     rbind (require (can_bind port) Uncaught_exception) (\<lambda>_.
     Inr \<lparr>mn_pc = Starting_thread 0, mn_running = True,
          mn_output = [println ''[SERVER] RPC server listening on port {}'' [Number (uint port)]],
          mn_port = port, mn_server = locked_server_start files, mn_stopped = False, mn_posted = 0,
          mn_threads = []\<rparr>))"

text \<open>\<open>rpc_server_t::stop\<close>, also called by the destructor, only posts the handler that closes.\<close>

definition post_stop :: "'k main_t \<Rightarrow> 'k main_t" where
  "post_stop s = s\<lparr>mn_posted := mn_posted s + 1\<rparr>"

definition server_dtor :: "'k main_t \<Rightarrow> 'k main_t" where
  "server_dtor s = post_stop s"

text \<open>
  The statements of \<open>main\<close> after the start, for \<open>n\<close> threads; \<open>None\<close> while a \<open>join\<close> blocks and
  once the process is over.
\<close>

definition main_next :: "nat \<Rightarrow> 'k main_t \<Rightarrow> 'k main_t option" where
  "main_next n s =
     (case mn_pc s of
        Starting_thread i \<Rightarrow>
          if i < n then Some (s\<lparr>mn_threads := mn_threads s @ [True], mn_pc := Starting_thread (i + 1)\<rparr>)
          else Some (s\<lparr>mn_output := mn_output s @ [started_line (mn_port s) n], mn_pc := Polling\<rparr>)
      | Polling \<Rightarrow> Some (if mn_running s then s else s\<lparr>mn_pc := Stopping_server\<rparr>)
      | Stopping_server \<Rightarrow> Some ((post_stop s)\<lparr>mn_pc := Stopping_context\<rparr>)
      | Stopping_context \<Rightarrow> Some (s\<lparr>mn_stopped := True, mn_pc := Joining_thread 0\<rparr>)
      | Joining_thread i \<Rightarrow>
          if i < length (mn_threads s) then (if mn_threads s ! i then None else Some (s\<lparr>mn_pc := Joining_thread (i + 1)\<rparr>))
          else Some (s\<lparr>mn_output := mn_output s @ [stopped_line], mn_pc := Leaving\<rparr>)
      | Leaving \<Rightarrow> Some ((server_dtor s)\<lparr>mn_pc := Returned 0\<rparr>)
      | Returned code \<Rightarrow> None
      | Aborted f \<Rightarrow> None)"

text \<open>
  What a thread finds to do in \<open>io_ctx.run()\<close>: the next turn of the accept loop, the next turn of a
  session, the next round of the loop in which a writer's release wakes readers, a posted handler
  with the outcome of \<open>close\<close>. The accept loop prints the endpoint of a new connection, or why
  it ends.
\<close>

datatype 'k io_event =
    Accepted "byte list" u16 "'k accept_result"
  | Turn nat
  | Wake_round "byte list"
  | Close_acceptor bool

fun accept_lines :: "byte list \<Rightarrow> u16 \<Rightarrow> 'k accept_result \<Rightarrow> line list" where
  "accept_lines host port (Connected k) =
     [println ''[SERVER] New connection from {}:{}'' [Text host, Number (uint port)]]"
| "accept_lines host port (Connected_no_endpoint k) = [eprintln ''[SERVER] Accept error: {}'' [Exception_text]]"
| "accept_lines host port Accept_aborted = []"
| "accept_lines host port Accept_failed = [eprintln ''[SERVER] Accept error: {}'' [Exception_text]]"

definition close_lines :: "bool \<Rightarrow> line list" where
  "close_lines ok = (if ok then [] else [eprintln ''[SERVER] Error closing acceptor: {}'' [Exception_text]])"

fun session_over :: "'k activity option \<Rightarrow> bool" where
  "session_over None = True"
| "session_over (Some (Finished k closed)) = True"
| "session_over a = False"

definition accept_ready :: "'k accept_result \<Rightarrow> 'k activity server_t \<Rightarrow> bool" where
  "accept_ready r S \<longleftrightarrow> sv_accepting S \<and> (sv_open S \<or> r = Accept_aborted)"

definition turn_ready :: "nat \<Rightarrow> 'k activity server_t \<Rightarrow> bool" where
  "turn_ready i S \<longleftrightarrow> i < length (sv_sessions S) \<and> \<not> session_over (sv_sessions S ! i)"

text \<open>The effect of such an event; \<open>None\<close> if it is not ready, as for a session that waits for a mutex.\<close>

fun run_event :: "'k socket_api \<Rightarrow> platform_t \<Rightarrow> 'k io_event \<Rightarrow> 'k main_t \<Rightarrow> 'k main_t option" where
  "run_event api pf (Accepted host port r) s =
     once (accept_ready r (ls_server (mn_server s)))
       (s\<lparr>mn_server := (mn_server s)\<lparr>ls_server := accept_turn (map_accept_result Reading r) (ls_server (mn_server s))\<rparr>,
          mn_output := mn_output s @ accept_lines host port r\<rparr>)"
| "run_event api pf (Turn i) s =
     (if turn_ready i (ls_server (mn_server s)) then
        (case locked_turn api pf i (mn_server s) of
           None \<Rightarrow> None
         | Some (Inl f) \<Rightarrow> Some (s\<lparr>mn_pc := Aborted f\<rparr>)
         | Some (Inr S) \<Rightarrow> Some (s\<lparr>mn_server := S\<rparr>))
      else None)"
| "run_event api pf (Wake_round n) s =
     map_option (\<lambda>L. s\<lparr>mn_server := set_lock n L (mn_server s)\<rparr>)
       (sm_exec Wake_next (sc_lock (ls_sections (mn_server s) n)))"
| "run_event api pf (Close_acceptor ok) s =
     once (0 < mn_posted s)
       (s\<lparr>mn_posted := mn_posted s - 1,
          mn_server := (mn_server s)\<lparr>ls_server := server_stop (ls_server (mn_server s))\<rparr>,
          mn_output := mn_output s @ close_lines ok\<rparr>)"

text \<open>\<open>io_ctx.run()\<close> returns when the context is stopped or nothing is left that could become ready.\<close>

definition out_of_work :: "'k main_t \<Rightarrow> bool" where
  "out_of_work s \<longleftrightarrow> mn_posted s = 0 \<and> \<not> sv_accepting (ls_server (mn_server s))
     \<and> list_all session_over (sv_sessions (ls_server (mn_server s)))"

definition process_alive :: "'k main_t \<Rightarrow> bool" where
  "process_alive s \<longleftrightarrow> (case mn_pc s of Returned c \<Rightarrow> False | Aborted f \<Rightarrow> False | _ \<Rightarrow> True)"

definition thread_running :: "nat \<Rightarrow> 'k main_t \<Rightarrow> bool" where
  "thread_running i s \<longleftrightarrow> process_alive s \<and> i < length (mn_threads s) \<and> mn_threads s ! i"

inductive main_step :: "'k socket_api \<Rightarrow> platform_t \<Rightarrow> nat \<Rightarrow> 'k main_t \<Rightarrow> 'k main_t \<Rightarrow> bool"
  for api pf n where
  main_runs: "main_next n s = Some t \<Longrightarrow> main_step api pf n s t"
| signal_arrives: "process_alive s \<Longrightarrow> main_step api pf n s (signal_handler signal s)"
| thread_works: "thread_running i s \<Longrightarrow> \<not> mn_stopped s \<Longrightarrow> run_event api pf e s = Some t \<Longrightarrow> main_step api pf n s t"
| thread_returns: "thread_running i s \<Longrightarrow> mn_stopped s \<or> out_of_work s \<Longrightarrow>
    main_step api pf n s (s\<lparr>mn_threads := (mn_threads s)[i := False], mn_stopped := True\<rparr>)"

inductive_cases main_stepE: "main_step api pf n s t"

definition main_init :: "(u16 \<Rightarrow> bool) \<Rightarrow> platform_t \<Rightarrow> 'k main_t \<Rightarrow> bool" where
  "main_init can_bind pf s \<longleftrightarrow> malloc_sound (pf_malloc pf) \<and> (\<exists>argv files. main_start can_bind argv files = Inr s)"

subsection \<open>The invariant\<close>

text \<open>
  What holds at each place of \<open>main\<close>: how many threads there are, which have returned, and
  that the shutdown started with a signal.
\<close>

definition signalled :: "'k main_t \<Rightarrow> bool" where
  "signalled s \<longleftrightarrow> \<not> mn_running s
     \<and> (\<exists>signal. signal_line signal \<in> set (mn_output s))"

definition joined :: "nat \<Rightarrow> nat \<Rightarrow> 'k main_t \<Rightarrow> bool" where
  "joined n i s \<longleftrightarrow> signalled s \<and> mn_stopped s \<and> length (mn_threads s) = n \<and> i \<le> n \<and> (\<forall>j<i. \<not> mn_threads s ! j)"

definition farewell :: "'k main_t \<Rightarrow> bool" where
  "farewell s \<longleftrightarrow> stopped_line \<in> set (mn_output s)"

definition main_pc_inv :: "nat \<Rightarrow> 'k main_t \<Rightarrow> bool" where
  "main_pc_inv n s \<longleftrightarrow>
     (case mn_pc s of
        Starting_thread i \<Rightarrow> length (mn_threads s) = i \<and> i \<le> n
      | Polling \<Rightarrow> length (mn_threads s) = n
      | Stopping_server \<Rightarrow> signalled s \<and> length (mn_threads s) = n
      | Stopping_context \<Rightarrow> signalled s \<and> length (mn_threads s) = n
      | Joining_thread i \<Rightarrow> joined n i s
      | Leaving \<Rightarrow> joined n n s \<and> farewell s
      | Returned code \<Rightarrow> code = 0 \<and> joined n n s \<and> farewell s
      | Aborted f \<Rightarrow> True)"

definition main_inv :: "nat \<Rightarrow> 'k main_t \<Rightarrow> bool" where
  "main_inv n s \<longleftrightarrow> main_pc_inv n s \<and> (mn_running s \<or> signalled s)"

lemma main_inv_init: "main_init can_bind pf s \<Longrightarrow> main_inv n s"
  by (auto simp: main_init_def main_start_def main_inv_def main_pc_inv_def result_simps)

lemma upd_False: "(xs[k := False]) ! j \<Longrightarrow> xs ! j"
  by (cases "k < length xs") (auto simp: nth_list_update list_update_beyond split: if_splits)

lemma signalled_mono:
  "signalled s \<Longrightarrow> mn_running t = mn_running s \<Longrightarrow> set (mn_output s) \<subseteq> set (mn_output t) \<Longrightarrow> signalled t"
  by (auto simp: signalled_def)

lemma main_next_server: "main_next n s = Some t \<Longrightarrow> mn_server t = mn_server s \<and> mn_running t = mn_running s"
  by (auto simp: main_next_def post_stop_def server_dtor_def split: main_pc.splits if_splits)

lemma main_next_output: "main_next n s = Some t \<Longrightarrow> set (mn_output s) \<subseteq> set (mn_output t)"
  by (auto simp: main_next_def post_stop_def server_dtor_def split: main_pc.splits if_splits)

lemma main_next_pc_inv:
  assumes "main_next n s = Some t" and "main_pc_inv n s" and "mn_running s \<or> signalled s"
  shows "main_pc_inv n t"
proof (cases "mn_pc s")
  case (Joining_thread i)
  with assms show ?thesis
    by (auto simp: main_next_def main_pc_inv_def joined_def signalled_def farewell_def less_Suc_eq split: if_splits)
qed (use assms in \<open>auto simp: main_next_def main_pc_inv_def joined_def signalled_def farewell_def post_stop_def
    server_dtor_def split: if_splits\<close>)

text \<open>Threads and signals leave \<open>main\<close> where it is and take nothing back, unless the process aborts.\<close>

lemma pc_inv_stable:
  assumes "main_pc_inv n s" and "mn_pc t = mn_pc s" and "mn_running s \<longrightarrow> \<not> signalled s"
    and "signalled s \<longrightarrow> signalled t" and "set (mn_output s) \<subseteq> set (mn_output t)"
    and "mn_stopped s \<longrightarrow> mn_stopped t" and "mn_threads t = mn_threads s \<or> (\<exists>k. mn_threads t = (mn_threads s)[k := False])"
  shows "main_pc_inv n t"
  using assms by (auto simp: main_pc_inv_def joined_def farewell_def dest!: upd_False split: main_pc.splits)

lemma run_event_frame:
  assumes "run_event api pf e s = Some t"
  shows "mn_pc t = mn_pc s \<or> (\<exists>f. mn_pc t = Aborted f)" "mn_running t = mn_running s" "mn_threads t = mn_threads s"
    "mn_stopped t = mn_stopped s" "set (mn_output s) \<subseteq> set (mn_output t)"
  using assms
  by (cases e; auto simp: map_option_eq_Some simp del: sm_exec.simps split: option.splits sum.splits if_splits)+

text \<open>What the threads do to the server are steps of the server under its locks.\<close>

lemma run_event_server:
  assumes "run_event api pf e s = Some t"
  shows "mn_server t = mn_server s \<or> locked_server_step False api pf (\<lambda>_. True) (mn_server s) (mn_server t)"
proof (cases e)
  case (Accepted host port r)
  then have on: "sv_accepting (ls_server (mn_server s))" "sv_open (ls_server (mn_server s)) \<or> r = Accept_aborted"
    and t: "mn_server t = (mn_server s)\<lparr>ls_server := accept_turn (map_accept_result Reading r) (ls_server (mn_server s))\<rparr>"
    using assms by (auto simp: accept_ready_def)
  show ?thesis
  proof (cases "sv_open (ls_server (mn_server s))")
    case True
    from ls_accepted [OF on(1) this, of r "\<lambda>_. True"] show ?thesis by (simp add: t)
  next
    case False
    with ls_aborted [OF on(1) this] on(2) show ?thesis by (simp add: t del: accept_turn.simps)
  qed
next
  case (Turn i)
  with assms show ?thesis by (auto simp: turn_ready_def split: if_splits option.splits sum.splits intro: ls_turn)
next
  case (Wake_round n)
  with assms show ?thesis by (auto simp: map_option_eq_Some simp del: sm_exec.simps intro: ls_wakes)
next
  case (Close_acceptor ok)
  with assms show ?thesis by (auto intro: ls_stopped)
qed

text \<open>So the server of a running process is one that \<open>locked_server_step\<close> reaches.\<close>

definition server_launched :: "'k locked_server_t \<Rightarrow> bool" where
  "server_launched L \<longleftrightarrow> (\<exists>files. L = locked_server_start files)"

lemma main_step_server:
  assumes "main_step api pf n s t"
  shows "(locked_server_step False api pf (\<lambda>_. True))\<^sup>*\<^sup>* (mn_server s) (mn_server t)"
  using assms
proof (cases rule: main_step.cases)
  case main_runs
  from main_next_server [OF main_runs] show ?thesis by simp
next
  case (thread_works i e)
  from run_event_server [OF thread_works(3)] show ?thesis by auto
qed (simp_all add: signal_handler_def)

lemma main_init_server: "main_init can_bind pf s \<Longrightarrow> server_launched (mn_server s)"
  by (auto simp: main_init_def main_start_def server_launched_def result_simps)

interpretation process: forward_simulation "main_init can_bind pf" "main_step api pf n" server_launched
    "locked_server_step False api pf (\<lambda>_. True)" "\<lambda>s L. L = mn_server s" for can_bind pf api n
  by unfold_locales (use main_init_server main_step_server in blast)+

lemma not_running_signalled: "signalled s \<Longrightarrow> \<not> mn_running s"
  by (simp add: signalled_def)

lemma main_inv_step:
  assumes inv: "main_inv n s" and step: "main_step api pf n s t"
  shows "main_inv n t"
  using step
proof (cases rule: main_step.cases)
  case main_runs
  then show ?thesis
    using inv main_next_pc_inv [OF main_runs] main_next_server [OF main_runs]
      signalled_mono [OF _ _ main_next_output [OF main_runs]]
    by (auto simp: main_inv_def)
next
  case (signal_arrives signal)
  have sig: "signalled t" by (auto simp: signal_arrives signal_handler_def signalled_def)
  have "main_pc_inv n t"
    by (rule pc_inv_stable [of n s]) (use inv sig in \<open>auto simp: main_inv_def signal_arrives signal_handler_def not_running_signalled\<close>)
  with inv sig show ?thesis by (simp add: main_inv_def signal_arrives signal_handler_def)
next
  case (thread_works i e)
  note fr = run_event_frame [OF thread_works(3)]
  have sig: "signalled s \<Longrightarrow> signalled t" using fr by (auto intro: signalled_mono)
  have "main_pc_inv n t"
  proof (cases "mn_pc t = mn_pc s")
    case True
    show ?thesis
      by (rule pc_inv_stable [of n s]) (use True inv sig fr in \<open>auto simp: main_inv_def not_running_signalled\<close>)
  next
    case False
    with fr(1) show ?thesis by (auto simp: main_pc_inv_def)
  qed
  then show ?thesis using inv sig fr(2) by (auto simp: main_inv_def)
next
  case (thread_returns i)
  have sig: "signalled s \<Longrightarrow> signalled t" by (simp add: thread_returns signalled_def)
  have "main_pc_inv n t"
    by (rule pc_inv_stable [of n s]) (use inv sig in \<open>auto simp: main_inv_def thread_returns not_running_signalled\<close>)
  with inv sig show ?thesis by (auto simp: main_inv_def thread_returns)
qed

interpretation mn: invariant_system "main_init can_bind pf" "main_step api pf n" "main_inv n" for can_bind pf api n
  by unfold_locales (erule main_inv_init, erule (1) main_inv_step)

subsection \<open>Shutting down\<close>

text \<open>
  The steps that the shutdown is made of: the statements of \<open>main\<close>, and threads that leave the
  stopped context.
\<close>

inductive shutdown_step :: "nat \<Rightarrow> 'k main_t \<Rightarrow> 'k main_t \<Rightarrow> bool" for n where
  shutdown_main: "main_next n s = Some t \<Longrightarrow> shutdown_step n s t"
| shutdown_thread: "thread_running i s \<Longrightarrow> mn_stopped s \<Longrightarrow>
    shutdown_step n s (s\<lparr>mn_threads := (mn_threads s)[i := False], mn_stopped := True\<rparr>)"

text \<open>How many of them are left, once \<open>running\<close> is false.\<close>

definition shutdown_left :: "nat \<Rightarrow> 'k main_t \<Rightarrow> nat" where
  "shutdown_left n s = count_list (mn_threads s) True +
     (case mn_pc s of
        Starting_thread i \<Rightarrow> 2 * (n - i) + n + 6
      | Polling \<Rightarrow> n + 5
      | Stopping_server \<Rightarrow> n + 4
      | Stopping_context \<Rightarrow> n + 3
      | Joining_thread i \<Rightarrow> (n - i) + 2
      | Leaving \<Rightarrow> 1
      | _ \<Rightarrow> 0)"

lemma shutdown_step_main_step: "shutdown_step n s t \<Longrightarrow> main_step api pf n s t"
  by (erule shutdown_step.cases) (auto intro: main_runs thread_returns)

lemma count_list_clear: "i < length xs \<Longrightarrow> xs ! i \<Longrightarrow> count_list (xs[i := False]) True < count_list xs True"
proof (induction xs arbitrary: i)
  case Nil
  then show ?case by simp
next
  case (Cons x xs)
  then show ?case by (cases i) auto
qed

lemma shutdown_step_decreases:
  assumes "shutdown_step n s t" and "main_pc_inv n s" and "\<not> mn_running s"
  shows "shutdown_left n t < shutdown_left n s"
  using assms(1)
proof (cases rule: shutdown_step.cases)
  case shutdown_main
  then show ?thesis
    using assms(2,3)
    by (auto simp: main_next_def shutdown_left_def main_pc_inv_def joined_def post_stop_def server_dtor_def
        split: main_pc.splits if_splits)
next
  case (shutdown_thread i)
  then show ?thesis by (simp add: shutdown_left_def thread_running_def count_list_clear)
qed

lemma shutdown_step_enabled:
  assumes "main_pc_inv n s" and "process_alive s"
  shows "\<exists>t. shutdown_step n s t"
proof (cases "main_next n s")
  case (Some t)
  then show ?thesis by (blast intro: shutdown_main)
next
  case None
  with assms obtain i where "mn_pc s = Joining_thread i" "i < length (mn_threads s)" "mn_threads s ! i"
    by (auto simp: main_next_def process_alive_def split: main_pc.splits if_splits)
  with assms have "thread_running i s" "mn_stopped s"
    by (auto simp: thread_running_def main_pc_inv_def joined_def)
  then show ?thesis by (blast intro: shutdown_thread)
qed

lemma shutdown_step_alive:
  assumes "shutdown_step n s t" and "process_alive s"
  shows "process_alive t \<or> (\<exists>code. mn_pc t = Returned code)"
  using assms(1)
proof (cases rule: shutdown_step.cases)
  case shutdown_main
  then show ?thesis by (auto simp: main_next_def process_alive_def split: main_pc.splits if_splits)
next
  case (shutdown_thread i)
  with assms(2) show ?thesis by (simp add: process_alive_def)
qed

lemma shutdown_step_running: "shutdown_step n s t \<Longrightarrow> mn_running t = mn_running s"
  by (erule shutdown_step.cases) (auto dest: main_next_server)

lemma shutdown_returns:
  assumes "main_inv n s" and "\<not> mn_running s" and "process_alive s"
  shows "\<exists>t. (shutdown_step n)\<^sup>*\<^sup>* s t \<and> mn_pc t = Returned 0"
  using assms
proof (induction "shutdown_left n s" arbitrary: s rule: less_induct)
  case less
  have pc: "main_pc_inv n s" using less.prems(1) by (simp add: main_inv_def)
  from shutdown_step_enabled [OF pc less.prems(3)] obtain t where t: "shutdown_step n s t" by blast
  have inv: "main_inv n t"
    using main_inv_step [OF less.prems(1) shutdown_step_main_step [OF t]] .
  have off: "\<not> mn_running t" using shutdown_step_running [OF t] less.prems(2) by simp
  from shutdown_step_alive [OF t less.prems(3)] show ?case
  proof
    assume "process_alive t"
    from less.hyps [OF shutdown_step_decreases [OF t pc less.prems(2)] inv off this] t show ?thesis
      by (blast intro: converse_rtranclp_into_rtranclp)
  next
    assume "\<exists>code. mn_pc t = Returned code"
    with inv have "mn_pc t = Returned 0" by (auto simp: main_inv_def main_pc_inv_def)
    with t show ?thesis by blast
  qed
qed

text \<open>
  The shutdown waits for no request: every state of the server, in the middle of any number of
  requests, with their locks held and their answers not sent, is one that \<open>main\<close> can return from
  with exit code 0.
\<close>

lemma shutdown_server: "(shutdown_step n)\<^sup>*\<^sup>* s t \<Longrightarrow> mn_server t = mn_server s"
  by (induction rule: rtranclp_induct) (auto elim!: shutdown_step.cases dest: main_next_server)

lemma shutdown_abandons_requests:
  assumes "reachable (main_init can_bind pf) (main_step api pf n) s" and "process_alive s"
  obtains t where "reachable (main_init can_bind pf) (main_step api pf n) t"
    and "mn_pc t = Returned 0" and "mn_server t = mn_server s"
proof -
  let ?s = "signal_handler 15 s"
  have r: "reachable (main_init can_bind pf) (main_step api pf n) ?s"
    by (rule reachable.next_state [OF assms(1) signal_arrives [OF assms(2)]])
  have "main_inv n ?s" by (rule mn.reachable_inv [OF r])
  from shutdown_returns [OF this] assms(2) obtain t where t: "(shutdown_step n)\<^sup>*\<^sup>* ?s t" "mn_pc t = Returned 0"
    by (auto simp: signal_handler_def process_alive_def)
  have "(main_step api pf n)\<^sup>*\<^sup>* ?s t"
    using t(1) by (rule rtranclp_mono [THEN predicate2D, rotated]) (auto intro: shutdown_step_main_step)
  from that [OF reachable_steps [OF this r] t(2)] shutdown_server [OF t(1)] show thesis
    by (simp add: signal_handler_def)
qed


subsection \<open>A server whose peer leaves early\<close>

definition main_demo :: "'k main_t" where
  "main_demo = \<lparr>mn_pc = Starting_thread 0, mn_running = True,
     mn_output = [println ''[SERVER] RPC server listening on port {}'' [Number 8080]],
     mn_port = 8080, mn_server = locked_server_start Map.empty, mn_stopped = False, mn_posted = 0,
     mn_threads = []\<rparr>"

lemma main_demo_init: "malloc_sound (pf_malloc pf) \<Longrightarrow> main_init (\<lambda>_. True) pf main_demo"
  unfolding main_init_def main_start_def server_port_def main_demo_def
  by (auto intro!: exI [of _ "[]"] exI [of _ Map.empty])

lemma main_starts_threads:
  assumes "malloc_sound (pf_malloc pf)"
  shows "i \<le> n \<Longrightarrow> reachable (main_init (\<lambda>_. True) pf) (main_step api pf n)
     ((main_demo :: 'k main_t)\<lparr>mn_pc := Starting_thread i, mn_threads := replicate i True\<rparr>)"
proof (induction i)
  case 0
  have "(main_demo :: 'k main_t)\<lparr>mn_pc := Starting_thread 0, mn_threads := []\<rparr> = main_demo" by (simp add: main_demo_def)
  then show ?case using reachable.start [of "main_init (\<lambda>_. True) pf", OF main_demo_init [OF assms]] by simp
next
  case (Suc i)
  have "main_next n ((main_demo :: 'k main_t)\<lparr>mn_pc := Starting_thread i, mn_threads := replicate i True\<rparr>) =
      Some (main_demo\<lparr>mn_pc := Starting_thread (Suc i), mn_threads := replicate (Suc i) True\<rparr>)"
    using Suc.prems by (simp add: main_next_def replicate_append_same)
  from reachable.next_state [OF Suc.IH main_runs [OF this]] Suc.prems show ?case by simp
qed

text \<open>The server polls, its accept loop has ended, and \<open>k\<close> of its threads have returned.\<close>

definition deserted :: "nat \<Rightarrow> nat \<Rightarrow> 'k main_t" where
  "deserted n k = (main_demo :: 'k main_t)\<lparr>mn_pc := Polling,
     mn_output := mn_output (main_demo :: 'k main_t) @ [started_line 8080 n, eprintln ''[SERVER] Accept error: {}'' [Exception_text]],
     mn_server := (mn_server (main_demo :: 'k main_t))\<lparr>ls_server :=
       accept_turn (Connected_no_endpoint (Reading undefined)) (ls_server (mn_server (main_demo :: 'k main_t)))\<rparr>, mn_stopped := 0 < k,
     mn_threads := replicate k False @ replicate (n - k) True\<rparr>"

lemma deserted_reached:
  assumes "malloc_sound (pf_malloc pf)" and "1 \<le> n"
  shows "k \<le> n \<Longrightarrow> reachable (main_init (\<lambda>_. True) pf) (main_step api pf n) (deserted n k :: 'k main_t)"
proof (induction k)
  case 0
  let ?s1 = "(main_demo :: 'k main_t)\<lparr>mn_pc := Starting_thread n, mn_threads := replicate n True\<rparr>"
  let ?s2 = "?s1\<lparr>mn_pc := Polling, mn_output := mn_output (main_demo :: 'k main_t) @ [started_line 8080 n]\<rparr>"
  have "main_next n ?s1 = Some ?s2" by (simp add: main_next_def main_demo_def)
  from reachable.next_state [OF main_starts_threads [OF assms(1)] main_runs [OF this], of api]
  have r: "reachable (main_init (\<lambda>_. True) pf) (main_step api pf n) ?s2" by simp
  have d: "run_event api pf (Accepted [] 0 (Connected_no_endpoint undefined)) ?s2 = Some (deserted n 0)"
    by (simp add: deserted_def main_demo_def accept_ready_def locked_server_start_def server_start_def server_ctor_def)
  show ?case
    by (rule reachable.next_state [OF r], rule thread_works [OF _ _ d, of 0])
      (use assms(2) in \<open>simp_all add: thread_running_def process_alive_def main_demo_def\<close>)
next
  case (Suc k)
  then have r: "reachable (main_init (\<lambda>_. True) pf) (main_step api pf n) (deserted n k)" by simp
  obtain j where j: "n - k = Suc j" "n - Suc k = j" using Suc.prems by (cases "n - k") auto
  have up: "(replicate k False @ replicate (n - k) True)[k := False] = replicate (Suc k) False @ replicate (n - Suc k) True"
    unfolding j by (simp add: list_update_append replicate_app_Cons_same)
  have d: "deserted n (Suc k) = (deserted n k :: 'k main_t)\<lparr>mn_threads := (mn_threads (deserted n k :: 'k main_t))[k := False], mn_stopped := True\<rparr>"
    using up by (simp add: deserted_def)
  have "thread_running k (deserted n k :: 'k main_t)"
    using Suc.prems by (simp add: thread_running_def process_alive_def deserted_def nth_append)
  moreover have "out_of_work (deserted n k :: 'k main_t)"
    by (simp add: out_of_work_def deserted_def main_demo_def locked_server_start_def server_start_def server_ctor_def)
  ultimately have "main_step api pf n (deserted n k) (deserted n (Suc k))"
    unfolding d by (intro thread_returns) auto
  then show ?case by (rule reachable.next_state [OF r])
qed

subsection \<open>Properties\<close>

text \<open>
  C22: the server returns when it is told to and not before. If \<open>main\<close> has returned, then its exit
  code is 0, a signal had arrived and was reported, all threads were joined and the end was
  reported; and before that, \<open>main\<close> is past its polling loop only if a signal had arrived. It says
  nothing about the requests under way, which \<open>io_ctx.stop()\<close> abandons where they are.
\<close>

theorem main_returns_after_signal:
  assumes "reachable (main_init can_bind pf) (main_step api pf n) s"
  shows "(mn_pc s = Returned code \<longrightarrow> code = 0 \<and> \<not> mn_running s
       \<and> (\<exists>signal. signal_line signal \<in> set (mn_output s)) \<and> stopped_line \<in> set (mn_output s)
       \<and> length (mn_threads s) = n \<and> True \<notin> set (mn_threads s))
     \<and> (mn_pc s \<in> {Stopping_server, Stopping_context, Joining_thread i, Leaving} \<longrightarrow> \<not> mn_running s
       \<and> (\<exists>signal. signal_line signal \<in> set (mn_output s)) \<and> length (mn_threads s) = n)"
  using mn.reachable_inv [OF assms]
  by (auto simp: main_inv_def main_pc_inv_def joined_def signalled_def farewell_def in_set_conv_nth)


lemma main_demo_signalled:
  "reachable (main_init (\<lambda>_. True) demo_platform) (main_step pair_socket demo_platform 2) (signal_handler 15 main_demo)"
  by (rule reachable.next_state, rule reachable.start, rule main_demo_init)
    (auto intro!: signal_arrives simp: process_alive_def main_demo_def demo_platform_def small_malloc_sound)


theorem main_returns_after_signal_witness:
  "\<exists>s :: (byte list \<times> byte list) main_t. mn_pc s = Returned 0 \<and> stopped_line \<in> set (mn_output s)
     \<and> length (mn_threads s) = 2 \<and> True \<notin> set (mn_threads s)"
proof -
  let ?s = "signal_handler 15 (main_demo :: (byte list \<times> byte list) main_t)"
  have "main_inv 2 ?s" by (rule mn.reachable_inv [OF main_demo_signalled])
  from shutdown_returns [OF this] obtain t where t: "(shutdown_step 2)\<^sup>*\<^sup>* ?s t" "mn_pc t = Returned 0"
    by (auto simp: signal_handler_def process_alive_def main_demo_def)
  have "(main_step pair_socket demo_platform 2)\<^sup>*\<^sup>* ?s t"
    using t(1) by (rule rtranclp_mono [THEN predicate2D, rotated]) (auto intro: shutdown_step_main_step)
  then have "reachable (main_init (\<lambda>_. True) demo_platform) (main_step pair_socket demo_platform 2) t"
    by (rule reachable_steps [OF _ main_demo_signalled])
  from main_returns_after_signal [OF this, of 0] t(2) show ?thesis by blast
qed

text \<open>
  C25: a server can outlive its work. Whatever the number of threads, after one peer that left
  before \<open>remote_endpoint()\<close> was asked for, a state is reachable in which all threads have
  returned from \<open>io_ctx.run()\<close>, the acceptor is still open, no signal has arrived, and the
  process does nothing but poll \<open>running\<close>: no step but a signal changes anything.
\<close>

theorem main_outlives_its_threads:
  assumes "malloc_sound (pf_malloc pf)" and "1 \<le> n"
  shows "\<exists>s :: 'k main_t. reachable (main_init (\<lambda>_. True) pf) (main_step api pf n) s
     \<and> mn_pc s = Polling \<and> mn_running s \<and> sv_open (ls_server (mn_server s)) \<and> length (mn_threads s) = n \<and> True \<notin> set (mn_threads s)
     \<and> (\<forall>t. main_step api pf n s t \<longrightarrow> t = s \<or> (\<exists>signal. t = signal_handler signal s))"
proof -
  let ?s = "deserted n n :: 'k main_t"
  have "t = ?s \<or> (\<exists>signal. t = signal_handler signal ?s)" if "main_step api pf n ?s t" for t
    using that
    by (cases rule: main_step.cases)
      (auto simp: main_next_def thread_running_def nth_append deserted_def main_demo_def)
  moreover have "mn_pc ?s = Polling \<and> mn_running ?s \<and> sv_open (ls_server (mn_server ?s)) \<and> length (mn_threads ?s) = n
      \<and> True \<notin> set (mn_threads ?s)"
    by (auto simp: deserted_def main_demo_def locked_server_start_def server_start_def server_ctor_def)
  ultimately show ?thesis using deserted_reached [OF assms, of n] by blast
qed

theorem main_outlives_its_threads_witness:
  "\<exists>s :: (byte list \<times> byte list) main_t. mn_pc s = Polling \<and> mn_running s
     \<and> length (mn_threads s) = 8 \<and> True \<notin> set (mn_threads s)"
proof -
  have "malloc_sound (pf_malloc demo_platform)" by (simp add: demo_platform_def small_malloc_sound)
  from main_outlives_its_threads [OF this, of 8 pair_socket] show ?thesis by auto
qed

text \<open>
  A port number is accepted whatever its size. The server's port is the decimal argument
  modulo 65536, without a diagnosis; without an argument it is 8080.
\<close>

lemma server_port_truncates:
  assumes "list_all is_digit ds" and "digits_value ds < 2 ^ 31"
  shows "(\<exists>p. server_port [prog, ds] = Inr p \<and> uint p = digits_value ds mod 2 ^ 16)
     \<and> server_port [prog] = Inr 8080"
  using atoi_digits [OF assms digits_value_nonneg]
  by (simp add: server_port_def to_u16_def uint_word_of_int)

lemma server_port_truncates_witness:
  "\<exists>p. server_port [lit ''noctua'', lit ''73616''] = Inr p \<and> uint p = 8080"
proof -
  have "list_all is_digit (lit ''73616'')" "digits_value (lit ''73616'') = 73616"
    by (simp_all add: lit_def is_digit_def digits_value_def)
  with server_port_truncates [of "lit ''73616''" "lit ''noctua''"] show ?thesis by simp
qed

end
