(* ===== verification/ServerMemory.thy ===== *)
theory ServerMemory
  imports LockedServerProps
begin

section \<open>What the server keeps of the messages\<close>

text \<open>
  The messages in the topics and the cells on the heap, in the calm runs of the server under its
  locks: nothing that was pushed is lost but by a removal, and the heap holds one cell for each
  message that is stored and no other. Outside the calm runs the first of these fails
  (\<open>LostMessage\<close>).
\<close>

subsection \<open>Counting messages and cells\<close>

definition stored_total :: "broker \<Rightarrow> nat" where
  "stored_total B = (\<Sum>n\<in>dom B. length (messages_of B n))"

text \<open>An event that puts a message into a topic, or takes one out.\<close>

fun stores :: "event \<Rightarrow> bool" where
  "stores (Pushed n m) = True"
| "stores e = False"

fun discards :: "event \<Rightarrow> bool" where
  "discards (Removed n m b) = b"
| "discards e = False"

lemma stored_total_update:
  assumes "finite (dom B)" and "B n = Some q"
  shows "stored_total (B(n \<mapsto> q')) + length q = stored_total B + length q'"
proof -
  have d: "dom (B(n \<mapsto> q')) = dom B" "n \<in> dom B" using assms(2) by auto
  have "(\<Sum>m\<in>dom B - {n}. length (messages_of (B(n \<mapsto> q')) m)) = (\<Sum>m\<in>dom B - {n}. length (messages_of B m))"
    by (rule sum.cong [OF refl]) (simp add: messages_of_def)
  then have "stored_total (B(n \<mapsto> q')) = length q' + (\<Sum>m\<in>dom B - {n}. length (messages_of B m))"
    using sum.remove [OF assms(1) d(2), of "\<lambda>m. length (messages_of (B(n \<mapsto> q')) m)"]
    unfolding stored_total_def d(1) by (simp add: messages_of_def)
  moreover have "stored_total B = length q + (\<Sum>m\<in>dom B - {n}. length (messages_of B m))"
    using sum.remove [OF assms(1) d(2), of "\<lambda>m. length (messages_of B m)"] assms(2)
    by (simp add: stored_total_def messages_of_def)
  ultimately show ?thesis by simp
qed

lemma stored_total_created:
  assumes "finite (dom B)" and "B n = None"
  shows "stored_total (B(n \<mapsto> [])) = stored_total B"
proof -
  have "n \<notin> dom B" using assms(2) by auto
  then have "stored_total (B(n \<mapsto> [])) = (\<Sum>m\<in>dom B. length (messages_of (B(n \<mapsto> [])) m))"
    using assms(1) by (simp add: stored_total_def messages_of_def)
  also have "\<dots> = stored_total B"
    unfolding stored_total_def by (rule sum.cong) (use assms(2) in \<open>auto simp: messages_of_def\<close>)
  finally show ?thesis .
qed

lemma effect_total:
  assumes "effect B e = Some B'" and "finite (dom B)"
  shows "finite (dom B') \<and> stored_total B' + length (filter discards [e]) = stored_total B + length (filter stores [e])"
proof (cases e)
  case (Created n)
  with assms show ?thesis by (auto simp: stored_total_created split: if_splits)
next
  case (Pushed n m)
  with assms obtain q where q: "B n = Some q" "B' = B(n \<mapsto> q @ [m])" by (auto split: option.splits)
  from stored_total_update [OF assms(2) q(1), of "q @ [m]"] assms(2) show ?thesis by (simp add: Pushed q)
next
  case (Removed n m b)
  with assms obtain m' ms where q: "B n = Some (m' # ms)" "B' = (if b then B(n \<mapsto> ms) else B)"
    by (auto split: option.splits list.splits if_splits)
  from stored_total_update [OF assms(2) q(1), of ms] assms(2) show ?thesis by (simp add: Removed q)
qed (use assms in \<open>auto split: option.splits list.splits if_splits\<close>)

lemma run_history_total:
  "run_history B es = Some B' \<Longrightarrow> finite (dom B) \<Longrightarrow>
     finite (dom B') \<and> stored_total B' + length (filter discards es) = stored_total B + length (filter stores es)"
proof (induction es arbitrary: B)
  case (Cons e es)
  then obtain B1 where B1: "effect B e = Some B1" "run_history B1 es = Some B'" by (auto split: option.splits)
  note first = effect_total [OF B1(1) Cons.prems(2)]
  from Cons.IH [OF B1(2)] first show ?case by (auto split: if_splits)
qed simp

text \<open>A well-formed world has as many cells as messages.\<close>

lemma topic_cells:
  assumes wf: "world_wf W" and T: "registry_find n W = Some T"
  shows "finite (topic_addrs (wo_env W, T))" and "card (topic_addrs (wo_env W, T)) = length (messages_of (world_abs W) n)"
proof -
  obtain p where p: "tp_storage T = [p]" using world_wfD(3) [OF wf T] by (cases "tp_storage T") auto
  then have cells: "topic_addrs (wo_env W, T) = set (mq_addrs (en_heap (wo_env W)) (pt_queue p))"
    by (simp add: topic_addrs_def storage_addrs_def pt_addrs_def)
  have "mq_wf (en_heap (wo_env W)) (pt_queue p)"
    using world_wfD(1) [OF wf T] p by (simp add: topic_wf_def storage_wf_def)
  then have "distinct (mq_addrs (en_heap (wo_env W)) (pt_queue p))" unfolding mq_wf_def by (rule mq_rel_distinct)
  moreover have "messages_of (world_abs W) n = mq_abs (en_heap (wo_env W)) (pt_queue p)"
    using world_wfD(5) [OF wf T] p by (simp add: messages_of_def topic_abs_def storage_abs_def)
  ultimately show "finite (topic_addrs (wo_env W, T))"
    "card (topic_addrs (wo_env W, T)) = length (messages_of (world_abs W) n)"
    by (simp_all add: cells distinct_card mq_abs_def)
qed

lemma world_cells:
  assumes wf: "world_wf W" and "finite (dom (world_abs W))"
  shows "finite (dom (en_heap (wo_env W)))" and "card (dom (en_heap (wo_env W))) = stored_total (world_abs W)"
proof -
  let ?cells = "\<lambda>n. topic_addrs (wo_env W, the (registry_find n W))"
  have found: "registry_find n W = Some (the (registry_find n W))" if "n \<in> dom (world_abs W)" for n
    using that by (cases "registry_find n W") (auto simp: world_abs_def)
  have all: "dom (en_heap (wo_env W)) = (\<Union>n\<in>dom (world_abs W). ?cells n)"
  proof (rule set_eqI, rule iffI)
    fix a assume "a \<in> dom (en_heap (wo_env W))"
    then have "en_heap (wo_env W) a \<noteq> None" by auto
    then obtain n T where "registry_find n W = Some T" "a \<in> topic_addrs (wo_env W, T)" by (rule world_wf_owner [OF wf])
    then show "a \<in> (\<Union>n\<in>dom (world_abs W). ?cells n)" by (auto simp: world_abs_def intro!: bexI [of _ n])
  next
    fix a assume "a \<in> (\<Union>n\<in>dom (world_abs W). ?cells n)"
    then obtain n where "n \<in> dom (world_abs W)" "a \<in> ?cells n" by blast
    then have "en_heap (wo_env W) a \<noteq> None"
      using topic_addrs_live [OF world_wfD(1) [OF wf found]] by blast
    then show "a \<in> dom (en_heap (wo_env W))" by auto
  qed
  have disj: "?cells n \<inter> ?cells m = {}" if "n \<in> dom (world_abs W)" "m \<in> dom (world_abs W)" "n \<noteq> m" for n m
    using world_wf_disjoint [OF wf that(3) found [OF that(1)] found [OF that(2)]] .
  note fin = topic_cells(1) [OF wf found]
  show "finite (dom (en_heap (wo_env W)))" unfolding all using assms(2) fin by blast
  have "card (dom (en_heap (wo_env W))) = (\<Sum>n\<in>dom (world_abs W). card (?cells n))"
    unfolding all by (rule card_UN_disjoint [OF assms(2)]) (use fin disj in blast)+
  also have "\<dots> = stored_total (world_abs W)"
    unfolding stored_total_def by (rule sum.cong [OF refl]) (rule topic_cells(2) [OF wf found])
  finally show "card (dom (en_heap (wo_env W))) = stored_total (world_abs W)" .
qed

text \<open>A calm run at whose end one client's push is done.\<close>

lemma demo_stored:
  obtains s where "reachable (locked_server_init pair_socket fst snd demo_platform no_output)
       (locked_server_step True pair_socket demo_platform no_output) s"
    and "map snd (ls_history s) = [Created (lit ''t''), Pushed (lit ''t'') (lit ''m'')]"
proof -
  obtain k W where "demo_reachable (two_sessions (Answering k (ok_response demo_platform (opcode_value PUSH))) (Reading ([], [])) W,
      [(0, Created (lit ''t'')), (0, Pushed (lit ''t'') (lit ''m''))])"
    by (rule demo_push_done)
  from parked_reachable [OF this [unfolded demo_reachable_def]] show thesis by (rule that) (simp add: parked_def)
qed

subsection \<open>Properties\<close>

text \<open>
  C11: messages are neither lost nor invented nor reordered in the calm runs of the server under its
  locks, those in which no writer is let in in the middle of a wake-up loop, with any number of
  sessions waiting at the mutexes of any number of topics. What was pushed to a topic, in
  the order of the pushes, is what was removed from it, in the order of the removals, followed
  by what it holds; and a message that a PULL returned was the oldest one not yet removed at
  that moment. In a run that is not calm a message can be lost, as \<open>server_loses_message\<close> shows.
\<close>

theorem topic_loses_nothing:
  assumes "reachable (locked_server_init api inp out pf fresh) (locked_server_step True api pf fresh) s"
  shows "pushes n (map snd (ls_history s)) =
       removals n (map snd (ls_history s)) @ messages_of (world_abs (sv_world (ls_server s))) n
     \<and> (\<forall>h1 i m h2. ls_history s = h1 @ (i, Fetched n (Some m)) # h2 \<longrightarrow>
          (\<exists>ms. pushes n (map snd h1) = removals n (map snd h1) @ m # ms))"
  by (rule sections_lose_nothing [OF calm_server_inv(2) [OF assms]])

theorem topic_loses_nothing_witness:
  "\<exists>s. reachable (locked_server_init pair_socket fst snd demo_platform no_output)
       (locked_server_step True pair_socket demo_platform no_output) s
     \<and> map snd (ls_history s) = [Created (lit ''t''), Pushed (lit ''t'') (lit ''m'')]
     \<and> messages_of (world_abs (sv_world (ls_server s))) (lit ''t'') = [lit ''m'']"
proof -
  obtain s where s: "reachable (locked_server_init pair_socket fst snd demo_platform no_output)
       (locked_server_step True pair_socket demo_platform no_output) s"
    "map snd (ls_history s) = [Created (lit ''t''), Pushed (lit ''t'') (lit ''m'')]"
    by (rule demo_stored)
  from topic_loses_nothing [OF s(1), of "lit ''t''", THEN conjunct1] s show ?thesis by auto
qed

text \<open>
  C28: no cell is leaked, freed twice or shared. In every state that a calm run of the server
  under its locks reaches, in the middle of critical sections too, the live heap cells are as
  many as the messages pushed so far less those removed, and each of them belongs to exactly one
  topic. Lookup and insertion of a topic count as one step here; the race between them that
  \<open>RacingRegistry\<close> describes concerns the log files.
\<close>

theorem server_leaks_no_message:
  assumes "reachable (locked_server_init api inp out pf fresh) (locked_server_step True api pf fresh) s"
  shows "finite (dom (en_heap (wo_env (sv_world (ls_server s)))))
     \<and> card (dom (en_heap (wo_env (sv_world (ls_server s))))) + length (filter discards (map snd (ls_history s)))
         = length (filter stores (map snd (ls_history s)))
     \<and> (en_heap (wo_env (sv_world (ls_server s))) a \<noteq> None \<longleftrightarrow>
         (\<exists>!name. \<exists>T. registry_find name (sv_world (ls_server s)) = Some T
            \<and> a \<in> topic_addrs (wo_env (sv_world (ls_server s)), T)))"
proof -
  let ?W = "sv_world (ls_server s)"
  have wf: "world_wf ?W" and run: "run_history Map.empty (map snd (ls_history s)) = Some (world_abs ?W)"
    using calm_server_inv(3) [OF assms] by (simp_all add: interleaved_inv_def)
  have total: "finite (dom (world_abs ?W))"
    "stored_total (world_abs ?W) + length (filter discards (map snd (ls_history s))) = length (filter stores (map snd (ls_history s)))"
    using run_history_total [OF run] by (simp_all add: stored_total_def)
  have one: "n = m" if "registry_find n ?W = Some T" "a \<in> topic_addrs (wo_env ?W, T)"
    "registry_find m ?W = Some U" "a \<in> topic_addrs (wo_env ?W, U)" for n m T U
    using world_wf_disjoint [OF wf _ that(1,3)] that(2,4) by blast
  have "en_heap (wo_env ?W) a \<noteq> None \<longleftrightarrow> (\<exists>!name. \<exists>T. registry_find name ?W = Some T \<and> a \<in> topic_addrs (wo_env ?W, T))"
  proof
    assume "en_heap (wo_env ?W) a \<noteq> None"
    then obtain n T where "registry_find n ?W = Some T" "a \<in> topic_addrs (wo_env ?W, T)" by (rule world_wf_owner [OF wf])
    with one show "\<exists>!name. \<exists>T. registry_find name ?W = Some T \<and> a \<in> topic_addrs (wo_env ?W, T)" by blast
  next
    assume "\<exists>!name. \<exists>T. registry_find name ?W = Some T \<and> a \<in> topic_addrs (wo_env ?W, T)"
    then show "en_heap (wo_env ?W) a \<noteq> None" using world_wfD(1) [OF wf] topic_addrs_live by blast
  qed
  with total world_cells [OF wf total(1)] show ?thesis by simp
qed

theorem server_leaks_no_message_witness:
  "\<exists>s :: (byte list \<times> byte list) locked_server_t. reachable (locked_server_init pair_socket fst snd demo_platform no_output)
       (locked_server_step True pair_socket demo_platform no_output) s
     \<and> card (dom (en_heap (wo_env (sv_world (ls_server s))))) = 1"
proof -
  obtain s where s: "reachable (locked_server_init pair_socket fst snd demo_platform no_output)
       (locked_server_step True pair_socket demo_platform no_output) s"
    "map snd (ls_history s) = [Created (lit ''t''), Pushed (lit ''t'') (lit ''m'')]"
    by (rule demo_stored)
  from server_leaks_no_message [OF s(1), of 0] s show ?thesis by auto
qed

end
