(* ===== verification/Spec2Isabelle.thy ===== *)
theory Spec2Isabelle
  imports ProducerConsumer Iterators RacingRegistry SessionLines ShellSession ServerMain ServerMemory
begin

text \<open>
  Noctua is a message broker: a TCP server with named topics, each with partitions that are
  queues of messages, a write-ahead log per topic, and a command line client. This library
  models the whole of its own C++ code and proves what makes it correct, or shows where it
  is not. Paths below are relative to the repository's \<open>src\<close> directory.

  \<^bold>\<open>The parts and their theories.\<close>

  \<^item> \<open>Prelude\<close>: machine integers as words, \<open>fault\<close> (the undefined behaviours and aborts the
    code can reach, as values of a sum type), sequencing with \<open>rbind\<close>, reachable states.
  \<^item> \<open>Contracts\<close>: the interfaces as locales: \<open>invariant_system\<close> and \<open>lock_system\<close> for step
    relations, \<open>forward_simulation\<close> between them, \<open>fifo_queue\<close>, \<open>frame_codec\<close> and
    \<open>fixed_codec\<close>; \<open>forward_iterator\<close> is in \<open>Iterators\<close>. Each is interpreted on the model:
    \<open>um\<close> (unique mutex), \<open>sm\<close> and \<open>smc\<close> (shared mutex), \<open>tp\<close> (a topic under interleaving),
    \<open>il\<close> (fibers of sessions), \<open>lk\<close> and \<open>lp\<close> (a partition under its locks), \<open>coarse\<close> and
    \<open>fine\<close> (the server under its locks and its critical sections as steps, each simulated by the
    other), \<open>racing\<close> and \<open>unraced\<close> (the registry with and without the gap between lookup and
    insertion), \<open>busy\<close> (the locks of all topics), \<open>wal\<close> (the logs of a running server), \<open>pr\<close> and
    \<open>printed\<close> (sessions that print), \<open>mn\<close> and \<open>process\<close> (the server process, whose server makes steps of
    \<open>locked_server_step\<close>), \<open>mqs\<close> (the message queue),
    \<open>itf\<close> (its iterators),
    \<open>wall_rec\<close>, \<open>rqh\<close> and \<open>rsh\<close> (the records of the log and the two headers).
  \<^item> \<open>Message\<close>, \<open>MessageQueue\<close> (\<open>messages/message.h\<close>, \<open>messages/message-queue.h\<close>): the heap of
    messages, the 47-bit successor pointer and the 16-bit length, and the singly linked
    queue. \<open>mq_abs\<close> is the list of messages a queue stands for.
  \<^item> \<open>Iterators\<close> (\<open>messages/message-queue.h\<close>, \<open>partition.h\<close>): the iterator class with its constructors,
    conversion and operators, the overloads for constant objects, and range-based loops.
  \<^item> \<open>LockGuard\<close>, \<open>UniqueMutex\<close>, \<open>SharedMutex\<close> (\<open>common/fibers/sync-primitives\<close>): the guard
    classes, and the two mutexes as step relations over fibers. Every body under the inner
    \<open>std::mutex\<close> is one step; the loop of \<open>shared_mutex_t::unlock\<close>, which drops that mutex
    around every wake-up, is one step per round.
  \<^item> \<open>Wire\<close>, \<open>Request\<close> (\<open>common/request.h\<close>, \<open>common/kassert.h\<close>, \<open>common/constants.h\<close>): little-endian
    memory images of integers and string views, assertions, and requests as memory blocks.
  \<^item> \<open>Wall\<close> (\<open>wall/wall-header.h\<close>, \<open>wall/wall-writer.h\<close>): the log's records, their 32-byte image,
    the writer on a file system that maps paths to contents, and reading a log back.
  \<^item> \<open>Partition\<close>, \<open>Topic\<close>, \<open>TopicSpec\<close>, \<open>TopicProps\<close> (\<open>partition.h\<close>, \<open>topic.h\<close>): partitions with
    their lock, a topic's \<open>push\<close>, \<open>read\<close> and the two critical sections of \<open>remove\<close>, with all
    locking, logging and queue calls in the code's order; the refinement of lists of message
    lists; the step relation of interleaved critical sections.
  \<^item> \<open>Protocol\<close> (\<open>rpc/rpc-protocol.h\<close>): opcodes, error codes, headers and their images.
  \<^item> \<open>Registry\<close>, \<open>Session\<close> (\<open>rpc/rpc-session.h\<close>): the hash, the registry of topics, the request
    buffer, the handlers, and the session loop over a socket.
  \<^item> \<open>Broker\<close>, \<open>BrokerProps\<close>: the abstract broker, a map from names to message lists, with
    \<open>broker_step\<close> as its specification, \<open>None\<close> where the code leaves defined behaviour; the
    refinement by the handlers and by the session loop on streams of requests.
  \<^item> \<open>Terminal\<close>, \<open>Client\<close>, \<open>ClientMain\<close> (\<open>rpc/rpc-client.h\<close>, \<open>rpc-client.cpp\<close>): lines of output; framing,
    receiving, options, commands and everything the client prints.
  \<^item> \<open>Server\<close> (\<open>rpc/rpc-server.h\<close>): the server's state, its constructor, \<open>start\<close> and \<open>stop\<close>, and a turn of
    the accept loop.
  \<^item> \<open>ServerMain\<close> (\<open>main.cpp\<close>, \<open>rpc/rpc-server.h\<close>): the server process: command line, thread pool,
    signal handler, polling, shutdown, and the handlers the threads run, as a step relation. A
    handler of a session is a turn of \<open>LockedServer\<close>, so the shutdown can cut a request anywhere.
  \<^item> \<open>ResponseStream\<close>: what a session writes on any input whatsoever.
  \<^item> \<open>Fibers\<close>, \<open>Histories\<close>, \<open>Interleaving\<close>, \<open>InterleavingProps\<close> (\<open>rpc/rpc-session.h\<close>): the handlers cut
    at their suspensions. A session is an \<open>activity\<close>, \<open>fiber_step\<close> runs it to the next
    \<open>co_await\<close> and reports events; \<open>interleaved_step\<close> lets the fibers of all connections take
    turns. A round is the undisturbed run of its fiber, the events of any interleaving are a
    history of the abstract broker, and what each session writes is what its events answer.
  \<^item> \<open>SessionLines\<close> (\<open>rpc/rpc-session.h\<close>): the lines the sessions print in any interleaving, as a function of
    what they have done.
  \<^item> \<open>LockedPartition\<close> (\<open>topic.h\<close>): one partition with the real state of its lock and of \<open>wall_mutex_\<close>,
    every request, grant and release a step. Calm runs have the histories of atomic critical
    sections, a fiber alone does what \<open>Topic\<close>'s operations do, and one run loses a message.
  \<^item> \<open>PartitionProgress\<close>: the same steps, any schedule: no deadlock between the operations under
    way, and a bound on how many pieces they still take (\<open>work_left\<close>).
  \<^item> \<open>LockedServer\<close>, \<open>LockedServerRefines\<close>, \<open>LockedServerExact\<close>, \<open>LockedServerProgress\<close>, \<open>LockedServerProps\<close>
    (\<open>rpc/rpc-session.h\<close> and \<open>topic.h\<close> together): all sessions under the locks of all topics. \<open>locked_turn\<close>
    runs a session; inside an operation on a topic it goes through \<open>section_step\<close>. The calm runs are
    exactly the runs of \<open>interleaved_step\<close>, by a simulation in each direction, and in all runs
    some session inside a topic can go on, which is not to say that each gets its turn.
  \<^item> \<open>ServerMemory\<close>: messages and heap cells in the calm runs: nothing is lost but by a removal, and
    the cells are counted (\<open>stored_total\<close>).
  \<^item> \<open>WriteAheadLog\<close> (\<open>topic.h\<close>, \<open>wall/\<close>): what the log files hold while all sessions run: the history
    of each topic (\<open>log_lines\<close>), from which \<open>replay_lengths\<close> reads the lengths of its messages, and
    nothing that could tell two messages of the same length apart.
  \<^item> \<open>LostMessage\<close>: the moves of a partition are moves of a server (\<open>shows_partition\<close>); with six
    clients, from their bytes to their answers, the run that loses a message.
  \<^item> \<open>RacingRegistry\<close> (\<open>rpc/rpc-session.h\<close>): the registry as it is, with a mutex that nobody takes: other
    sessions run between the lookup of a topic and its insertion (\<open>racing_step\<close>). Up to the log files
    these runs are those of \<open>interleaved_step\<close>; one of them corrupts a log.
  \<^item> \<open>CommandLine\<close>, \<open>ProducerConsumer\<close>, \<open>ShellSession\<close>: the two programs connected. A client process
    whose socket leads to a session (\<open>link_t\<close>) does what \<open>broker_step\<close> says of its command
    line, and a script of such processes sees a queue. What a server does after a fault is an
    arbitrary parameter (\<open>wreck_t\<close>).

  \<^bold>\<open>How the parts interact.\<close> A client's bytes (\<open>request_bytes\<close>) are the frames a session reads
  (\<open>session_round\<close>); the session hands a request to its handler, which finds or creates the
  topic (\<open>get_or_create_topic\<close>), builds the request block (\<open>create_request\<close>) and calls the
  topic; the topic takes the partition's lock, writes the log and changes the queue. Heap
  and file system are explicit (\<open>env_t\<close>) and shared by all topics of a \<open>world_t\<close>.

  \<^bold>\<open>What the lemmas show.\<close> Representation invariants (\<open>mq_wf\<close>, \<open>storage_wf\<close>, \<open>topic_wf\<close>,
  \<open>world_wf\<close>) are kept by every operation, each operation refines its abstract counterpart
  on every branch, and the frames (\<open>topic_frame\<close>, \<open>world_set_topic\<close>) say what is left alone.
  Safety, progress and order of the mutexes are invariants of all reachable states. The
  session loop is a \<open>partial_function\<close> in the option monad without fuel, and it is proved to
  return on every finite input. Where the code fails, a theorem exhibits the failing run.

  \<^bold>\<open>Parameters.\<close> Code that is not in the repository is an argument: the allocator
  (\<open>malloc_sound\<close>: a non-null result is fresh and has 47 bits; \<open>malloc_supply\<close>: it does not
  fail while few messages are live), whether a file can be opened, \<open>std::hash<char>\<close>, sockets
  (\<open>socket_ok\<close>: a read takes the next bytes or fails when there are too few, a write appends),
  connecting and closing, and the values of padding bytes and of uninitialised buffers.
  Each is instantiated by a concrete function in the witnesses. Bounds are those of the
  code: 1024 bytes of request buffer, 65536 of session buffer, 16-bit lengths and ids.

  \<^bold>\<open>Granularity.\<close> There are five views of concurrency, from coarse to fine. \<open>interleaved_step\<close> (and
  \<open>topic_step\<close> for one topic) interleaves the code between two suspensions, with a critical section of
  a partition as one step; \<open>racing_step\<close> lets other sessions run between the lookup and the
  insertion of a topic; \<open>locked_server_step\<close> splits the critical sections of all topics at their
  locks, and \<open>locked_step\<close> those of one partition; \<open>sm_step\<close> and \<open>um_step\<close> are the bodies under the
  inner mutexes of the locks themselves. \<open>session_round\<close> and the handlers that it calls, and the
  operations in \<open>Topic\<close>, are the sequential view of one session or fiber that nobody disturbs.

  A run is calm if no writer is given a partition's mutex while a thread is in the middle of the
  loop in which \<open>shared_mutex_t::unlock\<close> wakes readers. The loop calls \<open>fn()\<close>, which resumes the woken
  reader on the spot, so that it reads and releases before the loop goes on; this is calm, and
  so is any coming and going of readers. That a critical section may be taken as one step is what
  \<open>interleaving_is_calm_server\<close> proves for calm runs, on the invariants of the mutexes and of one
  partition: what is proved of \<open>interleaved_step\<close> holds of them. The code does not exclude the
  other runs: \<open>sm_exclusion_broken\<close> and \<open>server_loses_message\<close> show what they can do;
  \<open>partition_drains\<close> and \<open>sessions_never_deadlock\<close> hold in all runs, and \<open>sm_readers_starve\<close> shows that
  they promise no reader its turn. All but \<open>racing_step\<close> take the lookup and the insertion of a topic
  as one step, as if the registry's mutex were held. \<open>registry_race_changes_only_logs\<close> shows that the
  gap between the two, if each is atomic, touches nothing but the log files, and
  \<open>registry_race_corrupts_log\<close> shows what happens to those.

  \<^bold>\<open>Not modelled.\<close> The body of a read or write of a socket is one step, so partial progress
  inside it is not visible, and where \<open>socket_ok\<close> is assumed no write fails. Data races inside the registry's hash table (a lookup and an
  insertion are each taken as atomic, though the code leaves them undefined), two topic names that denote the same file (such as
  \<open>a\<close> and \<open>./a\<close>, or two that agree up to a zero byte), and counters of more than \<open>2 ^ 64\<close> waiters
  are out of scope. Addresses in printed lines stand for the object they belong to. Left out
  are the exceptions of containers when memory is exhausted (the handler for
  \<open>std::exception\<close> in \<open>rpc_session_t::start\<close>), the lengths of sleeps, and the order in which the
  static destructors of the libraries the code calls (Boost.Asio, fmt, function2) run. The
  concept \<open>wall_writer_t\<close> of \<open>common/concepts.h\<close> is used nowhere.
\<close>

section \<open>Properties that span components\<close>

text \<open>
  C1: what goes in comes out, in order. A client pushes messages to a new topic and then pulls
  and deletes each; the bytes its send functions produce for this arrive on one connection.
  Then the session answers every push with OK and the pulls with the messages, in the order
  of the pushes, and leaves the topic empty and the world well formed.
\<close>

theorem end_to_end_fifo:
  assumes "socket_ok api inp out" and "platform_sound K pf" and "world_wf W"
    and "has_memory K (length (producer_consumer topic ms)) W"
    and "topic \<noteq> []" and "world_abs W topic = None" and "pf_can_open pf (lit ''/tmp/'' @ topic)"
    and "ms \<noteq> []" and "list_all (fits_buffer topic) ms"
    and "map (client_bytes pad) (producer_consumer topic ms) = map Inr bytes" and "inp k = concat bytes"
  shows "\<exists>k' W'. session_loop api pf k W = Some (Io_error k' W') \<and> world_wf W'
     \<and> out k' = out k @ concat (replicate (length ms) (ok_response pf (opcode_value PUSH)))
         @ concat (map (\<lambda>m. data_response pf (opcode_value PULL) m @ ok_response pf (opcode_value DELETE)) ms)
     \<and> world_abs W' = (world_abs W)(topic \<mapsto> [])"
proof -
  let ?qs = "producer_consumer topic ms"
  let ?reps = "replicate (length ms) (ack (opcode_value PUSH) [])
      @ concat (map (\<lambda>m. [ack (opcode_value PULL) m, ack (opcode_value DELETE) []]) ms)"
  note fr = producer_consumer_frames [OF assms(9)]
  have "map (client_bytes pad) ?qs = map (\<lambda>q. Inr (frame_of pad q)) ?qs"
    using fr(2) [of pad] by (simp add: list_all_iff)
  with assms(10) have "map Inr bytes = (map Inr (map (frame_of pad) ?qs) :: (fault + byte list) list)"
    by (simp add: comp_def)
  then have "bytes = map (frame_of pad) ?qs" by (simp only: inj_map_eq_map [OF inj_Inr])
  then have inp: "inp k = concat (map (frame_of pad) ?qs) @ []" using assms(11) by simp
  have run: "broker_run (pf_can_open pf) (world_abs W) ?qs = Some ((world_abs W)(topic \<mapsto> []), ?reps)"
    by (rule broker_run_producer_consumer) (use assms in auto)
  have mem: "has_memory K (length ?qs + 0) W" using assms(4) by simp
  from session_loop_stream [OF assms(1,2) fr(1) inp assms(3) mem] run
  obtain k1 W' where s: "session_loop api pf k W = session_loop api pf k1 W'" "inp k1 = []"
    "out k1 = out k @ concat (map (reply_image pf) ?reps)" "world_wf W'" "world_abs W' = (world_abs W)(topic \<mapsto> [])"
    by auto
  have "concat (map (reply_image pf) ?reps) =
      concat (replicate (length ms) (ok_response pf (opcode_value PUSH)))
        @ concat (map (\<lambda>m. data_response pf (opcode_value PULL) m @ ok_response pf (opcode_value DELETE)) ms)"
    by (simp add: map_concat comp_def map_replicate_const concat_map_pairs)
  moreover obtain k' where "session_loop api pf k1 W' = Some (Io_error k' W')" "out k' = out k1"
    using session_loop_end [OF assms(1), of k1 pf W'] s(2) by (auto simp: sizeof_header_def)
  ultimately show ?thesis using s by auto
qed

theorem end_to_end_fifo_witness:
  "\<exists>bytes k' W'. map (client_bytes 0) (producer_consumer (lit ''t'') [lit ''a'', lit ''b'']) = map Inr bytes
     \<and> session_loop pair_socket pool_platform (concat bytes, []) world_new = Some (Io_error k' W')
     \<and> snd k' = ok_response pool_platform 1 @ ok_response pool_platform 1
         @ data_response pool_platform 2 (lit ''a'') @ ok_response pool_platform 3
         @ data_response pool_platform 2 (lit ''b'') @ ok_response pool_platform 3
     \<and> world_abs W' = [lit ''t'' \<mapsto> []]"
proof -
  let ?qs = "producer_consumer (lit ''t'') [lit ''a'', lit ''b'']"
  have fits: "list_all (fits_buffer (lit ''t'')) [lit ''a'', lit ''b'']" by (simp add: fits_buffer_def)
  have bytes: "map (client_bytes 0) ?qs = map Inr (map (frame_of 0) ?qs)"
    using producer_consumer_frames(2) [OF fits, of 0] by (simp add: list_all_iff comp_def)
  have mem: "has_memory 8 (length ?qs) world_new"
    by (simp add: has_memory_def memory_left_def world_new_def producer_consumer_def take_requests_def)
  have "\<exists>k' W'. session_loop pair_socket pool_platform (concat (map (frame_of 0) ?qs), []) world_new = Some (Io_error k' W')
     \<and> world_wf W' \<and> snd k' = snd (concat (map (frame_of 0) ?qs), [] :: byte list)
         @ concat (replicate (length [lit ''a'', lit ''b'']) (ok_response pool_platform (opcode_value PUSH)))
         @ concat (map (\<lambda>m. data_response pool_platform (opcode_value PULL) m
             @ ok_response pool_platform (opcode_value DELETE)) [lit ''a'', lit ''b''])
     \<and> world_abs W' = (world_abs world_new)(lit ''t'' \<mapsto> [])"
    by (rule end_to_end_fifo [OF pair_socket_ok pool_platform_sound world_new_wf mem _ _ _ _ fits bytes])
      (simp_all add: pool_platform_def demo_platform_def)
  then show ?thesis
    by (intro exI [of _ "map (frame_of 0) ?qs"]) (auto simp: bytes)
qed

end
